(* ===== verification/Prelude.thy ===== *)
theory Prelude
  imports Main "HOL-Library.Word" "HOL-Library.Monad_Syntax"
begin

text \<open>
  Shared vocabulary of the development: the machine integer types of the C++
  sources, the named theorem collections, and the generic facts on lists, options
  and words that the component theories use.
\<close>

unbundle bit_operations_syntax

section \<open>Machine integers\<close>

type_synonym u8 = "8 word"
type_synonym u16 = "16 word"
type_synonym u32 = "32 word"
type_synonym u64 = "64 word"
type_synonym bytes = "u8 list"

named_theorems limb_simps \<open>values of single limbs and double limbs\<close>
named_theorems bn_simps \<open>the number each limb operation computes\<close>

subsection \<open>Unsigned values and their bounds\<close>

lemma uint8_bound: "0 \<le> uint (x :: u8) \<and> uint x < 256"
  using unsigned_less [of x, where 'a = int] by simp

lemma uint32_bound: "0 \<le> uint (x :: u32) \<and> uint x < 2 ^ 32"
  using unsigned_less [of x, where 'a = int] by simp

lemma uint64_bound: "0 \<le> uint (x :: u64) \<and> uint x < 2 ^ 64"
  using unsigned_less [of x, where 'a = int] by simp

lemma uint_ucast64 [simp, limb_simps]: "uint (ucast (x :: u32) :: u64) = uint x"
  using uint32_bound [of x] by (simp add: unsigned_ucast_eq take_bit_int_eq_self)

lemma uint_drop_bit_word: "uint (drop_bit k (n :: 'a::len word)) = uint n div 2 ^ k"
proof -
  have "uint (drop_bit k n) = drop_bit k (uint n)"
    by (rule bit_eqI) (auto simp: bit_simps dest: bit_imp_le_length)
  then show ?thesis by (simp add: drop_bit_eq_div)
qed

lemma uint_and_low32: "uint (n AND 0xffffffff :: u64) = uint n mod 2 ^ 32"
proof -
  have "uint (n AND 0xffffffff) = uint n AND mask 32"
    by (simp add: unsigned_and_eq mask_eq_exp_minus_1)
  then show ?thesis
    by (simp only: take_bit_eq_mask [symmetric] take_bit_eq_mod)
qed

lemma low32 [limb_simps]: "uint (ucast (n AND 0xffffffff :: u64) :: u32) = uint n mod 2 ^ 32"
  by (simp add: unsigned_ucast_eq take_bit_eq_mod uint_and_low32)

lemma high32 [limb_simps]: "uint (drop_bit 32 n :: u64) = uint n div 2 ^ 32"
  by (rule uint_drop_bit_word)

lemma uint_ucast_low [limb_simps]: "uint (ucast (n :: u64) :: u32) = uint n mod 2 ^ 32"
  by (simp add: unsigned_ucast_eq take_bit_eq_mod)

lemma int_div_mult_le: "0 < c \<Longrightarrow> a div c * c \<le> (a :: int)"
  using minus_mod_eq_div_mult [of a c] pos_mod_sign [of c a] by linarith

lemma int_div_lessI:
  fixes a b c :: int
  assumes "a < b * c" "0 < c"
  shows "a div c < b"
proof -
  have "a div c * c < b * c" using assms int_div_mult_le [of c a] by linarith
  then show ?thesis using assms(2) by simp
qed

lemma uint64_high_mod: "uint (w :: u64) div 2 ^ 32 mod 2 ^ 32 = uint w div 2 ^ 32"
  using uint64_bound [of w] by (intro mod_pos_pos_trivial) (simp_all add: pos_imp_zdiv_nonneg_iff)

text \<open>
  One step of a carry loop: the low limb of \<open>n\<close>, then the rest of the number with
  the carry \<open>n div 2 ^ 32\<close> added, is the whole sum truncated.
\<close>

lemma limb_step:
  fixes n r m :: int
  assumes "0 < m"
  shows "n mod 2 ^ 32 + 2 ^ 32 * ((r + n div 2 ^ 32) mod m) = (n + 2 ^ 32 * r) mod (2 ^ 32 * m)"
proof -
  have "(n + 2 ^ 32 * r) mod (2 ^ 32 * m) =
      2 ^ 32 * ((n + 2 ^ 32 * r) div 2 ^ 32 mod m) + (n + 2 ^ 32 * r) mod 2 ^ 32"
    using assms by (simp add: zmod_zmult2_eq)
  also have "(n + 2 ^ 32 * r) div 2 ^ 32 = r + n div 2 ^ 32" by simp
  also have "(n + 2 ^ 32 * r) mod 2 ^ 32 = n mod 2 ^ 32" by simp
  finally show ?thesis by simp
qed

subsection \<open>Casts between widths\<close>

lemma uint_ucast_small: "uint n < 2 ^ LENGTH('b) \<Longrightarrow> uint (ucast (n :: 'a::len word) :: 'b::len word) = uint n"
  by (simp only: unsigned_ucast_eq take_bit_int_eq_self uint_nonnegative)

lemma ucast_ucast_small: "uint n < 2 ^ LENGTH('b) \<Longrightarrow> ucast (ucast n :: 'b::len word) = (n :: 'a::len word)"
  using unsigned_less [of n, where 'a = int] uint_ucast_small [where 'b = 'b, of n]
    uint_ucast_small [where 'b = 'a, of "ucast n :: 'b word"]
  by (simp only: word_uint_eq_iff)

lemma uint_ucast_up: "LENGTH('a) \<le> LENGTH('b) \<Longrightarrow> uint (ucast (n :: 'a::len word) :: 'b::len word) = uint n"
  using unsigned_less [of n, where 'a = int] power_increasing [of "LENGTH('a)" "LENGTH('b)" "2 :: int"]
  by (intro uint_ucast_small) linarith

lemma take_bit_small: "uint n < 2 ^ k \<Longrightarrow> take_bit k n = (n :: 'a::len word)"
  by (simp add: word_uint_eq_iff unsigned_take_bit_eq take_bit_int_eq_self)

lemma ucast_ucast_up:
  "LENGTH('a) \<le> LENGTH('b) \<Longrightarrow> ucast (ucast (n :: 'a::len word) :: 'b::len word) = n"
  by (rule ucast_ucast_small) (metis uint_ucast_up unsigned_less)

end
