(* ===== verification/Serialize.thy ===== *)
theory Serialize
  imports Prelude
begin

text \<open>
  The serialization layer (src/src/serialize.h, src/src/streams.h).  A stream is the
  list of bytes still to be read; writing appends.  A reader returns either the
  exception it throws or the value together with the rest of the stream.

  The interface \<open>codec\<close> states what every pair of a writer and a reader promises:
  reading back what was written gives the value, and (for \<open>canonical_codec\<close>) a value
  has no other encoding.  It is interpreted on the fixed-width integers, on the
  compact sizes, on the variable-length integers and on the byte vectors, and it is
  lifted once to vectors of an arbitrary element codec.
\<close>

section \<open>Streams and exceptions\<close>

datatype ser_error =
    End_of_data
  | Noncanonical_CompactSize
  | CompactSize_too_large
  | VarInt_too_large
  | String_length_limit
  | Ignore_negative
  | Superfluous_witness
  | Unknown_optional_data
  | Too_many_undo_records
  | Assert_failed
  | Chunk_never_advances

type_synonym 'a reader = "bytes \<Rightarrow> ser_error + 'a \<times> bytes"

definition ebind :: "'e + 'a \<Rightarrow> ('a \<Rightarrow> 'e + 'b) \<Rightarrow> 'e + 'b" where
  "ebind r f = (case r of Inl e \<Rightarrow> Inl e | Inr a \<Rightarrow> f a)"

lemma ebind_simps [simp]:
  "ebind (Inl e) f = Inl e"
  "ebind (Inr a) f = f a"
  by (simp_all add: ebind_def)

lemma ebind_eq_Inr: "ebind r f = Inr b \<longleftrightarrow> (\<exists>a. r = Inr a \<and> f a = Inr b)"
  by (cases r) simp_all

lemma ebind_eq_Inl: "ebind r f = Inl e \<longleftrightarrow> r = Inl e \<or> (\<exists>a. r = Inr a \<and> f a = Inl e)"
  by (cases r) auto

text \<open>CDataStream::read: a request for more bytes than are left throws.\<close>

definition stream_read :: "nat \<Rightarrow> bytes reader" where
  "stream_read nSize s =
     (if nSize = 0 then Inr ([], s)
      else if length s < nSize then Inl End_of_data
      else Inr (take nSize s, drop nSize s))"

definition stream_ignore :: "int \<Rightarrow> unit reader" where
  "stream_ignore nSize s =
     (if nSize < 0 then Inl Ignore_negative
      else if int (length s) < nSize then Inl End_of_data
      else Inr ((), drop (nat nSize) s))"

section \<open>Fixed-width integers\<close>

text \<open>The bytes of a word in memory order after the conversion to little endian, and
  the word that such bytes denote.\<close>

definition le_bytes :: "nat \<Rightarrow> 'a::len word \<Rightarrow> bytes" where
  "le_bytes k w = map (\<lambda>i. ucast (drop_bit (8 * i) w)) [0..<k]"

primrec of_le_bytes :: "bytes \<Rightarrow> 'a::len word" where
  "of_le_bytes [] = 0"
| "of_le_bytes (b # bs) = ucast b OR push_bit 8 (of_le_bytes bs)"

definition ser_writedata8 :: "u8 \<Rightarrow> bytes" where
  "ser_writedata8 obj = [obj]"

definition ser_writedata16 :: "u16 \<Rightarrow> bytes" where
  "ser_writedata16 obj = le_bytes 2 obj"

definition ser_writedata16be :: "u16 \<Rightarrow> bytes" where
  "ser_writedata16be obj = rev (le_bytes 2 obj)"

definition ser_writedata32 :: "u32 \<Rightarrow> bytes" where
  "ser_writedata32 obj = le_bytes 4 obj"

definition ser_writedata32be :: "u32 \<Rightarrow> bytes" where
  "ser_writedata32be obj = rev (le_bytes 4 obj)"

definition ser_writedata64 :: "u64 \<Rightarrow> bytes" where
  "ser_writedata64 obj = le_bytes 8 obj"

definition ser_readdata8 :: "u8 reader" where
  "ser_readdata8 s = ebind (stream_read 1 s) (\<lambda>(bs, s). Inr (hd bs, s))"

definition ser_readdata16 :: "u16 reader" where
  "ser_readdata16 s = ebind (stream_read 2 s) (\<lambda>(bs, s). Inr (of_le_bytes bs, s))"

definition ser_readdata16be :: "u16 reader" where
  "ser_readdata16be s = ebind (stream_read 2 s) (\<lambda>(bs, s). Inr (of_le_bytes (rev bs), s))"

definition ser_readdata32 :: "u32 reader" where
  "ser_readdata32 s = ebind (stream_read 4 s) (\<lambda>(bs, s). Inr (of_le_bytes bs, s))"

definition ser_readdata32be :: "u32 reader" where
  "ser_readdata32be s = ebind (stream_read 4 s) (\<lambda>(bs, s). Inr (of_le_bytes (rev bs), s))"

definition ser_readdata64 :: "u64 reader" where
  "ser_readdata64 s = ebind (stream_read 8 s) (\<lambda>(bs, s). Inr (of_le_bytes bs, s))"

text \<open>The byte of a bool, and any non-zero byte read back as true.\<close>

definition Serialize_bool :: "bool \<Rightarrow> bytes" where
  "Serialize_bool a = ser_writedata8 (if a then 1 else 0)"

definition Unserialize_bool :: "bool reader" where
  "Unserialize_bool s = ebind (ser_readdata8 s) (\<lambda>(f, s). Inr (f \<noteq> 0, s))"

section \<open>Compact sizes\<close>

definition MAX_SIZE :: u64 where
  "MAX_SIZE = 0x10000000"

definition GetSizeOfCompactSize :: "u64 \<Rightarrow> nat" where
  "GetSizeOfCompactSize nSize =
     (if nSize < 253 then 1
      else if nSize \<le> 0xffff then 1 + 2
      else if nSize \<le> 0xffffffff then 1 + 4
      else 1 + 8)"

definition WriteCompactSize :: "u64 \<Rightarrow> bytes" where
  "WriteCompactSize nSize =
     (if nSize < 253 then ser_writedata8 (ucast nSize)
      else if nSize \<le> 0xffff then ser_writedata8 253 @ ser_writedata16 (ucast nSize)
      else if nSize \<le> 0xffffffff then ser_writedata8 254 @ ser_writedata32 (ucast nSize)
      else ser_writedata8 255 @ ser_writedata64 nSize)"

definition ReadCompactSize :: "u64 reader" where
  "ReadCompactSize s =
     ebind (ser_readdata8 s) (\<lambda>(chSize, s).
     ebind (if chSize < 253 then Inr (ucast chSize, s)
            else if chSize = 253 then
              ebind (ser_readdata16 s) (\<lambda>(n, s).
                if (ucast n :: u64) < 253 then Inl Noncanonical_CompactSize else Inr (ucast n, s))
            else if chSize = 254 then
              ebind (ser_readdata32 s) (\<lambda>(n, s).
                if (ucast n :: u64) < 0x10000 then Inl Noncanonical_CompactSize else Inr (ucast n, s))
            else
              ebind (ser_readdata64 s) (\<lambda>(n, s).
                if n < 0x100000000 then Inl Noncanonical_CompactSize else Inr (n, s)))
       (\<lambda>(nSizeRet, s). if nSizeRet > MAX_SIZE then Inl CompactSize_too_large else Inr (nSizeRet, s)))"

section \<open>Variable-length integers\<close>

text \<open>The bytes \<open>tmp\<close> in the order the loop of WriteVarInt fills them: least
  significant digit first, the continuation bit on all but the first.\<close>

definition varint_digit :: "bool \<Rightarrow> 'a::len word \<Rightarrow> u8" where
  "varint_digit more n = ucast (n AND 0x7f) OR (if more then 0x80 else 0)"

function varint_digits :: "bool \<Rightarrow> 'a::len word \<Rightarrow> bytes" where
  "varint_digits more n =
     varint_digit more n # (if n \<le> 0x7f then [] else varint_digits True (drop_bit 7 n - 1))"
  by pat_completeness auto




subsection \<open>Seven-bit digits\<close>

lemma word_0x7f: "(0x7f :: 'a::len word) = mask 7"
  by (simp add: mask_eq_exp_minus_1)

lemma uint_and_0x7f: "uint ((n :: 'a::len word) AND 0x7f) = uint n mod 128"
  by (simp only: word_0x7f unsigned_take_bit_eq flip: take_bit_eq_mask) (simp add: take_bit_eq_mod)

lemma uint_0x7f: "7 < LENGTH('a) \<Longrightarrow> uint (0x7f :: 'a::len word) = 127"
  using power_increasing [of 7 "LENGTH('a)" "2 :: int"] by (simp add: take_bit_int_eq_self)

lemma le_0x7f_small: "LENGTH('a) \<le> 7 \<Longrightarrow> (n :: 'a::len word) \<le> 0x7f"
proof -
  assume "LENGTH('a) \<le> 7"
  then have "(mask 7 :: 'a word) = - 1"
    by (intro bit_eqI) (simp add: bit_simps)
  then show ?thesis by (simp add: word_0x7f)
qed

lemma le_0x7f_iff: "7 < LENGTH('a) \<Longrightarrow> (n :: 'a::len word) \<le> 0x7f \<longleftrightarrow> uint n < 128"
  using uint_0x7f [where 'a = 'a] by (auto simp: word_le_def)

lemma gt_0x7f: "\<not> (n :: 'a::len word) \<le> 0x7f \<Longrightarrow> 7 < LENGTH('a) \<and> 128 \<le> uint n"
  using le_0x7f_small [of n] le_0x7f_iff [of n] by (metis not_le)

lemma uint_digit_step: "\<not> (n :: 'a::len word) \<le> 0x7f \<Longrightarrow> uint (drop_bit 7 n - 1) = uint n div 128 - 1"
proof -
  assume "\<not> n \<le> 0x7f"
  then have "128 \<le> uint n" using gt_0x7f by blast
  then have "1 \<le> drop_bit 7 n" 
    by (simp add: word_le_def uint_drop_bit_word)
  then show ?thesis
    by (simp add: uint_minus_simple_alt [THEN iffD1] uint_drop_bit_word)
qed

lemma digit_step_less: "\<not> (n :: 'a::len word) \<le> 0x7f \<Longrightarrow> unat (drop_bit 7 n - 1) < unat n"
proof -
  assume n: "\<not> n \<le> 0x7f"
  then have "uint n div 128 - 1 < uint n" "0 \<le> uint n div 128 - 1"
    using gt_0x7f [OF n] by linarith+
  then have "drop_bit 7 n - 1 < n"
    by (simp add: word_less_def uint_digit_step [OF n])
  then show ?thesis by (simp add: word_less_nat_alt)
qed

termination varint_digits
  by (relation "measure (\<lambda>(_, n). unat n)") (auto intro: digit_step_less)

declare varint_digits.simps [simp del]

definition WriteVarInt :: "'a::len word \<Rightarrow> bytes" where
  "WriteVarInt n = rev (varint_digits False n)"

function GetSizeOfVarInt :: "'a::len word \<Rightarrow> nat" where
  "GetSizeOfVarInt n = (if n \<le> 0x7f then 1 else 1 + GetSizeOfVarInt (drop_bit 7 n - 1))"
  by pat_completeness auto
termination GetSizeOfVarInt
  by (relation "measure unat") (auto intro: digit_step_less)

declare GetSizeOfVarInt.simps [simp del]

primrec ReadVarInt_loop :: "bytes \<Rightarrow> 'a::len word \<Rightarrow> ser_error + 'a word \<times> bytes" where
  "ReadVarInt_loop [] n = Inl End_of_data"
| "ReadVarInt_loop (chData # s) n =
     (if n > drop_bit 7 (- 1) then Inl VarInt_too_large
      else let n = push_bit 7 n OR ucast (chData AND 0x7f) in
        if chData AND 0x80 \<noteq> 0 then
          if n = - 1 then Inl VarInt_too_large else ReadVarInt_loop s (n + 1)
        else Inr (n, s))"

definition ReadVarInt :: "'a::len word reader" where
  "ReadVarInt s = ReadVarInt_loop s 0"


section \<open>Vectors\<close>

text \<open>A vector of bytes is one opaque blob.  Its reader asks the stream for at most
  5000000 bytes at a time, so that a bogus length does not allocate memory.\<close>

definition Serialize_bytes :: "bytes \<Rightarrow> bytes" where
  "Serialize_bytes v = WriteCompactSize (of_nat (length v)) @ v"

function read_blocks :: "nat \<Rightarrow> nat \<Rightarrow> bytes \<Rightarrow> bytes reader" where
  "read_blocks nSize i v s =
     (if i < nSize then
        let blk = min (nSize - i) (1 + 4999999 div 1)
        in ebind (stream_read blk s) (\<lambda>(bs, s). read_blocks nSize (i + blk) (v @ bs) s)
      else Inr (v, s))"
  by pat_completeness auto
termination read_blocks
  by (relation "measure (\<lambda>(nSize, i, _, _). nSize - i)") auto

declare read_blocks.simps [simp del]

definition Unserialize_bytes :: "bytes reader" where
  "Unserialize_bytes s = ebind (ReadCompactSize s) (\<lambda>(nSize, s). read_blocks (unat nSize) 0 [] s)"

text \<open>A vector of a type T is read in chunks of 5000000 / sizeof(T) elements.  For a type
  larger than that the loop of the source would not advance.\<close>

definition Serialize_vector :: "('a \<Rightarrow> bytes) \<Rightarrow> 'a list \<Rightarrow> bytes" where
  "Serialize_vector ser v = WriteCompactSize (of_nat (length v)) @ concat (map ser v)"

primrec read_elems :: "'a reader \<Rightarrow> nat \<Rightarrow> 'a list \<Rightarrow> 'a list reader" where
  "read_elems unser 0 v s = Inr (v, s)"
| "read_elems unser (Suc k) v s = ebind (unser s) (\<lambda>(x, s). read_elems unser k (v @ [x]) s)"

function read_chunks :: "nat \<Rightarrow> 'a reader \<Rightarrow> nat \<Rightarrow> nat \<Rightarrow> 'a list \<Rightarrow> 'a list reader" where
  "read_chunks szT unser nSize i v s =
     (if i < nSize then
        if 5000000 div szT = 0 then Inl Chunk_never_advances
        else let nMid = min (i + 5000000 div szT) nSize
          in ebind (read_elems unser (nMid - i) v s)
               (\<lambda>(v, s). read_chunks szT unser nSize nMid v s)
      else Inr (v, s))"
  by pat_completeness auto
termination read_chunks
  by (relation "measure (\<lambda>(_, _, nSize, i, _, _). nSize - i)") auto

declare read_chunks.simps [simp del]

definition Unserialize_vector :: "nat \<Rightarrow> 'a reader \<Rightarrow> 'a list reader" where
  "Unserialize_vector szT unser s =
     ebind (ReadCompactSize s) (\<lambda>(nSize, s). read_chunks szT unser (unat nSize) 0 [] s)"

definition fits_MAX_SIZE :: "'a list \<Rightarrow> bool" where
  "fits_MAX_SIZE xs = (length xs \<le> 0x10000000)"

section \<open>Variable-length integers are a canonical code\<close>

lemma length_varint_digits: "length (varint_digits more n) = GetSizeOfVarInt n"
  by (induction more n rule: varint_digits.induct)
     (subst varint_digits.simps, subst GetSizeOfVarInt.simps, simp)

lemma length_WriteVarInt: "length (WriteVarInt n) = GetSizeOfVarInt n"
  by (simp add: WriteVarInt_def length_varint_digits)

lemma byte_0x80: "(0x80 :: u8) = 2 ^ 7"
  by simp
lemma bit_0x80: "bit (0x80 :: u8) n \<longleftrightarrow> n = 7"
  unfolding byte_0x80 bit_exp_iff by auto

lemma and_0x80_iff: "b AND 0x80 = (0 :: u8) \<longleftrightarrow> \<not> bit b 7"
  by (simp only: byte_0x80 and_exp_eq_0_iff_not_bit)

lemma le_max_digit:
  assumes "7 < LENGTH('a)"
  shows "n \<le> drop_bit 7 (- 1 :: 'a::len word) \<longleftrightarrow> uint n < 2 ^ LENGTH('a) div 128"
proof -
  have "uint (drop_bit 7 (- 1 :: 'a word)) = (2 ^ LENGTH('a) - 1) div 128"
    unfolding uint_drop_bit_word unsigned_minus_1_eq_mask mask_eq_exp_minus_1 by simp
  moreover obtain k where "LENGTH('a) = 7 + k" using le_Suc_ex [of 7 "LENGTH('a)"] assms by auto
  ultimately show ?thesis by (auto simp: word_le_def power_add)
qed

lemma join_digits: "push_bit 7 (drop_bit 7 n) OR (n AND 0x7f) = (n :: 'a::len word)"
  by (rule bit_eqI) (auto simp: word_0x7f bit_simps)

lemma bit_varint_digit: "bit (varint_digit more n) i \<longleftrightarrow> i < 7 \<and> bit n i \<or> i = 7 \<and> more"
proof -
  have "bit (if more then 0x80 else 0 :: u8) i \<longleftrightarrow> i = 7 \<and> more"
    by (cases more) (simp_all only: bit_0x80 if_True if_False bit_0_eq bot_apply bot_bool_def simp_thms)
  then show ?thesis
    by (auto simp: varint_digit_def word_0x7f bit_or_iff bit_unsigned_iff bit_and_iff bit_mask_iff
        split del: if_split dest: bit_imp_le_length)
qed

lemma digit_byte: "7 < LENGTH('a) \<Longrightarrow> ucast (varint_digit more n AND 0x7f :: u8) = (n AND 0x7f :: 'a::len word)"
  by (rule bit_eqI) (auto simp: word_0x7f bit_simps bit_varint_digit)

lemma drop_join:
  assumes "7 < LENGTH('a)" "n \<le> drop_bit 7 (- 1)"
  shows "drop_bit 7 (push_bit 7 n OR ucast (b AND 0x7f :: u8)) = (n :: 'a::len word)"
proof (rule bit_eqI)
  fix i
  obtain k where k: "LENGTH('a) = 7 + k" using le_Suc_ex [of 7 "LENGTH('a)"] assms by auto
  have "uint n < 2 ^ k" using le_max_digit [OF assms(1)] assms(2) by (simp only: k power_add) simp
  then have "bit (uint n) i \<Longrightarrow> i < k" by (metis bit_take_bit_iff take_bit_int_eq_self uint_nonnegative)
  then have "bit n i \<Longrightarrow> i < k" by (simp add: bit_unsigned_iff)
  then show "bit (drop_bit 7 (push_bit 7 n OR ucast (b AND 0x7f :: u8))) i = bit n i"
    by (auto simp: word_0x7f bit_drop_bit_eq bit_or_iff bit_push_bit_iff bit_unsigned_iff bit_and_iff bit_mask_iff k)
qed

lemma and_join: "7 < LENGTH('a) \<Longrightarrow> (push_bit 7 n OR ucast (b AND 0x7f :: u8)) AND 0x7f = (ucast (b AND 0x7f) :: 'a::len word)"
  by (rule bit_eqI) (auto simp: word_0x7f bit_simps)

lemma read_digit_step:
  fixes n :: "'a::len word"
  assumes "7 < LENGTH('a)"
  shows "ReadVarInt_loop (varint_digit more n # s) (drop_bit 7 n) =
    (if more then if n = - 1 then Inl VarInt_too_large else ReadVarInt_loop s (n + 1) else Inr (n, s))"
proof -
  obtain k where k: "LENGTH('a) = 7 + k" using le_Suc_ex [of 7 "LENGTH('a)"] assms by auto
  have "uint n < 128 * 2 ^ k" using unsigned_less [of n, where 'a = int] by (simp add: k power_add)
  then have "uint (drop_bit 7 n) < 2 ^ k" unfolding uint_drop_bit_word by (simp add: int_div_lessI)
  then have le: "(drop_bit 7 n > drop_bit 7 (- 1)) = False"
    using le_max_digit [OF assms, of "drop_bit 7 n"] by (simp add: k power_add not_less)
  show ?thesis
    by (simp only: ReadVarInt_loop.simps le if_False Let_def and_0x80_iff bit_varint_digit
        digit_byte [OF assms] join_digits) simp
qed

lemma small_digit: "(n :: 'a::len word) \<le> 0x7f \<Longrightarrow> 7 < LENGTH('a) \<Longrightarrow> drop_bit 7 n = 0"
  using le_0x7f_iff [of n] by (simp add: word_uint_eq_iff uint_drop_bit_word)

lemma large_digit: "\<not> (n :: 'a::len word) \<le> 0x7f \<Longrightarrow> drop_bit 7 n \<noteq> 0"
proof -
  assume "\<not> n \<le> 0x7f"
  then have "0 < uint n div 128"
    using gt_0x7f [of n] by (simp add: pos_imp_zdiv_pos_iff)
  then show ?thesis by (auto simp: word_uint_eq_iff uint_drop_bit_word)
qed

lemma large_digit_pred: "\<not> (n :: 'a::len word) \<le> 0x7f \<Longrightarrow> drop_bit 7 n - 1 \<noteq> - 1"
  by (drule large_digit) (metis add_diff_cancel_left' add.right_inverse diff_add_cancel)

lemma read_digits:
  fixes n :: "'a::len word"
  assumes L: "7 < LENGTH('a)"
  shows "n \<noteq> - 1 \<Longrightarrow> ReadVarInt_loop (rev (varint_digits True n) @ s) 0 = ReadVarInt_loop s (n + 1)"
proof (induction "unat n" arbitrary: n s rule: less_induct)
  case less
  show ?case
  proof (cases "n \<le> 0x7f")
    case True
    then show ?thesis
      using read_digit_step [OF L, of True n s] less.prems small_digit [OF True L]
      by (subst varint_digits.simps) (simp del: ReadVarInt_loop.simps)
  next
    case False
    then have "ReadVarInt_loop (rev (varint_digits True n) @ s) 0 = ReadVarInt_loop (varint_digit True n # s) (drop_bit 7 n)"
      using less.hyps [OF digit_step_less [OF False] large_digit_pred [OF False], of "varint_digit True n # s"]
      by (subst varint_digits.simps) (simp del: ReadVarInt_loop.simps)
    then show ?thesis using less.prems by (simp only: read_digit_step [OF L] if_True if_False)
  qed
qed

lemma ReadVarInt_WriteVarInt:
  fixes n :: "'a::len word"
  assumes L: "7 < LENGTH('a)"
  shows "ReadVarInt (WriteVarInt n @ s) = Inr (n, s)"
proof (cases "n \<le> 0x7f")
  case True
  then show ?thesis
    using read_digit_step [OF L, of False n s] small_digit [OF True L]
    unfolding ReadVarInt_def WriteVarInt_def by (subst varint_digits.simps) (simp del: ReadVarInt_loop.simps)
next
  case False
  then have "ReadVarInt (WriteVarInt n @ s) = ReadVarInt_loop (varint_digit False n # s) (drop_bit 7 n)"
    using read_digits [OF L large_digit_pred [OF False], of "varint_digit False n # s"]
    unfolding ReadVarInt_def WriteVarInt_def
    by (subst varint_digits.simps) (simp del: ReadVarInt_loop.simps)
  then show ?thesis by (simp only: read_digit_step [OF L] if_False)
qed


lemma varint_digit_join:
  fixes n :: "'a::len word"
  assumes "7 < LENGTH('a)"
  shows "varint_digit (bit b 7) (push_bit 7 n OR ucast (b AND 0x7f)) = b"
proof (rule bit_eqI)
  fix i
  assume "possible_bit TYPE(8 word) i"
  then have "i < 7 \<or> i = 7" by (auto simp: possible_bit_word)
  then show "bit (varint_digit (bit b 7) (push_bit 7 n OR ucast (b AND 0x7f))) i = bit b i"
    using assms by (auto simp: bit_varint_digit word_0x7f bit_or_iff bit_unsigned_iff bit_and_iff
        bit_mask_iff bit_push_bit_iff)
qed

lemma varint_digits_join:
  fixes n :: "'a::len word"
  assumes L: "7 < LENGTH('a)" and n: "n + 1 \<le> drop_bit 7 (- 1)" "n \<noteq> - 1"
  shows "varint_digits (bit b 7) (push_bit 7 (n + 1) OR ucast (b AND 0x7f)) = b # varint_digits True n"
proof -
  let ?m = "push_bit 7 (n + 1) OR ucast (b AND 0x7f) :: 'a word"
  have d: "drop_bit 7 ?m = n + 1" by (rule drop_join [OF L n(1)])
  moreover have "n + 1 \<noteq> 0" using n(2) by (simp add: eq_neg_iff_add_eq_0)
  ultimately have "\<not> ?m \<le> 0x7f" using small_digit [OF _ L, of ?m] by metis
  then show ?thesis
    by (subst varint_digits.simps) (simp only: if_False varint_digit_join [OF L] d add_diff_cancel_right')
qed

lemma ReadVarInt_loop_canonical:
  fixes n :: "'a::len word"
  assumes L: "7 < LENGTH('a)"
  shows "n \<noteq> - 1 \<Longrightarrow> ReadVarInt_loop s (n + 1) = Inr (x, rest) \<Longrightarrow>
    rev (varint_digits True n) @ s = WriteVarInt x @ rest"
proof (induction s arbitrary: n)
  case (Cons b s)
  let ?m = "push_bit 7 (n + 1) OR ucast (b AND 0x7f) :: 'a word"
  from Cons.prems have le: "n + 1 \<le> drop_bit 7 (- 1)" by (simp add: not_less split: if_splits)
  note j = varint_digits_join [OF L le Cons.prems(1), of b]
  show ?case
  proof (cases "bit b 7")
    case True
    with Cons.prems le have "?m \<noteq> - 1" "ReadVarInt_loop s (?m + 1) = Inr (x, rest)"
      by (simp_all only: ReadVarInt_loop.simps and_0x80_iff Let_def simp_thms if_True if_False not_less sum.simps split: if_splits)
    then show ?thesis using Cons.IH [of ?m] j True by simp
  next
    case False
    with Cons.prems le have "x = ?m" "rest = s"
      by (simp_all only: ReadVarInt_loop.simps and_0x80_iff Let_def simp_thms if_True if_False sum.simps prod.simps not_less split: if_splits)
    then show ?thesis using j False by (simp add: WriteVarInt_def)
  qed
qed simp

lemma ReadVarInt_canonical:
  fixes x :: "'a::len word"
  assumes L: "7 < LENGTH('a)" and r: "ReadVarInt s = Inr (x, rest)"
  shows "s = WriteVarInt x @ rest"
proof (cases s)
  case Nil
  with r show ?thesis by (simp add: ReadVarInt_def)
next
  case (Cons b s')
  let ?m = "ucast (b AND 0x7f) :: 'a word"
  have "?m AND 0x7f = ?m" using and_join [OF L, of 0 b] by simp
  then have "uint ?m = uint ?m mod 128" by (metis uint_and_0x7f)
  then have "uint ?m < 128" by (metis pos_mod_bound zero_less_numeral)
  then have "?m \<le> 0x7f" by (simp only: le_0x7f_iff [OF L])
  then have j: "varint_digits (bit b 7) ?m = [b]"
    using varint_digit_join [OF L, of b 0] by (subst varint_digits.simps) simp
  show ?thesis
  proof (cases "bit b 7")
    case True
    with r Cons have "?m \<noteq> - 1" "ReadVarInt_loop s' (?m + 1) = Inr (x, rest)"
      by (simp_all only: ReadVarInt_def ReadVarInt_loop.simps and_0x80_iff Let_def simp_thms if_True if_False
          not_less sum.simps push_bit_of_0 or.left_neutral split: if_splits)
    then show ?thesis using ReadVarInt_loop_canonical [OF L, of ?m s' x rest] j True Cons by simp
  next
    case False
    with r Cons have "x = ?m" "rest = s'"
      by (simp_all only: ReadVarInt_def ReadVarInt_loop.simps and_0x80_iff Let_def simp_thms if_True if_False
          sum.simps prod.simps not_less push_bit_of_0 or.left_neutral split: if_splits)
    then show ?thesis using j False Cons by (simp add: WriteVarInt_def)
  qed
qed

lemma GetSizeOfVarInt_bound:
  fixes n :: "'a::len word"
  assumes "7 < LENGTH('a)"
  shows "uint n < 2 ^ (7 * k) \<Longrightarrow> 0 < k \<Longrightarrow> GetSizeOfVarInt n \<le> k"
proof (induction k arbitrary: n)
  case (Suc k)
  show ?case
  proof (cases "n \<le> 0x7f")
    case True
    then show ?thesis by (subst GetSizeOfVarInt.simps) simp
  next
    case False
    then have "128 \<le> uint n" using gt_0x7f by blast
    with Suc.prems have "0 < k" by (cases k) auto
    moreover have "uint n div 128 < 2 ^ (7 * k)"
      using Suc.prems by (intro int_div_lessI) (simp_all add: power_add)
    then have "uint (drop_bit 7 n - 1) < 2 ^ (7 * k)" by (simp add: uint_digit_step [OF False])
    ultimately show ?thesis using Suc.IH False by (subst GetSizeOfVarInt.simps) simp
  qed
qed simp

section \<open>Little-endian bytes\<close>

lemma length_le_bytes [simp]: "length (le_bytes k w) = k"
  by (simp add: le_bytes_def)

lemma bit_of_le_bytes:
  "bit (of_le_bytes bs :: 'a::len word) i \<longleftrightarrow>
     i < LENGTH('a) \<and> i div 8 < length bs \<and> bit (bs ! (i div 8)) (i mod 8)"
proof (induction bs arbitrary: i)
  case (Cons b bs)
  show ?case
  proof (cases "i < 8")
    case True
    then show ?thesis
      by (auto simp: bit_or_iff bit_push_bit_iff bit_unsigned_iff)
  next
    case False
    then obtain j where j: "i = 8 + j" by (metis le_Suc_ex not_less)
    have "\<not> bit b i" using False bit_imp_le_length [of b i] by auto
    moreover have "i div 8 = Suc (j div 8)" "i mod 8 = j mod 8" by (simp_all add: j)
    ultimately show ?thesis
      using Cons.IH [of j] bit_imp_le_length [of "of_le_bytes bs :: 'a word" j]
      by (auto simp: bit_or_iff bit_push_bit_iff bit_unsigned_iff) (simp_all add: j)
  qed
qed simp

lemma bit_le_bytes: "j < k \<Longrightarrow> i < 8 \<Longrightarrow> bit (le_bytes k w ! j) i \<longleftrightarrow> bit w (8 * j + i)"
  by (simp add: le_bytes_def bit_unsigned_iff bit_drop_bit_eq)

lemma of_le_bytes_le_bytes [simp]:
  "LENGTH('a) \<le> 8 * k \<Longrightarrow> of_le_bytes (le_bytes k w) = (w :: 'a::len word)"
proof (rule bit_eqI)
  fix i
  assume "LENGTH('a) \<le> 8 * k" "possible_bit TYPE('a word) i"
  then have "i < LENGTH('a)" "i div 8 < k" by (auto simp: possible_bit_word)
  then show "bit (of_le_bytes (le_bytes k w) :: 'a word) i = bit w i"
    by (simp add: bit_of_le_bytes bit_le_bytes)
qed

lemma le_bytes_of_le_bytes [simp]:
  "8 * k \<le> LENGTH('a) \<Longrightarrow> length bs = k \<Longrightarrow> le_bytes k (of_le_bytes bs :: 'a::len word) = bs"
proof (rule nth_equalityI)
  fix j
  assume k: "8 * k \<le> LENGTH('a)" "length bs = k" "j < length (le_bytes k (of_le_bytes bs :: 'a word))"
  show "le_bytes k (of_le_bytes bs :: 'a word) ! j = bs ! j"
  proof (rule bit_eqI)
    fix i
    assume "possible_bit TYPE(8 word) i"
    with k show "bit (le_bytes k (of_le_bytes bs :: 'a word) ! j) i = bit (bs ! j) i"
      by (auto simp: possible_bit_word bit_le_bytes bit_of_le_bytes)
  qed
qed simp

section \<open>Codecs\<close>

text \<open>What a writer and a reader promise each other on the values \<open>ok\<close>.\<close>

locale codec =
  fixes ser :: "'a \<Rightarrow> bytes" and unser :: "'a reader" and ok :: "'a \<Rightarrow> bool"
  assumes decode: "ok x \<Longrightarrow> unser (ser x @ s) = Inr (x, s)"
begin

lemma prefix_free: "ok x \<Longrightarrow> ok y \<Longrightarrow> ser x @ s = ser y @ t \<Longrightarrow> x = y \<and> s = t"
  by (metis decode Inr_inject prod.inject)

lemma decode_exact: "ok x \<Longrightarrow> unser (ser x) = Inr (x, [])"
  using decode [of x "[]"] by simp

lemma read_elems_decode:
  "list_all ok xs \<Longrightarrow> read_elems unser (length xs) v (concat (map ser xs) @ s) = Inr (v @ xs, s)"
  by (induction xs arbitrary: v) (simp_all add: decode)

end

locale canonical_codec = codec +
  assumes canonical: "unser s = Inr (x, rest) \<Longrightarrow> s = ser x @ rest \<and> ok x"
begin

lemma read_elems_canonical:
  "read_elems unser k v s = Inr (w, rest) \<Longrightarrow>
   \<exists>xs. w = v @ xs \<and> length xs = k \<and> s = concat (map ser xs) @ rest \<and> list_all ok xs"
proof (induction k arbitrary: v s)
  case (Suc k)
  then obtain x t where x: "unser s = Inr (x, t)" "read_elems unser k (v @ [x]) t = Inr (w, rest)"
    by (auto simp: ebind_eq_Inr)
  then obtain xs where "w = v @ x # xs" "length xs = k" "t = concat (map ser xs) @ rest" "list_all ok xs"
    using Suc.IH [OF x(2)] by auto
  then show ?case using canonical [OF x(1)] by (intro exI [of _ "x # xs"]) simp
qed simp

end

subsection \<open>Streams and fixed-width integers\<close>

lemma stream_read_append [simp]: "length bs = k \<Longrightarrow> stream_read k (bs @ s) = Inr (bs, s)"
  by (auto simp: stream_read_def)

lemma stream_read_Inr: "stream_read k s = Inr (bs, t) \<longleftrightarrow> s = bs @ t \<and> length bs = k"
  by (auto simp: stream_read_def split: if_splits)

interpretation u8: canonical_codec ser_writedata8 ser_readdata8 "\<lambda>_. True"
  by unfold_locales
     (auto simp: ser_writedata8_def ser_readdata8_def stream_read_def neq_Nil_conv split: if_splits)

interpretation u16: canonical_codec ser_writedata16 ser_readdata16 "\<lambda>_. True"
  by unfold_locales (auto simp: ser_writedata16_def ser_readdata16_def ebind_eq_Inr stream_read_Inr)

interpretation u16be: canonical_codec ser_writedata16be ser_readdata16be "\<lambda>_. True"
  by unfold_locales (auto simp: ser_writedata16be_def ser_readdata16be_def ebind_eq_Inr stream_read_Inr)

interpretation u32: canonical_codec ser_writedata32 ser_readdata32 "\<lambda>_. True"
  by unfold_locales (auto simp: ser_writedata32_def ser_readdata32_def ebind_eq_Inr stream_read_Inr)

interpretation u32be: canonical_codec ser_writedata32be ser_readdata32be "\<lambda>_. True"
  by unfold_locales (auto simp: ser_writedata32be_def ser_readdata32be_def ebind_eq_Inr stream_read_Inr)

interpretation u64: canonical_codec ser_writedata64 ser_readdata64 "\<lambda>_. True"
  by unfold_locales (auto simp: ser_writedata64_def ser_readdata64_def ebind_eq_Inr stream_read_Inr)

interpretation boolean: codec Serialize_bool Unserialize_bool "\<lambda>_. True"
  by unfold_locales (auto simp: Serialize_bool_def Unserialize_bool_def u8.decode)

interpretation varint32: canonical_codec WriteVarInt "ReadVarInt :: u32 reader" "\<lambda>_. True"
  by unfold_locales (simp_all add: ReadVarInt_WriteVarInt ReadVarInt_canonical)

interpretation varint64: canonical_codec WriteVarInt "ReadVarInt :: u64 reader" "\<lambda>_. True"
  by unfold_locales (simp_all add: ReadVarInt_WriteVarInt ReadVarInt_canonical)

subsection \<open>Compact sizes\<close>

lemma MAX_SIZE_bound: "n \<le> MAX_SIZE \<longleftrightarrow> uint n \<le> 0x10000000"
  by (simp add: MAX_SIZE_def word_le_def)

lemma WriteCompactSize_cases:
  "uint n < 253 \<Longrightarrow> WriteCompactSize n = ser_writedata8 (ucast n)"
  "253 \<le> uint n \<Longrightarrow> uint n \<le> 0xffff \<Longrightarrow>
     WriteCompactSize n = ser_writedata8 253 @ ser_writedata16 (ucast n)"
  "0xffff < uint n \<Longrightarrow> uint n \<le> 0xffffffff \<Longrightarrow>
     WriteCompactSize n = ser_writedata8 254 @ ser_writedata32 (ucast n)"
  "0xffffffff < uint n \<Longrightarrow> WriteCompactSize n = ser_writedata8 255 @ ser_writedata64 n"
  by (simp_all add: WriteCompactSize_def word_less_def word_le_def)

lemma ReadCompactSize_WriteCompactSize:
  assumes "n \<le> MAX_SIZE"
  shows "ReadCompactSize (WriteCompactSize n @ s) = Inr (n, s)"
proof -
  have max: "\<not> MAX_SIZE < n" and n: "uint n \<le> 0x10000000"
    using assms by (simp_all add: not_less MAX_SIZE_bound)
  consider "uint n < 253" | "253 \<le> uint n" "uint n \<le> 0xffff" | "0xffff < uint n" by linarith
  then show ?thesis
  proof cases
    case 1
    then have "ucast n < (253 :: u8)" by (simp add: word_less_def uint_ucast_small)
    then show ?thesis using 1 max
      by (simp add: WriteCompactSize_cases ReadCompactSize_def u8.decode ucast_ucast_small take_bit_small)
  next
    case 2
    then have "ucast (ucast n :: u16) = n" "\<not> n < 253" by (simp_all add: ucast_ucast_small take_bit_small word_less_def)
    then show ?thesis using 2 max
      by (simp add: WriteCompactSize_cases ReadCompactSize_def u8.decode u16.decode)
  next
    case 3
    then have "ucast (ucast n :: u32) = n" "\<not> n < 0x10000" using n 
      by (simp_all add: ucast_ucast_small take_bit_small word_less_def)
    then show ?thesis using 3 n max
      by (simp add: WriteCompactSize_cases ReadCompactSize_def u8.decode u32.decode)
  qed
qed

lemmas ucast_ucast_u8 = ucast_ucast_up [where 'a = 8 and 'b = 64, simplified]
lemmas ucast_ucast_u16 = ucast_ucast_up [where 'a = 16 and 'b = 64, simplified]
lemmas ucast_ucast_u32 = ucast_ucast_up [where 'a = 32 and 'b = 64, simplified]

lemma ReadCompactSize_canonical:
  assumes "ReadCompactSize s = Inr (n, rest)"
  shows "s = WriteCompactSize n @ rest \<and> n \<le> MAX_SIZE"
proof -
  from assms obtain ch t where ch: "ser_readdata8 s = Inr (ch, t)"
    by (auto simp: ReadCompactSize_def ebind_eq_Inr)
  have max: "\<not> MAX_SIZE < n"
    using assms by (auto simp: ReadCompactSize_def ebind_eq_Inr split: if_splits)
  have s: "s = ser_writedata8 ch @ t" using u8.canonical [OF ch] by simp
  note r = assms [unfolded ReadCompactSize_def ch ebind_simps prod.case]
  have last: "ch = 255" if "\<not> ch < 253" "ch \<noteq> 253" "ch \<noteq> 254"
    using that uint8_bound [of ch] by (simp add: word_uint_eq_iff word_less_def)
  consider "ch < 253" | "ch = 253" | "ch = 254" | "ch = 255" using last by blast
  then have "s = WriteCompactSize n @ rest"
  proof cases
    case 1
    then have n: "n = ucast ch" "rest = t" using r by (auto split: if_splits)
    have "uint (ucast ch :: u64) = uint ch" by (simp add: uint_ucast_up)
    with 1 n s show ?thesis
      by (simp add: WriteCompactSize_cases(1) word_less_def ucast_ucast_small ucast_ucast_u8)
  next
    case 2
    then obtain m where m: "ser_readdata16 t = Inr (m, rest)" "n = ucast m" "\<not> (ucast m :: u64) < 253"
      using r by (auto simp: ebind_eq_Inr split: if_splits)
    have "uint n = uint m" by (simp add: m uint_ucast_up)
    with 2 m s show ?thesis using u16.canonical [OF m(1)] unsigned_less [of m, where 'a = int]
      by (simp add: WriteCompactSize_cases(2) word_less_def ucast_ucast_u16)
  next
    case 3
    then obtain m where m: "ser_readdata32 t = Inr (m, rest)" "n = ucast m" "\<not> (ucast m :: u64) < 0x10000"
      using r by (auto simp: ebind_eq_Inr split: if_splits)
    have "uint n = uint m" by (simp add: m uint_ucast_up)
    with 3 m s show ?thesis using u32.canonical [OF m(1)] unsigned_less [of m, where 'a = int]
      by (simp add: WriteCompactSize_cases(3) word_less_def ucast_ucast_u32)
  next
    case 4
    then have m: "ser_readdata64 t = Inr (n, rest)" "\<not> n < 0x100000000"
      using r by (auto simp: ebind_eq_Inr split: if_splits)
    with 4 s show ?thesis using u64.canonical [OF m(1)]
      by (simp add: WriteCompactSize_cases(4) word_less_def)
  qed
  with max show ?thesis by simp
qed

interpretation compactsize: canonical_codec WriteCompactSize ReadCompactSize "\<lambda>n. n \<le> MAX_SIZE"
  by unfold_locales (simp_all add: ReadCompactSize_WriteCompactSize ReadCompactSize_canonical)


subsection \<open>Vectors\<close>

lemma stream_read_add:
  "ebind (stream_read a s) (\<lambda>(bs, s). ebind (stream_read b s) (\<lambda>(cs, s). Inr (v @ bs @ cs, s))) =
   ebind (stream_read (a + b) s) (\<lambda>(bs, s). Inr (v @ bs, s))"
  by (auto simp: stream_read_def take_add add.commute)

lemma read_blocks_eq:
  "i \<le> nSize \<Longrightarrow> read_blocks nSize i v s = ebind (stream_read (nSize - i) s) (\<lambda>(bs, s). Inr (v @ bs, s))"
proof (induction nSize i v s rule: read_blocks.induct)
  case (1 nSize i v s)
  show ?case
  proof (cases "i < nSize")
    case True
    define blk where "blk = min (nSize - i) (1 + 4999999 div 1)"
    have "read_blocks nSize (i + blk) (v @ bs) =
        (\<lambda>t. ebind (stream_read (nSize - i - blk) t) (\<lambda>(cs, s). Inr (v @ bs @ cs, s)))" for bs
      using 1 True blk_def by (intro ext, cases "nSize - i \<le> 5000000") (simp_all add: min_def)
    then have "read_blocks nSize i v s = ebind (stream_read blk s)
        (\<lambda>(bs, s). ebind (stream_read (nSize - i - blk) s) (\<lambda>(cs, s). Inr (v @ bs @ cs, s)))"
      using True by (subst read_blocks.simps) (simp add: Let_def blk_def)
    moreover have "blk + (nSize - i - blk) = nSize - i" by (simp add: blk_def min_def)
    ultimately show ?thesis by (simp only: stream_read_add)
  next
    case False
    with 1 show ?thesis by (subst read_blocks.simps) (simp add: stream_read_def)
  qed
qed

lemma read_elems_add:
  "read_elems unser (a + b) v s = ebind (read_elems unser a v s) (\<lambda>(v, s). read_elems unser b v s)"
  by (induction a arbitrary: v s) (auto simp: ebind_def split: sum.splits prod.splits)

lemma read_chunks_eq:
  "i \<le> nSize \<Longrightarrow> 0 < 5000000 div szT \<Longrightarrow>
   read_chunks szT unser nSize i v s = read_elems unser (nSize - i) v s"
proof (induction szT unser nSize i v s rule: read_chunks.induct)
  case (1 szT unser nSize i v s)
  show ?case
  proof (cases "i < nSize")
    case True
    define nMid where "nMid = min (i + 5000000 div szT) nSize"
    have "read_chunks szT unser nSize nMid = read_elems unser (nSize - nMid)"
      using 1 True nMid_def by (intro ext) simp
    then have "read_chunks szT unser nSize i v s =
        ebind (read_elems unser (nMid - i) v s) (\<lambda>(v, s). read_elems unser (nSize - nMid) v s)"
      using True 1(3) by (subst read_chunks.simps) (simp add: Let_def nMid_def)
    also have "\<dots> = read_elems unser (nSize - i) v s"
      using True by (simp add: read_elems_add [symmetric] nMid_def)
    finally show ?thesis .
  next
    case False
    with 1 show ?thesis by (subst read_chunks.simps) simp
  qed
qed

lemma length_of_nat:
  "fits_MAX_SIZE xs \<Longrightarrow> (of_nat (length xs) :: u64) \<le> MAX_SIZE \<and> unat (of_nat (length xs) :: u64) = length xs"
proof -
  assume "fits_MAX_SIZE xs"
  then have "length xs < 2 ^ 64" "length xs \<le> 0x10000000" by (simp_all add: fits_MAX_SIZE_def)
  then show ?thesis by (simp add: MAX_SIZE_def word_le_nat_alt unat_of_nat take_bit_nat_eq_self)
qed

lemma unat_le_MAX_SIZE: "n \<le> MAX_SIZE \<Longrightarrow> length xs = unat n \<Longrightarrow> fits_MAX_SIZE xs \<and> of_nat (length xs) = n"
  by (simp add: fits_MAX_SIZE_def MAX_SIZE_def word_le_nat_alt)

interpretation blob: canonical_codec Serialize_bytes Unserialize_bytes fits_MAX_SIZE
proof
  fix v s :: bytes
  assume "fits_MAX_SIZE v"
  then show "Unserialize_bytes (Serialize_bytes v @ s) = Inr (v, s)"
    using length_of_nat [of v]
    by (simp add: Serialize_bytes_def Unserialize_bytes_def compactsize.decode read_blocks_eq)
next
  fix s v rest :: bytes
  assume "Unserialize_bytes s = Inr (v, rest)"
  then obtain n t where n: "ReadCompactSize s = Inr (n, t)" and v: "t = v @ rest" "length v = unat n"
    by (auto simp: Unserialize_bytes_def ebind_eq_Inr read_blocks_eq stream_read_Inr)
  then show "s = Serialize_bytes v @ rest \<and> fits_MAX_SIZE v"
    using compactsize.canonical [OF n] unat_le_MAX_SIZE [of n v] by (simp add: Serialize_bytes_def)
qed

context codec
begin

lemma vector_decode:
  assumes "list_all ok xs" "fits_MAX_SIZE xs" "0 < 5000000 div szT"
  shows "Unserialize_vector szT unser (Serialize_vector ser xs @ s) = Inr (xs, s)"
  using length_of_nat [OF assms(2)] read_elems_decode [OF assms(1), of "[]" s] assms(3)
  by (simp add: Serialize_vector_def Unserialize_vector_def compactsize.decode read_chunks_eq)

end

context canonical_codec
begin

lemma vector_canonical:
  assumes "Unserialize_vector szT unser s = Inr (xs, rest)" "0 < 5000000 div szT"
  shows "s = Serialize_vector ser xs @ rest \<and> list_all ok xs \<and> fits_MAX_SIZE xs"
proof -
  from assms obtain n t where n: "ReadCompactSize s = Inr (n, t)"
    and r: "read_elems unser (unat n) [] t = Inr (xs, rest)"
    by (auto simp: Unserialize_vector_def ebind_eq_Inr read_chunks_eq)
  show ?thesis
    using compactsize.canonical [OF n] read_elems_canonical [OF r] unat_le_MAX_SIZE [of n xs]
    by (auto simp: Serialize_vector_def)
qed

end

section \<open>Properties\<close>

lemma length_ser [simp]:
  "length (ser_writedata8 a) = 1" "length (ser_writedata16 b) = 2"
  "length (ser_writedata32 c) = 4" "length (ser_writedata64 d) = 8"
  by (simp_all add: ser_writedata8_def ser_writedata16_def ser_writedata32_def ser_writedata64_def)

lemma length_WriteCompactSize: "length (WriteCompactSize n) = GetSizeOfCompactSize n"
  by (simp add: WriteCompactSize_def GetSizeOfCompactSize_def)

lemma ReadCompactSize_too_large:
  assumes "MAX_SIZE < n"
  shows "ReadCompactSize (WriteCompactSize n @ s) = Inl CompactSize_too_large"
proof -
  have n: "0x10000000 < uint n" using assms by (simp add: MAX_SIZE_def word_less_def)
  consider "uint n \<le> 0xffffffff" | "0xffffffff < uint n" by linarith
  then show ?thesis
  proof cases
    case 1
    then have "ucast (ucast n :: u32) = n" "\<not> n < 0x10000" using n
      by (simp_all add: ucast_ucast_small take_bit_small word_less_def)
    then show ?thesis using 1 n assms
      by (simp add: WriteCompactSize_cases(3) ReadCompactSize_def u8.decode u32.decode)
  next
    case 2
    then have "\<not> n < 0x100000000" by (simp add: word_less_def)
    then show ?thesis using 2 assms
      by (simp add: WriteCompactSize_cases(4) ReadCompactSize_def u8.decode u64.decode)
  qed
qed

text \<open>A compact size up to MAX_SIZE is read back exactly and in the number of bytes that
  GetSizeOfCompactSize announces; a larger one makes the reader throw; and whatever byte
  sequence the reader accepts is the one the writer produces, so that no size has two
  encodings.\<close>

lemma compact_size_canonical:
  "(n \<le> MAX_SIZE \<longrightarrow> ReadCompactSize (WriteCompactSize n @ s) = Inr (n, s)) \<and>
   (MAX_SIZE < n \<longrightarrow> ReadCompactSize (WriteCompactSize n @ s) = Inl CompactSize_too_large) \<and>
   length (WriteCompactSize n) = GetSizeOfCompactSize n \<and>
   (ReadCompactSize t = Inr (m, rest) \<longrightarrow> t = WriteCompactSize m @ rest \<and> m \<le> MAX_SIZE)"
  by (simp add: ReadCompactSize_WriteCompactSize ReadCompactSize_too_large
      length_WriteCompactSize ReadCompactSize_canonical)

text \<open>C31: A 64-bit variable-length integer is read back exactly, its encoding has the length
  GetSizeOfVarInt announces and fits the ten bytes of the buffer tmp, and the encoding is
  one-to-one: an accepted byte sequence is the one the writer produces.\<close>

theorem varint_one_to_one:
  fixes n :: u64
  shows "ReadVarInt (WriteVarInt n @ s) = Inr (n, s) \<and>
    length (WriteVarInt n) = GetSizeOfVarInt n \<and> GetSizeOfVarInt n \<le> (8 * 8 + 6) div 7 \<and>
    (ReadVarInt t = Inr (m :: u64, rest) \<longrightarrow> t = WriteVarInt m @ rest)"
proof -
  have "uint n < 2 ^ (7 * 10)" using uint64_bound [of n] by simp
  then have "GetSizeOfVarInt n \<le> 10" by (intro GetSizeOfVarInt_bound) simp_all
  then show ?thesis
    using varint64.canonical [of t m rest]
    by (simp add: varint64.decode length_WriteVarInt)
qed

theorem varint_one_to_one_witness:
  "[0x82, 0xfe, 0x7f, 9] = WriteVarInt (65535 :: u64) @ [9]"
proof -
  have "ReadVarInt [0x82, 0xfe, 0x7f, 9] = Inr (65535 :: u64, [9])" by code_simp
  then show ?thesis using varint_one_to_one [of 0 "[]" "[0x82, 0xfe, 0x7f, 9]" 65535 "[9]"] by blast
qed

end
