(* ===== verification/ArithUint256.thy ===== *)
theory ArithUint256
  imports Prelude
begin

text \<open>
  The 256-bit unsigned integers of \<^verbatim>\<open>src/arith_uint256.{h,cpp}\<close>. A \<^verbatim>\<open>base_uint<256>\<close>
  is its array \<^verbatim>\<open>pn\<close> of eight 32-bit limbs, least significant first, and every
  operator is the limb loop of the source. The abstraction \<open>bn\<close> reads the limbs as one
  number; the lemmas show that each loop computes the arithmetic operation modulo
  \<open>2 ^ 256\<close>, that long division is exact division, and that the compact encoding of
  difficulty targets rounds down to three significant bytes.
\<close>

section \<open>The limb representation and its operators\<close>

type_synonym base_uint = "u32 list"

definition WIDTH :: nat where
  "WIDTH = 8"

datatype uint_error = Division_by_zero

definition base_uint_zero :: base_uint where
  "base_uint_zero = replicate WIDTH 0"

definition base_uint_of_u64 :: "u64 \<Rightarrow> base_uint" where
  "base_uint_of_u64 b = [ucast b, ucast (drop_bit 32 b)] @ replicate (WIDTH - 2) 0"

definition op_not :: "base_uint \<Rightarrow> base_uint" where
  "op_not pn = map (\<lambda>w. NOT w) pn"

fun op_inc :: "base_uint \<Rightarrow> base_uint" where
  "op_inc [] = []"
| "op_inc (x # xs) = (let y = x + 1 in if y = 0 then y # op_inc xs else y # xs)"

fun op_dec :: "base_uint \<Rightarrow> base_uint" where
  "op_dec [] = []"
| "op_dec (x # xs) = (let y = x - 1 in if y = 0xffffffff then y # op_dec xs else y # xs)"

definition op_neg :: "base_uint \<Rightarrow> base_uint" where
  "op_neg pn = op_inc (map (\<lambda>w. NOT w) pn)"

definition op_xor :: "base_uint \<Rightarrow> base_uint \<Rightarrow> base_uint" where
  "op_xor a b = map2 (\<lambda>x y. x XOR y) a b"

definition op_and :: "base_uint \<Rightarrow> base_uint \<Rightarrow> base_uint" where
  "op_and a b = map2 (\<lambda>x y. x AND y) a b"

definition op_or :: "base_uint \<Rightarrow> base_uint \<Rightarrow> base_uint" where
  "op_or a b = map2 (\<lambda>x y. x OR y) a b"

definition shl_body :: "base_uint \<Rightarrow> nat \<Rightarrow> nat \<Rightarrow> nat \<Rightarrow> base_uint \<Rightarrow> base_uint" where
  "shl_body a k shift i pn =
     (let pn = (if i + k + 1 < WIDTH \<and> shift \<noteq> 0
                then pn[i + k + 1 := pn ! (i + k + 1) OR drop_bit (32 - shift) (a ! i)]
                else pn)
      in if i + k < WIDTH
         then pn[i + k := pn ! (i + k) OR push_bit shift (a ! i)]
         else pn)"

definition op_shl :: "base_uint \<Rightarrow> nat \<Rightarrow> base_uint" where
  "op_shl a shift =
     fold (shl_body a (shift div 32) (shift mod 32)) [0..<WIDTH] base_uint_zero"

definition shr_body :: "base_uint \<Rightarrow> nat \<Rightarrow> nat \<Rightarrow> nat \<Rightarrow> base_uint \<Rightarrow> base_uint" where
  "shr_body a k shift i pn =
     (let pn = (if k + 1 \<le> i \<and> shift \<noteq> 0
                then pn[i - k - 1 := pn ! (i - k - 1) OR push_bit (32 - shift) (a ! i)]
                else pn)
      in if k \<le> i
         then pn[i - k := pn ! (i - k) OR drop_bit shift (a ! i)]
         else pn)"

definition op_shr :: "base_uint \<Rightarrow> nat \<Rightarrow> base_uint" where
  "op_shr a shift =
     fold (shr_body a (shift div 32) (shift mod 32)) [0..<WIDTH] base_uint_zero"

fun add_loop :: "u64 \<Rightarrow> u32 list \<Rightarrow> u32 list \<Rightarrow> u32 list" where
  "add_loop carry (x # xs) (y # ys) =
     (let n = carry + ucast x + ucast y
      in ucast (n AND 0xffffffff) # add_loop (drop_bit 32 n) xs ys)"
| "add_loop carry _ _ = []"

definition op_add :: "base_uint \<Rightarrow> base_uint \<Rightarrow> base_uint" where
  "op_add a b = add_loop 0 a b"

definition op_sub :: "base_uint \<Rightarrow> base_uint \<Rightarrow> base_uint" where
  "op_sub a b = op_add a (op_neg b)"

fun mul32_loop :: "u64 \<Rightarrow> u32 \<Rightarrow> u32 list \<Rightarrow> u32 list" where
  "mul32_loop carry b32 [] = []"
| "mul32_loop carry b32 (x # xs) =
     (let n = carry + ucast b32 * ucast x
      in ucast (n AND 0xffffffff) # mul32_loop (drop_bit 32 n) b32 xs)"

definition op_mul32 :: "base_uint \<Rightarrow> u32 \<Rightarrow> base_uint" where
  "op_mul32 a b32 = mul32_loop 0 b32 a"

text \<open>
  The inner loop of the product: \<open>xs\<close> are the limbs \<^verbatim>\<open>a.pn[j..]\<close> of the accumulator,
  \<open>ys\<close> the limbs of \<^verbatim>\<open>b\<close>; it ends when \<^verbatim>\<open>i + j\<close> reaches the width.
\<close>

fun mul_row :: "u64 \<Rightarrow> u32 \<Rightarrow> u32 list \<Rightarrow> u32 list \<Rightarrow> u32 list" where
  "mul_row carry p (x # xs) (y # ys) =
     (let n = carry + ucast x + ucast p * ucast y
      in ucast (n AND 0xffffffff) # mul_row (drop_bit 32 n) p xs ys)"
| "mul_row carry p _ _ = []"

definition op_mul :: "base_uint \<Rightarrow> base_uint \<Rightarrow> base_uint" where
  "op_mul pn b =
     fold (\<lambda>j a. take j a @ mul_row 0 (pn ! j) (drop j a) b) [0..<WIDTH] base_uint_zero"

fun cmp_loop :: "u32 list \<Rightarrow> u32 list \<Rightarrow> int" where
  "cmp_loop (x # xs) (y # ys) =
     (if x < y then -1 else if x > y then 1 else cmp_loop xs ys)"
| "cmp_loop _ _ = 0"

definition CompareTo :: "base_uint \<Rightarrow> base_uint \<Rightarrow> int" where
  "CompareTo a b = cmp_loop (rev a) (rev b)"

definition EqualTo :: "base_uint \<Rightarrow> u64 \<Rightarrow> bool" where
  "EqualTo pn b =
     (if \<exists>w \<in> set (drop 2 pn). w \<noteq> 0 then False
      else if ucast (pn ! 1) \<noteq> drop_bit 32 b then False
      else if ucast (pn ! 0) \<noteq> b AND 0xffffffff then False
      else True)"

abbreviation op_gt :: "base_uint \<Rightarrow> base_uint \<Rightarrow> bool" where
  "op_gt a b \<equiv> CompareTo a b > 0"

abbreviation op_lt :: "base_uint \<Rightarrow> base_uint \<Rightarrow> bool" where
  "op_lt a b \<equiv> CompareTo a b < 0"

abbreviation op_ge :: "base_uint \<Rightarrow> base_uint \<Rightarrow> bool" where
  "op_ge a b \<equiv> CompareTo a b \<ge> 0"

abbreviation op_le :: "base_uint \<Rightarrow> base_uint \<Rightarrow> bool" where
  "op_le a b \<equiv> CompareTo a b \<le> 0"

fun nbits_loop :: "u32 \<Rightarrow> nat \<Rightarrow> nat" where
  "nbits_loop w 0 = 1"
| "nbits_loop w (Suc n) =
     (if w AND push_bit (Suc n) 1 \<noteq> 0 then Suc n + 1 else nbits_loop w n)"

fun bits_loop :: "u32 list \<Rightarrow> nat" where
  "bits_loop [] = 0"
| "bits_loop (w # ws) =
     (if w \<noteq> 0 then 32 * length ws + nbits_loop w 31 else bits_loop ws)"

definition bits :: "base_uint \<Rightarrow> nat" where
  "bits pn = bits_loop (rev pn)"

definition GetLow64 :: "base_uint \<Rightarrow> u64" where
  "GetLow64 pn = ucast (pn ! 0) OR push_bit 32 (ucast (pn ! 1))"

text \<open>
  The division loop, entered with \<open>n = shift + 1\<close>: it returns the quotient and the
  remainder that \<^verbatim>\<open>num\<close> holds at the end.
\<close>

fun div_loop :: "nat \<Rightarrow> base_uint \<Rightarrow> base_uint \<Rightarrow> base_uint \<Rightarrow> base_uint \<times> base_uint" where
  "div_loop 0 num dv q = (q, num)"
| "div_loop (Suc shift) num dv q =
     (if op_ge num dv
      then div_loop shift (op_sub num dv) (op_shr dv 1)
             (q[shift div 32 := q ! (shift div 32) OR push_bit (shift mod 32) 1])
      else div_loop shift num (op_shr dv 1) q)"

definition op_div :: "base_uint \<Rightarrow> base_uint \<Rightarrow> uint_error + base_uint" where
  "op_div a b =
     (let num_bits = bits a; div_bits = bits b
      in if div_bits = 0 then Inl Division_by_zero
         else if div_bits > num_bits then Inr base_uint_zero
         else (let shift = num_bits - div_bits
               in Inr (fst (div_loop (Suc shift) a (op_shl b shift) base_uint_zero))))"

text \<open>
  \<^verbatim>\<open>SetCompact\<close> returns the number and the two flags that the source writes through its
  optional pointers. In \<^verbatim>\<open>GetCompact\<close> a failed \<^verbatim>\<open>assert\<close> is \<open>None\<close>.
\<close>

definition SetCompact :: "u32 \<Rightarrow> base_uint \<times> bool \<times> bool" where
  "SetCompact nCompact =
     (let nSize = unat (drop_bit 24 nCompact);
          nWord = nCompact AND 0x007fffff;
          (this, nWord) =
            (if nSize \<le> 3
             then (let nWord = drop_bit (8 * (3 - nSize)) nWord
                   in (base_uint_of_u64 (ucast nWord), nWord))
             else (op_shl (base_uint_of_u64 (ucast nWord)) (8 * (nSize - 3)), nWord));
          fNegative = (nWord \<noteq> 0 \<and> nCompact AND 0x00800000 \<noteq> 0);
          fOverflow = (nWord \<noteq> 0 \<and>
            (nSize > 34 \<or> (nWord > 0xff \<and> nSize > 33) \<or> (nWord > 0xffff \<and> nSize > 32)))
      in (this, fNegative, fOverflow))"

definition GetCompact :: "base_uint \<Rightarrow> bool \<Rightarrow> u32 option" where
  "GetCompact pn fNegative =
     (let nSize = (bits pn + 7) div 8;
          nCompact =
            (if nSize \<le> 3
             then ucast (push_bit (8 * (3 - nSize)) (GetLow64 pn))
             else ucast (GetLow64 (op_shr pn (8 * (nSize - 3)))));
          (nCompact, nSize) =
            (if nCompact AND 0x00800000 \<noteq> 0 then (drop_bit 8 nCompact, nSize + 1)
             else (nCompact, nSize))
      in if nCompact AND NOT 0x007fffff \<noteq> 0 then None
         else if \<not> nSize < 256 then None
         else (let nCompact = nCompact OR push_bit 24 (word_of_nat nSize)
               in Some (nCompact OR
                   (if fNegative \<and> nCompact AND 0x007fffff \<noteq> 0 then 0x00800000 else 0))))"

definition WriteLE32 :: "u32 \<Rightarrow> bytes" where
  "WriteLE32 x = [ucast x, ucast (drop_bit 8 x), ucast (drop_bit 16 x), ucast (drop_bit 24 x)]"

definition ReadLE32 :: "bytes \<Rightarrow> u32" where
  "ReadLE32 ptr = ucast (ptr ! 0) OR push_bit 8 (ucast (ptr ! 1)) OR
     push_bit 16 (ucast (ptr ! 2)) OR push_bit 24 (ucast (ptr ! 3))"

definition ArithToUint256 :: "base_uint \<Rightarrow> bytes" where
  "ArithToUint256 a = concat (map WriteLE32 a)"

definition UintToArith256 :: "bytes \<Rightarrow> base_uint" where
  "UintToArith256 a = map (\<lambda>x. ReadLE32 (drop (x * 4) a)) [0..<WIDTH]"

section \<open>The number a limb array stands for\<close>

primrec bn :: "u32 list \<Rightarrow> int" where
  "bn [] = 0"
| "bn (x # xs) = uint x + 2 ^ 32 * bn xs"

definition wf_uint :: "base_uint \<Rightarrow> bool" where
  "wf_uint pn \<longleftrightarrow> length pn = WIDTH"

lemma bn_concat: "bn (x # xs) = concat_bit 32 (uint x) (bn xs)"
  using uint32_bound [of x] by (simp add: concat_bit_eq push_bit_eq_mult take_bit_eq_mod)

lemma bit_bn: "bit (bn xs) n \<longleftrightarrow> n div 32 < length xs \<and> bit (xs ! (n div 32)) (n mod 32)"
proof (induction xs arbitrary: n)
  case Nil
  then show ?case by simp
next
  case (Cons x xs)
  show ?case
  proof (cases "n < 32")
    case True
    then show ?thesis by (simp add: bn_concat bit_concat_bit_iff bit_uint_iff del: bn.simps)
  next
    case False
    then have "n div 32 = Suc ((n - 32) div 32)" and "n mod 32 = (n - 32) mod 32"
      by (simp_all add: le_div_geq le_mod_geq)
    with False Cons.IH [of "n - 32"] show ?thesis
      by (simp add: bn_concat bit_concat_bit_iff del: bn.simps)
  qed
qed

lemma bn_nonneg [simp]: "0 \<le> bn xs"
  by (induction xs) (simp_all add: uint32_bound)

lemma bn_append: "bn (xs @ ys) = bn xs + 2 ^ (32 * length xs) * bn ys"
  by (induction xs) (simp_all add: power_add algebra_simps)

lemma bn_less: "bn xs < 2 ^ (32 * length xs)"
proof (induction xs)
  case (Cons x xs)
  have "bn xs + 1 \<le> 2 ^ (32 * length xs)" using Cons.IH by simp
  then have "2 ^ 32 * (bn xs + 1) \<le> 2 ^ 32 * 2 ^ (32 * length xs)" by simp
  with uint32_bound [of x] show ?case by (simp add: power_add algebra_simps)
qed simp

lemma bn_replicate_0 [simp]: "bn (replicate n 0) = 0"
  by (induction n) simp_all

lemma bn_eq_iff: "length xs = length ys \<Longrightarrow> bn xs = bn ys \<longleftrightarrow> xs = ys"
proof (induction xs ys rule: list_induct2)
  case (Cons x xs y ys)
  show ?case
  proof
    assume eq: "bn (x # xs) = bn (y # ys)"
    then have "(uint x + 2 ^ 32 * bn xs) mod 2 ^ 32 = (uint y + 2 ^ 32 * bn ys) mod 2 ^ 32"
      by simp
    then have "uint x = uint y"
      using uint32_bound [of x] uint32_bound [of y] by simp
    with eq Cons.IH show "x # xs = y # ys" by (simp add: word_uint_eq_iff)
  qed simp
qed simp


section \<open>Each operator computes the arithmetic operation modulo the width\<close>

subsection \<open>Complement, increment, decrement and negation\<close>

lemma length_op_inc [simp]: "length (op_inc xs) = length xs"
  by (induction xs) (simp_all add: Let_def)

lemma length_op_dec [simp]: "length (op_dec xs) = length xs"
  by (induction xs) (simp_all add: Let_def)

lemma uint_not32: "uint (NOT (x :: u32)) = 2 ^ 32 - 1 - uint x"
proof -
  have "uint (NOT x) = (- uint x - 1) mod 2 ^ 32"
    by (simp add: unsigned_not_eq take_bit_eq_mod not_int_def)
  also have "- uint x - 1 = (2 ^ 32 - 1 - uint x) + - 1 * 2 ^ 32" by simp
  also have "\<dots> mod 2 ^ 32 = (2 ^ 32 - 1 - uint x) mod 2 ^ 32" by (rule mod_mult_self1)
  also have "\<dots> = 2 ^ 32 - 1 - uint x"
    using uint32_bound [of x] by (intro mod_pos_pos_trivial) linarith+
  finally show ?thesis .
qed

lemma bn_not: "bn (map (\<lambda>w. NOT w) xs) = 2 ^ (32 * length xs) - 1 - bn xs"
  by (induction xs) (simp_all add: uint_not32 power_add algebra_simps)

lemma uint32_eq_top: "uint (x :: u32) = 2 ^ 32 - 1 \<longleftrightarrow> x + 1 = 0"
proof -
  have "x + 1 = 0 \<longleftrightarrow> x = - 1" by (simp add: eq_neg_iff_add_eq_0)
  also have "\<dots> \<longleftrightarrow> uint x = uint (- 1 :: u32)" by (simp add: word_uint_eq_iff)
  finally show ?thesis by (simp add: unsigned_minus_1_eq_mask mask_eq_exp_minus_1)
qed

lemma uint32_eq_bot: "uint (x :: u32) = 0 \<longleftrightarrow> x - 1 = 0xffffffff"
proof -
  have "x - 1 = 0xffffffff \<longleftrightarrow> x = 0xffffffff + 1" by (rule diff_eq_eq)
  then show ?thesis by (simp add: word_uint_eq_iff)
qed

lemma bn_op_inc: "bn (op_inc xs) = (bn xs + 1) mod 2 ^ (32 * length xs)"
proof (induction xs)
  case (Cons x xs)
  have "bn (op_inc (x # xs)) =
      (uint x + 1) mod 2 ^ 32 + 2 ^ 32 * ((bn xs + (uint x + 1) div 2 ^ 32) mod 2 ^ (32 * length xs))"
  proof (cases "x + 1 = 0")
    case True
    then have "uint x = 2 ^ 32 - 1" using uint32_eq_top by blast
    with True Cons.IH show ?thesis by simp
  next
    case False
    then have "uint x \<noteq> 2 ^ 32 - 1" using uint32_eq_top by blast
    then have "uint x + 1 < 2 ^ 32" using uint32_bound [of x] by simp
    moreover from this have "uint (x + 1) = uint x + 1"
      using uint32_bound [of x] by (simp add: uint_word_ariths)
    ultimately show ?thesis using False bn_less [of xs] uint32_bound [of x] by simp
  qed
  also have "\<dots> = (uint x + 1 + 2 ^ 32 * bn xs) mod (2 ^ 32 * 2 ^ (32 * length xs))"
    by (rule limb_step) simp
  finally show ?case by (simp add: power_add algebra_simps)
qed simp

lemma bn_op_dec: "bn (op_dec xs) = (bn xs - 1) mod 2 ^ (32 * length xs)"
proof (induction xs)
  case (Cons x xs)
  have "bn (op_dec (x # xs)) =
      (uint x - 1) mod 2 ^ 32 + 2 ^ 32 * ((bn xs + (uint x - 1) div 2 ^ 32) mod 2 ^ (32 * length xs))"
  proof (cases "x - 1 = 0xffffffff")
    case True
    then have "uint x = 0" by (simp add: uint32_eq_bot)
    with True Cons.IH show ?thesis by simp
  next
    case False
    then have "uint x \<noteq> 0" by (simp add: uint32_eq_bot)
    then have "0 \<le> uint x - 1" using uint32_bound [of x] by linarith
    moreover from this have "uint (x - 1) = uint x - 1"
      using uint32_bound [of x] by (simp add: uint_word_ariths)
    ultimately show ?thesis using False bn_less [of xs] uint32_bound [of x] by simp
  qed
  also have "\<dots> = (uint x - 1 + 2 ^ 32 * bn xs) mod (2 ^ 32 * 2 ^ (32 * length xs))"
    by (rule limb_step) simp
  finally show ?case by (simp add: power_add algebra_simps)
qed simp

lemma bn_op_neg: "bn (op_neg xs) = (- bn xs) mod 2 ^ (32 * length xs)"
proof -
  have "bn (op_neg xs) = (2 ^ (32 * length xs) - bn xs) mod 2 ^ (32 * length xs)"
    by (simp add: op_neg_def bn_op_inc bn_not)
  then show ?thesis by (simp add: mod_diff_left_eq [symmetric])
qed

subsection \<open>Addition, subtraction and multiplication\<close>

lemma length_add_loop [simp]: "length (add_loop c xs ys) = min (length xs) (length ys)"
  by (induction c xs ys rule: add_loop.induct) (simp_all add: Let_def)

lemma length_mul32_loop [simp]: "length (mul32_loop c b xs) = length xs"
  by (induction c b xs rule: mul32_loop.induct) (simp_all add: Let_def)

lemma length_mul_row [simp]: "length (mul_row c p xs ys) = min (length xs) (length ys)"
  by (induction c p xs ys rule: mul_row.induct) (simp_all add: Let_def)

lemma bn_add_loop:
  "length xs = length ys \<Longrightarrow> uint carry \<le> 1 \<Longrightarrow>
     bn (add_loop carry xs ys) = (bn xs + bn ys + uint carry) mod 2 ^ (32 * length xs)"
proof (induction carry xs ys rule: add_loop.induct)
  case (1 carry x xs y ys)
  define n where "n = carry + ucast x + (ucast y :: u64)"
  have n: "uint n = uint carry + uint x + uint y"
    using "1.prems" uint32_bound [of x] uint32_bound [of y]
    by (simp add: n_def uint_word_ariths)
  then have c: "uint (drop_bit 32 n) \<le> 1"
    using "1.prems" uint32_bound [of x] uint32_bound [of y] by (simp only: high32) simp
  have "bn (add_loop carry (x # xs) (y # ys)) =
      uint n mod 2 ^ 32 + 2 ^ 32 * ((bn xs + bn ys + uint n div 2 ^ 32) mod 2 ^ (32 * length xs))"
    using "1.IH" [OF n_def] "1.prems" c
    by (simp only: add_loop.simps Let_def n_def [symmetric] bn.simps low32 high32 list.size) simp
  also have "\<dots> = (uint n + 2 ^ 32 * (bn xs + bn ys)) mod (2 ^ 32 * 2 ^ (32 * length xs))"
    by (rule limb_step) simp
  finally show ?case
    by (simp add: n power_add algebra_simps)
qed simp_all

lemma uint_mul_add:
  fixes x y p :: u32 and c :: u64
  assumes "uint c < 2 ^ 32"
  shows "uint (c + ucast x + ucast p * ucast y) = uint c + uint x + uint p * uint y"
    and "(uint c + uint x + uint p * uint y) div 2 ^ 32 < 2 ^ 32"
proof -
  have "uint p * uint y \<le> (2 ^ 32 - 1) * (2 ^ 32 - 1)"
    using uint32_bound [of p] uint32_bound [of y] by (intro mult_mono) auto
  then have b: "uint c + uint x + uint p * uint y < 2 ^ 64"
    using assms uint32_bound [of x] by simp
  have "uint p * uint y < 2 ^ 64" and "0 \<le> uint p * uint y"
    using \<open>uint p * uint y \<le> _\<close> uint32_bound [of p] uint32_bound [of y] by simp_all
  then show "uint (c + ucast x + ucast p * ucast y) = uint c + uint x + uint p * uint y"
    using b assms uint32_bound [of x] by (simp add: uint_word_ariths)
  show "(uint c + uint x + uint p * uint y) div 2 ^ 32 < 2 ^ 32"
    using b by simp
qed

lemma bn_mul_row:
  "length xs \<le> length ys \<Longrightarrow> uint carry < 2 ^ 32 \<Longrightarrow>
     bn (mul_row carry p xs ys) = (bn xs + uint p * bn ys + uint carry) mod 2 ^ (32 * length xs)"
proof (induction carry p xs ys rule: mul_row.induct)
  case (1 carry p x xs y ys)
  define n where "n = carry + ucast x + (ucast p * ucast y :: u64)"
  have n: "uint n = uint carry + uint x + uint p * uint y"
    and c: "uint (drop_bit 32 n) < 2 ^ 32"
    using uint_mul_add [OF "1.prems"(2)] by (simp_all only: n_def high32)
  have "bn (mul_row carry p (x # xs) (y # ys)) =
      uint n mod 2 ^ 32 +
      2 ^ 32 * ((bn xs + uint p * bn ys + uint n div 2 ^ 32) mod 2 ^ (32 * length xs))"
    using "1.IH" [OF n_def] "1.prems" c
    by (simp only: mul_row.simps Let_def n_def [symmetric] bn.simps low32 high32 list.size Suc_le_mono)
  also have "\<dots> = (uint n + 2 ^ 32 * (bn xs + uint p * bn ys)) mod (2 ^ 32 * 2 ^ (32 * length xs))"
    by (rule limb_step) simp
  finally show ?case
    by (simp add: n power_add algebra_simps)
qed simp_all

lemma bn_mul32_loop:
  "uint carry < 2 ^ 32 \<Longrightarrow>
     bn (mul32_loop carry b xs) = (bn xs * uint b + uint carry) mod 2 ^ (32 * length xs)"
proof (induction carry b xs rule: mul32_loop.induct)
  case (2 carry b x xs)
  define n where "n = carry + (ucast b * ucast x :: u64)"
  have n: "uint n = uint carry + uint b * uint x" and c: "uint (drop_bit 32 n) < 2 ^ 32"
    using uint_mul_add [OF "2.prems", of 0 b x] by (simp_all add: n_def high32)
  have "bn (mul32_loop carry b (x # xs)) =
      uint n mod 2 ^ 32 +
      2 ^ 32 * ((bn xs * uint b + uint n div 2 ^ 32) mod 2 ^ (32 * length xs))"
    using "2.IH" [OF n_def] c
    by (simp only: mul32_loop.simps Let_def n_def [symmetric] bn.simps low32 high32)
  also have "\<dots> = (uint n + 2 ^ 32 * (bn xs * uint b)) mod (2 ^ 32 * 2 ^ (32 * length xs))"
    by (rule limb_step) simp
  finally show ?case
    by (simp add: n power_add algebra_simps)
qed simp


subsection \<open>Shifts\<close>

lemma length_fold_update:
  "(\<And>i pn. length (f i pn) = length pn) \<Longrightarrow> length (fold f is pn) = length pn"
  by (induction "is" arbitrary: pn) simp_all

lemma length_shl_body [simp]: "length (shl_body a k s i pn) = length pn"
  by (simp add: shl_body_def Let_def)

lemma length_op_shl [simp]: "length (op_shl a s) = WIDTH"
  by (simp add: op_shl_def length_fold_update base_uint_zero_def)

lemma length_shr_body [simp]: "length (shr_body a k s i pn) = length pn"
  by (simp add: shr_body_def Let_def)

lemma length_op_shr [simp]: "length (op_shr a s) = WIDTH"
  by (simp add: op_shr_def length_fold_update base_uint_zero_def)

lemma shl_body_nth:
  assumes "length pn = WIDTH" "m < WIDTH"
  shows "shl_body a k s i pn ! m =
     (if m = i + k then pn ! m OR push_bit s (a ! i)
      else if m = i + k + 1 \<and> s \<noteq> 0 then pn ! m OR drop_bit (32 - s) (a ! i)
      else pn ! m)"
  using assms by (auto simp: shl_body_def Let_def nth_list_update)

lemma shr_body_nth:
  assumes "length pn = WIDTH" "m < WIDTH"
  shows "shr_body a k s i pn ! m =
     (if i = m + k then pn ! m OR drop_bit s (a ! i)
      else if i = m + k + 1 \<and> s \<noteq> 0 then pn ! m OR push_bit (32 - s) (a ! i)
      else pn ! m)"
  using assms by (auto simp: shr_body_def Let_def nth_list_update)

lemma shl_limb:
  assumes "n \<le> WIDTH" "m < WIDTH"
  shows "fold (shl_body a k s) [0..<n] base_uint_zero ! m =
     (if k \<le> m \<and> m - k < n then push_bit s (a ! (m - k)) else 0) OR
     (if s \<noteq> 0 \<and> k + 1 \<le> m \<and> m - k - 1 < n then drop_bit (32 - s) (a ! (m - k - 1)) else 0)"
  using assms(1)
proof (induction n)
  case 0
  with assms show ?case by (simp add: base_uint_zero_def)
next
  case (Suc n)
  have "length (fold (shl_body a k s) [0..<n] base_uint_zero) = WIDTH"
    by (simp add: length_fold_update base_uint_zero_def)
  note step = shl_body_nth [OF this assms(2), of a k s n]
  consider "m = n + k" | "m = n + k + 1" | "m \<noteq> n + k" "m \<noteq> n + k + 1" by blast
  then show ?case
  proof cases
    case 3
    then have "(k \<le> m \<and> m - k < Suc n) = (k \<le> m \<and> m - k < n)"
      and "(k + 1 \<le> m \<and> m - k - 1 < Suc n) = (k + 1 \<le> m \<and> m - k - 1 < n)" by auto
    with 3 Suc step show ?thesis by simp
  qed (use Suc step in \<open>cases \<open>s = 0\<close>; simp add: or.commute\<close>)+
qed

lemma shr_limb:
  assumes "n \<le> WIDTH" "m < WIDTH"
  shows "fold (shr_body a k s) [0..<n] base_uint_zero ! m =
     (if m + k < n then drop_bit s (a ! (m + k)) else 0) OR
     (if s \<noteq> 0 \<and> m + k + 1 < n then push_bit (32 - s) (a ! (m + k + 1)) else 0)"
  using assms(1)
proof (induction n)
  case 0
  with assms show ?case by (simp add: base_uint_zero_def)
next
  case (Suc n)
  have "length (fold (shr_body a k s) [0..<n] base_uint_zero) = WIDTH"
    by (simp add: length_fold_update base_uint_zero_def)
  note step = shr_body_nth [OF this assms(2), of a k s n]
  consider "n = m + k" | "n = m + k + 1" | "n \<noteq> m + k" "n \<noteq> m + k + 1" by blast
  then show ?case
  proof cases
    case 3
    then have "(m + k < Suc n) = (m + k < n)" and "(m + k + 1 < Suc n) = (m + k + 1 < n)"
      by auto
    with 3 Suc step show ?thesis by simp
  qed (use Suc step in \<open>cases \<open>s = 0\<close>; simp\<close>)+
qed

text \<open>Limb and bit positions after a shift by \<open>32 * k + s\<close>.\<close>

lemma divmod32:
  fixes x r q :: nat
  assumes "x = r + 32 * q" "r < 32"
  shows "x div 32 = q" and "x mod 32 = r"
  using assms by simp_all

lemma shift_down_pos:
  fixes m k s b :: nat
  assumes "b < 32" "s < 32"
  shows "s \<le> b \<Longrightarrow> 32 * k + s \<le> 32 * m + b \<longleftrightarrow> k \<le> m"
    and "\<not> s \<le> b \<Longrightarrow> 32 * k + s \<le> 32 * m + b \<longleftrightarrow> k + 1 \<le> m"
    and "s \<le> b \<Longrightarrow> k \<le> m \<Longrightarrow> (32 * m + b - (32 * k + s)) div 32 = m - k"
    and "s \<le> b \<Longrightarrow> k \<le> m \<Longrightarrow> (32 * m + b - (32 * k + s)) mod 32 = b - s"
    and "\<not> s \<le> b \<Longrightarrow> k + 1 \<le> m \<Longrightarrow> (32 * m + b - (32 * k + s)) div 32 = m - k - 1"
    and "\<not> s \<le> b \<Longrightarrow> k + 1 \<le> m \<Longrightarrow> (32 * m + b - (32 * k + s)) mod 32 = b + 32 - s"
proof -
  show "s \<le> b \<Longrightarrow> 32 * k + s \<le> 32 * m + b \<longleftrightarrow> k \<le> m"
    and "\<not> s \<le> b \<Longrightarrow> 32 * k + s \<le> 32 * m + b \<longleftrightarrow> k + 1 \<le> m"
    using assms by auto
  show "(32 * m + b - (32 * k + s)) div 32 = m - k"
    and "(32 * m + b - (32 * k + s)) mod 32 = b - s" if "s \<le> b" "k \<le> m"
  proof -
    have "32 * m + b - (32 * k + s) = (b - s) + 32 * (m - k)"
      using that by (simp add: algebra_simps)
    moreover have "b - s < 32" using assms by simp
    ultimately show "(32 * m + b - (32 * k + s)) div 32 = m - k"
      and "(32 * m + b - (32 * k + s)) mod 32 = b - s"
      by (rule divmod32)+
  qed
  show "(32 * m + b - (32 * k + s)) div 32 = m - k - 1"
    and "(32 * m + b - (32 * k + s)) mod 32 = b + 32 - s" if "\<not> s \<le> b" "k + 1 \<le> m"
  proof -
    from that(2) obtain j where "m = k + 1 + j" using le_Suc_ex by blast
    with that assms have "32 * m + b - (32 * k + s) = (b + 32 - s) + 32 * (m - k - 1)" by simp
    moreover have "b + 32 - s < 32" using assms that by simp
    ultimately show "(32 * m + b - (32 * k + s)) div 32 = m - k - 1"
      and "(32 * m + b - (32 * k + s)) mod 32 = b + 32 - s"
      by (rule divmod32)+
  qed
qed

lemma shift_up_pos:
  fixes m k s b :: nat
  assumes "b < 32" "s < 32"
  shows "b + s < 32 \<Longrightarrow> (32 * m + b + (32 * k + s)) div 32 = m + k"
    and "b + s < 32 \<Longrightarrow> (32 * m + b + (32 * k + s)) mod 32 = b + s"
    and "\<not> b + s < 32 \<Longrightarrow> (32 * m + b + (32 * k + s)) div 32 = m + k + 1"
    and "\<not> b + s < 32 \<Longrightarrow> (32 * m + b + (32 * k + s)) mod 32 = b + s - 32"
proof -
  have lo: "32 * m + b + (32 * k + s) = (b + s) + 32 * (m + k)" by simp
  show "b + s < 32 \<Longrightarrow> (32 * m + b + (32 * k + s)) div 32 = m + k"
    and "b + s < 32 \<Longrightarrow> (32 * m + b + (32 * k + s)) mod 32 = b + s"
    by (rule divmod32 [OF lo], assumption)+
  show "(32 * m + b + (32 * k + s)) div 32 = m + k + 1"
    and "(32 * m + b + (32 * k + s)) mod 32 = b + s - 32" if "\<not> b + s < 32"
  proof -
    have "32 * m + b + (32 * k + s) = (b + s - 32) + 32 * (m + k + 1)" using that by simp
    moreover have "b + s - 32 < 32" using assms by linarith
    ultimately show "(32 * m + b + (32 * k + s)) div 32 = m + k + 1"
      and "(32 * m + b + (32 * k + s)) mod 32 = b + s - 32"
      by (rule divmod32)+
  qed
qed

lemma bit32_beyond [simp]: "32 \<le> n \<Longrightarrow> \<not> bit (w :: u32) n"
  using bit_imp_le_length [of w n] by auto

lemma bn_op_shl:
  assumes "length a = WIDTH"
  shows "bn (op_shl a shift) = (bn a * 2 ^ shift) mod 2 ^ 256"
proof -
  have "bn (op_shl a shift) = take_bit 256 (push_bit shift (bn a))"
  proof (rule bit_eqI)
    fix n
    define m k s b where "m = n div 32" and "k = shift div 32"
      and "s = shift mod 32" and "b = n mod (32 :: nat)"
    have n: "n = 32 * m + b" and sh: "shift = 32 * k + s" and lt: "b < 32" "s < 32"
      by (simp_all add: m_def b_def k_def s_def)
    have L: "bit (bn (op_shl a shift)) n \<longleftrightarrow> m < WIDTH \<and> bit (op_shl a shift ! m) b"
      by (simp add: bit_bn m_def b_def)
    have R: "bit (take_bit 256 (push_bit shift (bn a))) n \<longleftrightarrow>
        m < WIDTH \<and> shift \<le> n \<and> bit (a ! ((n - shift) div 32)) ((n - shift) mod 32)"
      using assms lt by (auto simp: n bit_take_bit_iff bit_push_bit_iff bit_bn WIDTH_def)
    have l: "m < WIDTH \<Longrightarrow> op_shl a shift ! m =
        (if k \<le> m then push_bit s (a ! (m - k)) else 0) OR
        (if s \<noteq> 0 \<and> k + 1 \<le> m then drop_bit (32 - s) (a ! (m - k - 1)) else 0)"
      using shl_limb [of WIDTH m a k s] by (auto simp: op_shl_def k_def s_def)
    show "bit (bn (op_shl a shift)) n = bit (take_bit 256 (push_bit shift (bn a))) n"
    proof (cases "s \<le> b")
      case True
      have "shift \<le> n \<longleftrightarrow> k \<le> m"
        and "k \<le> m \<Longrightarrow> (n - shift) div 32 = m - k" and "k \<le> m \<Longrightarrow> (n - shift) mod 32 = b - s"
        using shift_down_pos(1,3,4) [OF lt True, of k m] by (simp_all only: n sh)
      with True lt show ?thesis
        unfolding L R by (auto simp: l bit_simps split: if_splits)
    next
      case False
      have "shift \<le> n \<longleftrightarrow> k + 1 \<le> m"
        and "k + 1 \<le> m \<Longrightarrow> (n - shift) div 32 = m - k - 1"
        and "k + 1 \<le> m \<Longrightarrow> (n - shift) mod 32 = b + 32 - s"
        using shift_down_pos(2,5,6) [OF lt False, of k m] by (simp_all only: n sh)
      with False lt show ?thesis
        unfolding L R by (cases "m < WIDTH"; cases "k + 1 \<le> m") (simp_all add: l bit_simps add.commute)
    qed
  qed
  then show ?thesis by (simp add: take_bit_eq_mod push_bit_eq_mult)
qed

lemma bn_op_shr:
  assumes "length a = WIDTH"
  shows "bn (op_shr a shift) = bn a div 2 ^ shift"
proof -
  have "bn (op_shr a shift) = drop_bit shift (bn a)"
  proof (rule bit_eqI)
    fix n
    define m k s b where "m = n div 32" and "k = shift div 32"
      and "s = shift mod 32" and "b = n mod (32 :: nat)"
    have n: "n = 32 * m + b" and sh: "shift = 32 * k + s" and lt: "b < 32" "s < 32"
      by (simp_all add: m_def b_def k_def s_def)
    have L: "bit (bn (op_shr a shift)) n \<longleftrightarrow> m < WIDTH \<and> bit (op_shr a shift ! m) b"
      by (simp add: bit_bn m_def b_def)
    have R: "bit (drop_bit shift (bn a)) n \<longleftrightarrow>
        (n + shift) div 32 < WIDTH \<and> bit (a ! ((n + shift) div 32)) ((n + shift) mod 32)"
      using assms lt by (simp add: bit_drop_bit_eq bit_bn add.commute)
    have l: "m < WIDTH \<Longrightarrow> op_shr a shift ! m =
        (if m + k < WIDTH then drop_bit s (a ! (m + k)) else 0) OR
        (if s \<noteq> 0 \<and> m + k + 1 < WIDTH then push_bit (32 - s) (a ! (m + k + 1)) else 0)"
      using shr_limb [of WIDTH m a k s] by (auto simp: op_shr_def k_def s_def)
    show "bit (bn (op_shr a shift)) n = bit (drop_bit shift (bn a)) n"
    proof (cases "b + s < 32")
      case True
      have "(n + shift) div 32 = m + k" and "(n + shift) mod 32 = b + s"
        using shift_up_pos(1,2) [OF lt True, of m k] by (simp_all only: n sh)
      with True lt show ?thesis
        unfolding L R by (auto simp: l bit_simps add.commute split: if_splits)
    next
      case False
      have "(n + shift) div 32 = m + k + 1" and "(n + shift) mod 32 = b + s - 32"
        using shift_up_pos(3,4) [OF lt False, of m k] by (simp_all only: n sh)
      with False lt show ?thesis
        unfolding L R by (cases "m + k + 1 < WIDTH"; cases "s = 0") (auto simp: l bit_simps)
    qed
  qed
  then show ?thesis by (simp add: drop_bit_eq_div)
qed



subsection \<open>Products\<close>

lemma bn_take_drop: "bn xs = bn (take j xs) + 2 ^ (32 * min j (length xs)) * bn (drop j xs)"
  using bn_append [of "take j xs" "drop j xs"] by (simp add: min.commute)

lemma mul_fold:
  assumes "length pn = WIDTH" "length b = WIDTH" "n \<le> WIDTH"
  shows "length (fold (\<lambda>j a. take j a @ mul_row 0 (pn ! j) (drop j a) b) [0..<n] base_uint_zero) = WIDTH
    \<and> bn (fold (\<lambda>j a. take j a @ mul_row 0 (pn ! j) (drop j a) b) [0..<n] base_uint_zero) =
      (bn (take n pn) * bn b) mod 2 ^ 256"
  using assms(3)
proof (induction n)
  case 0
  then show ?case by (simp add: base_uint_zero_def)
next
  case (Suc n)
  define a where "a = fold (\<lambda>j a. take j a @ mul_row 0 (pn ! j) (drop j a) b) [0..<n] base_uint_zero"
  have len: "length a = WIDTH" and val: "bn a = (bn (take n pn) * bn b) mod 2 ^ 256"
    using Suc by (simp_all add: a_def)
  have n: "n < WIDTH" using Suc.prems by simp
  let ?r = "take n a @ mul_row 0 (pn ! n) (drop n a) b"
  have split: "(2 :: int) ^ 256 = 2 ^ (32 * n) * 2 ^ (32 * (WIDTH - n))"
  proof -
    have "256 = 32 * n + 32 * (WIDTH - n)" using n by (simp add: WIDTH_def)
    then show ?thesis by (metis power_add)
  qed
  have small: "bn (take n a) < 2 ^ (32 * n)"
    using bn_less [of "take n a"] len n by simp
  have "bn ?r = bn (take n a) + 2 ^ (32 * n) * ((bn (drop n a) + uint (pn ! n) * bn b) mod 2 ^ (32 * (WIDTH - n)))"
    using bn_mul_row [of "drop n a" b 0 "pn ! n"] len n assms(2) by (simp add: bn_append)
  also have "\<dots> = (bn (take n a) + 2 ^ (32 * n) * (bn (drop n a) + uint (pn ! n) * bn b)) mod 2 ^ 256"
    using small unfolding split by (simp add: zmod_zmult2_eq)
  also have "\<dots> = (bn a + 2 ^ (32 * n) * uint (pn ! n) * bn b) mod 2 ^ 256"
    using bn_take_drop [of a n] len n by (simp add: algebra_simps)
  also have "\<dots> = ((bn (take n pn) + 2 ^ (32 * n) * uint (pn ! n)) * bn b) mod 2 ^ 256"
    unfolding val by (simp add: mod_simps algebra_simps)
  also have "bn (take n pn) + 2 ^ (32 * n) * uint (pn ! n) = bn (take (Suc n) pn)"
    using assms(1) n by (simp add: take_Suc_conv_app_nth bn_append)
  finally show ?case
    using len n assms(2) by (simp add: a_def)
qed

lemma length_op_mul: "length a = WIDTH \<Longrightarrow> length b = WIDTH \<Longrightarrow> length (op_mul a b) = WIDTH"
  using mul_fold [of a b WIDTH] by (simp add: op_mul_def)

lemma bn_op_mul:
  "length a = WIDTH \<Longrightarrow> length b = WIDTH \<Longrightarrow> bn (op_mul a b) = (bn a * bn b) mod 2 ^ 256"
  using mul_fold [of a b WIDTH] by (simp add: op_mul_def)

subsection \<open>Comparison\<close>

lemma bn_snoc_less:
  assumes "length xs = length ys" "x < y"
  shows "bn (xs @ [x]) < bn (ys @ [y])"
proof -
  have "uint x + 1 \<le> uint y" using assms(2) by (simp add: word_less_iff_unsigned [where 'a = int] word_less_def)
  then have "2 ^ (32 * length xs) * (uint x + 1) \<le> 2 ^ (32 * length xs) * uint y" by simp
  then have "2 ^ (32 * length xs) * uint x + 2 ^ (32 * length xs) \<le> 2 ^ (32 * length xs) * uint y"
    by (simp add: algebra_simps)
  moreover have "bn xs < 2 ^ (32 * length xs)" and "0 \<le> bn ys" by (simp_all add: bn_less)
  ultimately show ?thesis
    by (simp only: bn_append assms(1) [symmetric] bn.simps mult_zero_right add_0_right)
qed

lemma cmp_loop_rev:
  "length xs = length ys \<Longrightarrow>
     cmp_loop (rev xs) (rev ys) = (if bn xs < bn ys then -1 else if bn xs > bn ys then 1 else 0)"
proof (induction xs arbitrary: ys rule: rev_induct)
  case Nil
  then show ?case by simp
next
  case (snoc x xs)
  then obtain y ys' where ys: "ys = ys' @ [y]" "length xs = length ys'"
    by (cases ys rule: rev_cases) auto
  consider "x < y" | "y < x" | "x = y" by fastforce
  then show ?case
  proof cases
    case 3
    then show ?thesis using snoc.IH [OF ys(2)] ys by (simp add: bn_append)
  qed (use ys bn_snoc_less [of xs ys' x y] bn_snoc_less [of ys' xs y x] in auto)
qed

lemma CompareTo_bn:
  "length a = length b \<Longrightarrow>
     CompareTo a b = (if bn a < bn b then -1 else if bn a > bn b then 1 else 0)"
  by (simp add: CompareTo_def cmp_loop_rev)

lemma compare_simps [simp]:
  assumes "length a = length b"
  shows "op_gt a b \<longleftrightarrow> bn a > bn b" and "op_lt a b \<longleftrightarrow> bn a < bn b"
    and "op_ge a b \<longleftrightarrow> bn a \<ge> bn b" and "op_le a b \<longleftrightarrow> bn a \<le> bn b"
  using assms by (simp_all add: CompareTo_bn)

subsection \<open>The position of the highest bit\<close>

lemma bit_imp_exp_le:
  fixes v :: int
  assumes "0 \<le> v" "bit v k"
  shows "2 ^ k \<le> v"
proof (rule ccontr)
  assume "\<not> 2 ^ k \<le> v"
  then have "take_bit k v = v" using assms(1) by (simp add: take_bit_int_eq_self)
  with assms(2) show False by (metis bit_take_bit_iff less_irrefl)
qed

lemma uint_less_exp_if_no_bit:
  assumes "\<And>k. n \<le> k \<Longrightarrow> \<not> bit w k"
  shows "uint w < 2 ^ n"
proof -
  have "uint w = take_bit n (uint w)"
    by (rule bit_eqI) (use assms in \<open>auto simp: bit_take_bit_iff bit_uint_iff not_le [symmetric]\<close>)
  then show ?thesis by (metis take_bit_int_less_exp)
qed

lemma nbits_loop_bounds:
  assumes "w \<noteq> 0" "\<And>k. n < k \<Longrightarrow> \<not> bit w k"
  shows "1 \<le> nbits_loop w n \<and> nbits_loop w n \<le> Suc n \<and>
     2 ^ (nbits_loop w n - 1) \<le> uint w \<and> uint w < 2 ^ nbits_loop w n"
  using assms(2)
proof (induction n)
  case 0
  have "uint w < 2 ^ 1" by (rule uint_less_exp_if_no_bit) (use 0 in simp)
  moreover have "uint w \<noteq> 0" using assms(1) by (simp add: word_uint_eq_iff)
  moreover have "0 \<le> uint w" by simp
  ultimately have "1 \<le> uint w" by linarith
  then show ?case using \<open>uint w < 2 ^ 1\<close> by simp
next
  case (Suc n)
  have bitn: "w AND push_bit (Suc n) 1 \<noteq> 0 \<longleftrightarrow> bit w (Suc n)"
    using and_exp_eq_0_iff_not_bit [of w "Suc n"] by (simp add: push_bit_eq_mult)
  show ?case
  proof (cases "bit w (Suc n)")
    case True
    have "uint w < 2 ^ Suc (Suc n)" by (rule uint_less_exp_if_no_bit) (use Suc.prems in auto)
    moreover have "2 ^ Suc n \<le> uint w"
      using True bit_imp_le_length [OF True] by (intro bit_imp_exp_le) (simp_all add: bit_uint_iff)
    ultimately show ?thesis using True bitn by simp
  next
    case False
    then have "\<And>k. n < k \<Longrightarrow> \<not> bit w k" using Suc.prems by (metis Suc_lessI)
    from Suc.IH [OF this] False bitn show ?thesis by simp
  qed
qed

lemma bits_loop_rev:
  "(bits_loop (rev xs) = 0 \<longleftrightarrow> bn xs = 0) \<and> bn xs < 2 ^ bits_loop (rev xs) \<and>
   (bn xs \<noteq> 0 \<longrightarrow> 2 ^ (bits_loop (rev xs) - 1) \<le> bn xs) \<and> bits_loop (rev xs) \<le> 32 * length xs"
proof (induction xs rule: rev_induct)
  case Nil
  then show ?case by simp
next
  case (snoc w xs)
  show ?case
  proof (cases "w = 0")
    case True
    with snoc show ?thesis by (simp add: bn_append)
  next
    case False
    let ?n = "nbits_loop w 31"
    have nb: "1 \<le> ?n" "?n \<le> 32" "2 ^ (?n - 1) \<le> uint w" "uint w + 1 \<le> 2 ^ ?n"
      using nbits_loop_bounds [OF False, of 31] by simp_all
    have hi: "bn (xs @ [w]) = bn xs + 2 ^ (32 * length xs) * uint w" by (simp add: bn_append)
    have "2 ^ (32 * length xs) * (uint w + 1) \<le> 2 ^ (32 * length xs) * 2 ^ ?n"
      using nb(4) by simp
    then have "bn (xs @ [w]) < 2 ^ (32 * length xs + ?n)"
      using bn_less [of xs] by (simp add: hi power_add algebra_simps)
    moreover have "2 ^ (32 * length xs) * 2 ^ (?n - 1) \<le> 2 ^ (32 * length xs) * uint w"
      using nb(3) by simp
    then have lo: "2 ^ (32 * length xs + ?n - 1) \<le> bn (xs @ [w])"
      using nb(1) by (simp add: hi add_increasing flip: power_add)
    moreover have "bn (xs @ [w]) \<noteq> 0"
      using lo by (metis not_one_le_zero numeral_One order_less_irrefl zero_less_numeral zero_less_power linorder_not_le)
    ultimately show ?thesis using False nb by simp
  qed
qed

lemma bits_eq_0: "bits a = 0 \<longleftrightarrow> bn a = 0"
  and bits_upper: "bn a < 2 ^ bits a"
  and bits_lower: "bn a \<noteq> 0 \<Longrightarrow> 2 ^ (bits a - 1) \<le> bn a"
  and bits_le: "bits a \<le> 32 * length a"
  using bits_loop_rev [of a] by (simp_all add: bits_def)



subsection \<open>Widths and values of the whole operators\<close>

lemma length_operators [simp]:
  "length base_uint_zero = WIDTH"
  "length (base_uint_of_u64 w) = WIDTH"
  "length (op_not a) = length a"
  "length (op_neg a) = length a"
  "length (op_add a b) = min (length a) (length b)"
  "length (op_sub a b) = min (length a) (length b)"
  "length (op_mul32 a c) = length a"
  "length (op_and a b) = min (length a) (length b)"
  "length (op_or a b) = min (length a) (length b)"
  "length (op_xor a b) = min (length a) (length b)"
  by (simp_all add: base_uint_zero_def base_uint_of_u64_def op_not_def op_neg_def op_add_def
      op_sub_def op_mul32_def op_and_def op_or_def op_xor_def WIDTH_def)

lemma bn_zero [simp, bn_simps]: "bn base_uint_zero = 0"
  by (simp add: base_uint_zero_def)

lemma bn_of_u64 [simp, bn_simps]: "bn (base_uint_of_u64 w) = uint w"
proof -
  have "uint w mod 2 ^ 32 + 2 ^ 32 * (uint w div 2 ^ 32) = uint w" by (rule mod_mult_div_eq)
  then show ?thesis
    by (simp add: base_uint_of_u64_def uint_ucast_low high32 uint64_high_mod [simplified])
qed

lemma bn_op_not [bn_simps]: "length a = WIDTH \<Longrightarrow> bn (op_not a) = 2 ^ 256 - 1 - bn a"
  by (simp add: op_not_def bn_not WIDTH_def)

lemma bn_op_add [bn_simps]:
  "length a = WIDTH \<Longrightarrow> length b = WIDTH \<Longrightarrow> bn (op_add a b) = (bn a + bn b) mod 2 ^ 256"
  by (simp add: op_add_def bn_add_loop WIDTH_def)

lemma bn_op_sub [bn_simps]:
  "length a = WIDTH \<Longrightarrow> length b = WIDTH \<Longrightarrow> bn (op_sub a b) = (bn a - bn b) mod 2 ^ 256"
  by (simp add: op_sub_def bn_op_add bn_op_neg mod_simps) (simp add: WIDTH_def mod_simps)

lemma bn_op_mul32 [bn_simps]:
  "length a = WIDTH \<Longrightarrow> bn (op_mul32 a c) = (bn a * uint c) mod 2 ^ 256"
  by (simp add: op_mul32_def bn_mul32_loop WIDTH_def)

declare bn_op_mul [bn_simps] bn_op_shl [bn_simps] bn_op_shr [bn_simps]

lemma bn_bound: "length a = WIDTH \<Longrightarrow> bn a < 2 ^ 256"
  using bn_less [of a] by (simp add: WIDTH_def)

lemma bn_op_sub_exact:
  "length a = WIDTH \<Longrightarrow> length b = WIDTH \<Longrightarrow> bn b \<le> bn a \<Longrightarrow> bn (op_sub a b) = bn a - bn b"
  using bn_bound [of a] bn_nonneg [of b]
  by (simp only: bn_op_sub) (intro mod_pos_pos_trivial; linarith)

lemma EqualTo_bn:
  assumes "length a = WIDTH"
  shows "EqualTo a b \<longleftrightarrow> bn a = uint b"
proof -
  have a: "a = a ! 0 # a ! 1 # drop 2 a" and len: "length (drop 2 a) = WIDTH - 2"
    using assms by (auto simp: WIDTH_def numeral_eq_Suc length_Suc_conv)
  have "EqualTo a b \<longleftrightarrow> drop 2 a = replicate (WIDTH - 2) 0 \<and>
      uint (a ! 1) = uint b div 2 ^ 32 \<and> uint (a ! 0) = uint b mod 2 ^ 32"
    using len uint_and_low32 [of b] high32 [of b]
    by (auto simp: EqualTo_def word_uint_eq_iff intro!: replicate_eqI)
  also have "\<dots> \<longleftrightarrow> a = base_uint_of_u64 b"
    by (subst (4) a) (auto simp: base_uint_of_u64_def word_uint_eq_iff uint_ucast_low high32
        uint64_high_mod [simplified])
  also have "\<dots> \<longleftrightarrow> bn a = bn (base_uint_of_u64 b)"
    using assms by (intro bn_eq_iff [symmetric]) simp
  finally show ?thesis by simp
qed

subsection \<open>Long division\<close>

lemma bn_set_bit:
  assumes "shift < 32 * length q" "\<not> bit (bn q) shift"
  shows "bn (q[shift div 32 := q ! (shift div 32) OR push_bit (shift mod 32) 1]) = bn q + 2 ^ shift"
proof -
  have lt: "shift div 32 < length q" using assms(1) by auto
  have "bn (q[shift div 32 := q ! (shift div 32) OR push_bit (shift mod 32) 1]) = set_bit shift (bn q)"
  proof (rule bit_eqI)
    fix n
    have "n div 32 = shift div 32 \<and> n mod 32 = shift mod 32 \<longleftrightarrow> n = shift"
      by (metis div_mult_mod_eq)
    then show "bit (bn (q[shift div 32 := q ! (shift div 32) OR push_bit (shift mod 32) 1])) n =
        bit (set_bit shift (bn q)) n"
      using lt by (auto simp: bit_bn bit_set_bit_iff nth_list_update bit_simps)
  qed
  then show ?thesis using assms(2) by (simp add: set_bit_eq)
qed

lemma div_loop_correct:
  assumes "length num = WIDTH" "length dv = WIDTH" "length q = WIDTH"
    and "0 < B" "n \<le> 256" "0 < n \<Longrightarrow> bn dv = B * 2 ^ (n - 1)"
    and "bn num < B * 2 ^ n" "2 ^ n dvd bn q"
    and "div_loop n num dv q = (q', r)"
  shows "length q' = WIDTH \<and> length r = WIDTH \<and> bn q' * B + bn r = bn q * B + bn num \<and> bn r < B"
  using assms
proof (induction n num dv q rule: div_loop.induct)
  case (1 num dv q)
  then show ?case by simp
next
  case (2 shift num dv q)
  have dv: "bn dv = B * 2 ^ shift" using "2.prems"(6) by simp
  have half: "bn (op_shr dv 1) = B * 2 ^ (shift - 1)" if "0 < shift"
  proof -
    have "B * 2 ^ shift = B * 2 ^ (shift - 1) * 2" using that by (cases shift) simp_all
    with dv have "bn dv = B * 2 ^ (shift - 1) * 2" by simp
    then show ?thesis using "2.prems"(2) by (simp add: bn_op_shr)
  qed
  have even: "2 ^ shift dvd bn q" using "2.prems"(8) by (metis dvd_trans dvd_triv_right power_Suc)
  show ?case
  proof (cases "bn dv \<le> bn num")
    case True
    define q1 where "q1 = q[shift div 32 := q ! (shift div 32) OR push_bit (shift mod 32) 1]"
    have "\<not> bit (bn q) shift"
      using "2.prems"(8) by (auto simp: bit_iff_odd elim!: dvdE)
    then have q1: "bn q1 = bn q + 2 ^ shift"
      unfolding q1_def using "2.prems"(3,5) by (intro bn_set_bit) (simp_all add: WIDTH_def)
    have sub: "bn (op_sub num dv) = bn num - B * 2 ^ shift"
      using "2.prems" True dv by (simp add: bn_op_sub_exact)
    have run: "div_loop shift (op_sub num dv) (op_shr dv 1) q1 = (q', r)"
      using "2.prems"(1,2,9) True by (simp add: q1_def)
    have len: "length q1 = WIDTH" using "2.prems"(3) by (simp add: q1_def)
    have "length q' = WIDTH \<and> length r = WIDTH \<and>
        bn q' * B + bn r = bn q1 * B + bn (op_sub num dv) \<and> bn r < B"
      using "2.prems" True even half sub q1 len
      by (intro "2.IH"(1) [folded q1_def, OF _ _ _ _ _ _ _ _ _ run]) auto
    then show ?thesis using q1 sub by (simp add: algebra_simps)
  next
    case False
    then show ?thesis
      using "2.prems" even half dv by (intro "2.IH"(2)) auto
  qed
qed

lemma op_div_correct:
  assumes "length a = WIDTH" "length b = WIDTH"
  shows "(bn b = 0 \<longrightarrow> op_div a b = Inl Division_by_zero) \<and>
    (bn b \<noteq> 0 \<longrightarrow> (\<exists>q. op_div a b = Inr q \<and> length q = WIDTH \<and> bn q = bn a div bn b))"
proof (cases "bn b = 0")
  case True
  then show ?thesis by (simp add: op_div_def Let_def bits_eq_0)
next
  case False
  then have B: "0 < bn b" using bn_nonneg [of b] by linarith
  have nz: "bits b \<noteq> 0" using False by (simp add: bits_eq_0)
  show ?thesis
  proof (cases "bits b > bits a")
    case True
    have "bn a < 2 ^ bits a" by (rule bits_upper)
    also have "(2 :: int) ^ bits a \<le> 2 ^ (bits b - 1)" using True by (intro power_increasing) auto
    also have "\<dots> \<le> bn b" using False by (rule bits_lower)
    finally have "bn a div bn b = 0" by (simp add: div_pos_pos_trivial)
    with True nz False show ?thesis by (simp add: op_div_def Let_def)
  next
    case le: False
    define s where "s = bits a - bits b"
    have sb: "bits a = s + bits b" using le by (simp add: s_def)
    have s256: "bits a \<le> 256" using bits_le [of a] assms by (simp add: WIDTH_def)
    have "bn b * 2 ^ s < 2 ^ bits b * 2 ^ s" using bits_upper [of b] by simp
    also have "\<dots> = 2 ^ bits a" by (simp add: sb power_add mult.commute)
    also have "(2 :: int) ^ bits a \<le> 2 ^ 256" using s256 by (intro power_increasing) auto
    finally have shl: "bn (op_shl b s) = bn b * 2 ^ s"
      using assms B by (simp add: bn_op_shl)
    have "bn a < 2 ^ bits a" by (rule bits_upper)
    also have "(2 :: int) ^ bits a = 2 ^ (bits b - 1) * 2 ^ Suc s"
      using nz by (simp add: sb flip: power_Suc power_add)
    also have "\<dots> \<le> bn b * 2 ^ Suc s" using bits_lower [OF False] by simp
    finally have num: "bn a < bn b * 2 ^ Suc s" .
    obtain q r where run: "div_loop (Suc s) a (op_shl b s) base_uint_zero = (q, r)" by fastforce
    have "length q = WIDTH \<and> length r = WIDTH \<and>
        bn q * bn b + bn r = bn base_uint_zero * bn b + bn a \<and> bn r < bn b"
      using div_loop_correct [OF assms(1) _ _ B _ _ num _ run] s256 nz sb shl by simp
    then have "length q = WIDTH" and eq: "bn a = bn q * bn b + bn r" and "bn r < bn b" by simp_all
    moreover have "bn a div bn b = bn q"
      using eq \<open>bn r < bn b\<close> B by (simp add: div_pos_pos_trivial)
    ultimately show ?thesis
      using nz le False run by (simp add: op_div_def Let_def s_def)
  qed
qed



section \<open>The compact encoding of targets\<close>

lemma uint_GetLow64:
  assumes "length a = WIDTH"
  shows "uint (GetLow64 a) = bn a mod 2 ^ 64"
proof -
  have "uint (GetLow64 a) = take_bit 64 (bn a)"
  proof (rule bit_eqI)
    fix n :: nat
    have "n < 64 \<Longrightarrow> n div 32 = (if n < 32 then 0 else 1)" by auto
    moreover have "32 \<le> n \<Longrightarrow> n < 64 \<Longrightarrow> n mod 32 = n - 32" by (simp add: le_mod_geq)
    ultimately show "bit (uint (GetLow64 a)) n = bit (take_bit 64 (bn a)) n"
      using assms
      by (cases "n < 64"; cases "n < 32")
        (auto simp: GetLow64_def bit_simps bit_bn WIDTH_def)
  qed
  then show ?thesis by (simp add: take_bit_eq_mod)
qed

lemma bit32_as_odd: "bit (n :: u32) k \<longleftrightarrow> k < 32 \<and> odd (uint n div 2 ^ k)"
proof -
  have "bit n k \<longleftrightarrow> bit (uint n) k"
    using bit_imp_le_length [of n k] by (auto simp: bit_uint_iff)
  then show ?thesis
    using bit_imp_le_length [of n k] by (auto simp: bit_iff_odd [of "uint n"])
qed

lemma and_sign_bit:
  assumes "uint (n :: u32) < 2 ^ 24"
  shows "n AND 0x00800000 \<noteq> 0 \<longleftrightarrow> 2 ^ 23 \<le> uint n"
proof -
  have "n AND 0x00800000 \<noteq> 0 \<longleftrightarrow> bit n 23"
    using and_exp_eq_0_iff_not_bit [of n 23] by simp
  also have "\<dots> \<longleftrightarrow> odd (uint n div 2 ^ 23)" by (simp add: bit32_as_odd)
  also have "\<dots> \<longleftrightarrow> 2 ^ 23 \<le> uint n"
  proof (cases "2 ^ 23 \<le> uint n")
    case True
    then have "uint n div 2 ^ 23 = 1" using assms by (simp add: int_div_pos_eq)
    with True show ?thesis by simp
  next
    case False
    then have "uint n div 2 ^ 23 = 0" by (simp add: div_pos_pos_trivial)
    with False show ?thesis by simp
  qed
  finally show ?thesis .
qed

lemma uint_and_mantissa: "uint ((n :: u32) AND 0x007fffff) = uint n mod 2 ^ 23"
proof -
  have "uint (n AND 0x007fffff) = uint n AND mask 23"
    by (simp add: unsigned_and_eq mask_eq_exp_minus_1)
  then show ?thesis by (simp only: take_bit_eq_mask [symmetric] take_bit_eq_mod)
qed

lemma and_not_mantissa: "(n :: u32) AND NOT 0x007fffff = 0 \<longleftrightarrow> uint n < 2 ^ 23"
proof -
  have "n = (n AND 0x007fffff) OR (n AND NOT 0x007fffff)"
    by (rule bit_word_eqI) (auto simp: bit_simps)
  then have "n AND NOT 0x007fffff = 0 \<Longrightarrow> n = n AND 0x007fffff" by simp
  moreover have "n = n AND 0x007fffff \<Longrightarrow> n AND NOT 0x007fffff = 0"
    by (metis and.assoc and.right_neutral bit.conj_cancel_right and_zero_eq)
  moreover have "n = n AND 0x007fffff \<longleftrightarrow> uint n = uint n mod 2 ^ 23"
    by (simp add: word_uint_eq_iff uint_and_mantissa)
  moreover have "uint n = uint n mod 2 ^ 23 \<longleftrightarrow> uint n < 2 ^ 23"
  proof
    assume "uint n = uint n mod 2 ^ 23"
    then show "uint n < 2 ^ 23" by (metis pos_mod_bound zero_less_numeral zero_less_power)
  qed simp
  ultimately show ?thesis by blast
qed

lemma uint_or_exponent:
  assumes "uint (n :: u32) < 2 ^ 24" "e < 256"
  shows "uint (n OR push_bit 24 (word_of_nat e)) = uint n + 2 ^ 24 * int e"
proof -
  have e: "uint (push_bit 24 (word_of_nat e :: u32)) = 2 ^ 24 * int e"
    using assms(2) by (simp add: push_bit_eq_mult uint_word_ariths unsigned_of_nat take_bit_eq_mod)
  have "uint (n OR push_bit 24 (word_of_nat e)) = uint n OR uint (push_bit 24 (word_of_nat e :: u32))"
    by (simp add: unsigned_or_eq)
  also have "\<dots> = uint n OR push_bit 24 (int e)" 
    by (subst e) (simp add: push_bit_eq_mult mult.commute)
  also have "\<dots> = concat_bit 24 (uint n) (int e)"
    using assms(1) by (simp add: concat_bit_def take_bit_int_eq_self)
  also have "\<dots> = uint n + 2 ^ 24 * int e"
    using assms(1) by (simp add: concat_bit_eq take_bit_int_eq_self push_bit_eq_mult)
  finally show ?thesis .
qed

text \<open>The size in bytes, and the leading three bytes before the sign adjustment.\<close>

definition nsize :: "base_uint \<Rightarrow> nat" where
  "nsize a = (bits a + 7) div 8"

definition lead :: "base_uint \<Rightarrow> int" where
  "lead a = (if nsize a \<le> 3 then bn a * 256 ^ (3 - nsize a) else bn a div 256 ^ (nsize a - 3))"

lemma pow256: "(256 :: int) ^ n = 2 ^ (8 * n)"
  by (simp add: power_mult)

lemma bn_below_size: "bn a < 256 ^ nsize a"
proof -
  have "bits a \<le> 8 * nsize a" by (simp add: nsize_def)
  then have "(2 :: int) ^ bits a \<le> 256 ^ nsize a"
    unfolding pow256 by (intro power_increasing) simp_all
  with bits_upper [of a] show ?thesis by linarith
qed

lemma bn_above_size: "bn a \<noteq> 0 \<Longrightarrow> 256 ^ (nsize a - 1) \<le> bn a"
proof -
  assume nz: "bn a \<noteq> 0"
  then have "bits a \<noteq> 0" by (simp add: bits_eq_0)
  then have "8 * (nsize a - 1) \<le> bits a - 1" by (simp add: nsize_def)
  then have "(256 :: int) ^ (nsize a - 1) \<le> 2 ^ (bits a - 1)"
    unfolding pow256 by (intro power_increasing) simp_all
  with bits_lower [OF nz] show ?thesis by linarith
qed

lemma lead_bounds: "0 \<le> lead a \<and> lead a < 2 ^ 24"
proof (cases "nsize a \<le> 3")
  case True
  have "bn a * 256 ^ (3 - nsize a) < 256 ^ nsize a * 256 ^ (3 - nsize a)"
    using bn_below_size [of a] by simp
  also have "\<dots> = 256 ^ 3" using True by (simp flip: power_add)
  finally show ?thesis using True by (simp add: lead_def)
next
  case False
  have "bn a < 256 ^ 3 * 256 ^ (nsize a - 3)"
    using bn_below_size [of a] False by (simp only: power_add [symmetric]) simp
  then have "bn a div 256 ^ (nsize a - 3) < 256 ^ 3"
    by (rule int_div_lessI) simp
  then show ?thesis using False by (simp add: lead_def pos_imp_zdiv_nonneg_iff)
qed


lemma uint_lead_word:
  assumes "length a = WIDTH"
  shows "uint (if nsize a \<le> 3 then ucast (push_bit (8 * (3 - nsize a)) (GetLow64 a))
               else ucast (GetLow64 (op_shr a (8 * (nsize a - 3)))) :: u32) = lead a"
proof (cases "nsize a \<le> 3")
  case True
  have "(256 :: int) ^ nsize a \<le> 256 ^ 3" using True by (intro power_increasing) simp_all
  then have small: "bn a < 2 ^ 24" using bn_below_size [of a] by simp
  then have "uint (push_bit (8 * (3 - nsize a)) (GetLow64 a)) = (bn a * 256 ^ (3 - nsize a)) mod 2 ^ 64"
    using assms by (simp add: unsigned_push_bit_eq take_bit_eq_mod push_bit_eq_mult [of _ "_ :: int"]
        uint_GetLow64 pow256 mod_simps)
  moreover have "bn a * 256 ^ (3 - nsize a) < 2 ^ 24"
    using lead_bounds [of a] True by (simp add: lead_def)
  ultimately show ?thesis
    using True by (simp add: lead_def uint_ucast_low)
next
  case False
  then have "bn a div 256 ^ (nsize a - 3) < 2 ^ 24" using lead_bounds [of a] by (simp add: lead_def)
  with False assms show ?thesis
    by (simp add: lead_def uint_ucast_low uint_GetLow64 bn_op_shr pow256 pos_imp_zdiv_nonneg_iff)
qed

text \<open>Mantissa and exponent after the sign adjustment.\<close>

definition mant :: "base_uint \<Rightarrow> int" where
  "mant a = (if 2 ^ 23 \<le> lead a then lead a div 256 else lead a)"

definition expo :: "base_uint \<Rightarrow> nat" where
  "expo a = (if 2 ^ 23 \<le> lead a then nsize a + 1 else nsize a)"

lemma mant_bounds: "0 \<le> mant a \<and> mant a < 2 ^ 23"
  using lead_bounds [of a] int_div_lessI [of "lead a" "2 ^ 16" 256]
  by (auto simp: mant_def pos_imp_zdiv_nonneg_iff)

lemma expo_bound: "length a = WIDTH \<Longrightarrow> expo a \<le> 33"
proof -
  assume "length a = WIDTH"
  then have "bits a \<le> 256" using bits_le [of a] by (simp add: WIDTH_def)
  then have "nsize a \<le> 32" unfolding nsize_def by linarith
  then show ?thesis by (simp add: expo_def)
qed

lemma GetCompact_eq:
  assumes "length a = WIDTH"
  obtains c where "GetCompact a False = Some c" and "uint c = mant a + 2 ^ 24 * int (expo a)"
proof -
  define n :: u32 where "n = (if nsize a \<le> 3 then ucast (push_bit (8 * (3 - nsize a)) (GetLow64 a))
               else ucast (GetLow64 (op_shr a (8 * (nsize a - 3)))))"
  have n: "uint n = lead a" unfolding n_def by (rule uint_lead_word [OF assms])
  define m :: u32 where "m = (if 2 ^ 23 \<le> lead a then drop_bit 8 n else n)"
  have m: "uint m = mant a" by (simp add: m_def mant_def uint_drop_bit_word n)
  have sign: "n AND 0x00800000 \<noteq> 0 \<longleftrightarrow> 2 ^ 23 \<le> lead a"
    using and_sign_bit [of n] lead_bounds [of a] by (simp add: n)
  have "m AND NOT 0x007fffff = 0" using mant_bounds [of a] by (simp only: and_not_mantissa m)
  moreover have "expo a < 256" using expo_bound [OF assms] by simp
  moreover have "GetCompact a False =
      (if m AND NOT 0x007fffff \<noteq> 0 then None else if \<not> expo a < 256 then None
       else Some (m OR push_bit 24 (word_of_nat (expo a))))"
    unfolding GetCompact_def nsize_def [symmetric] n_def [symmetric] Let_def sign
    by (simp add: m_def expo_def)
  ultimately have "GetCompact a False = Some (m OR push_bit 24 (word_of_nat (expo a)))" by simp
  moreover have "uint (m OR push_bit 24 (word_of_nat (expo a))) = mant a + 2 ^ 24 * int (expo a)"
    using uint_or_exponent [of m "expo a"] mant_bounds [of a] \<open>expo a < 256\<close> by (simp add: m)
  ultimately show ?thesis by (rule that)
qed



text \<open>The number a compact word denotes, without the 256-bit truncation.\<close>

definition compact_value :: "u32 \<Rightarrow> int" where
  "compact_value c =
     (let e = nat (uint c div 2 ^ 24); m = uint c mod 2 ^ 23
      in if e \<le> 3 then m div 256 ^ (3 - e) else m * 256 ^ (e - 3))"

lemma overflow_iff:
  fixes m :: int
  assumes "0 \<le> m" "m < 2 ^ 23" "3 < e"
  shows "m \<noteq> 0 \<and> (34 < e \<or> (255 < m \<and> 33 < e) \<or> (65535 < m \<and> 32 < e)) \<longleftrightarrow>
     2 ^ 256 \<le> m * 256 ^ (e - 3)"
proof -
  consider "e \<le> 32" | "e = 33" | "e = 34" | "34 < e" by linarith
  then show ?thesis
  proof cases
    case 1
    have "m * 256 ^ (e - 3) \<le> 2 ^ 23 * 256 ^ 29"
      using assms 1 by (intro mult_mono power_increasing) auto
    then show ?thesis using 1 by simp
  next
    case 4
    have "m \<noteq> 0 \<Longrightarrow> 1 * 256 ^ 32 \<le> m * 256 ^ (e - 3)"
      using assms 4 by (intro mult_mono power_increasing) auto
    then show ?thesis using 4 by auto
  qed (use assms in auto)
qed

lemma SetCompact_eq:
  obtains r neg ovf where "SetCompact c = (r, neg, ovf)" and "length r = WIDTH"
    and "bn r = compact_value c mod 2 ^ 256"
    and "ovf \<longleftrightarrow> 2 ^ 256 \<le> compact_value c"
    and "neg \<longleftrightarrow> compact_value c \<noteq> 0 \<and> bit c 23"
proof -
  define e where "e = nat (uint c div 2 ^ 24)"
  define m where "m = uint c mod 2 ^ 23"
  have m: "0 \<le> m" "m < 2 ^ 23" by (simp_all add: m_def)
  have e: "unat (drop_bit 24 c) = e"
    by (simp add: e_def uint_drop_bit_word flip: nat_uint_eq)
  have w: "uint (c AND 0x007fffff) = m" by (simp add: m_def uint_and_mantissa)
  have cv: "compact_value c = (if e \<le> 3 then m div 256 ^ (3 - e) else m * 256 ^ (e - 3))"
    by (simp only: compact_value_def Let_def e_def m_def)
  have sign: "c AND 0x00800000 \<noteq> 0 \<longleftrightarrow> bit c 23"
    using and_exp_eq_0_iff_not_bit [of c 23] by simp
  show thesis
  proof (cases "e \<le> 3")
    case True
    define n where "n = drop_bit (8 * (3 - e)) (c AND 0x007fffff)"
    have n: "uint n = compact_value c"
    proof -
      have "compact_value c = m div 256 ^ (3 - e)"
        using True by (simp only: cv if_True)
      then show ?thesis by (simp only: n_def uint_drop_bit_word w pow256)
    qed
    have "compact_value c < 2 ^ 32" and "0 \<le> compact_value c"
      using n uint32_bound [of n] by simp_all
    moreover have "n \<noteq> 0 \<longleftrightarrow> compact_value c \<noteq> 0" using n by (simp add: word_uint_eq_iff)
    moreover have "SetCompact c = (base_uint_of_u64 (ucast n), n \<noteq> 0 \<and> bit c 23, False)"
      using True by (simp add: SetCompact_def e Let_def sign n_def)
    ultimately show thesis using n by (intro that [of "base_uint_of_u64 (ucast n)"]) auto
  next
    case False
    let ?n = "c AND 0x007fffff"
    have v: "compact_value c = m * 256 ^ (e - 3)"
      using False by (simp only: cv if_False)
    have nz: "?n \<noteq> 0 \<longleftrightarrow> m \<noteq> 0" and gt: "?n > 0xff \<longleftrightarrow> 255 < m" "?n > 0xffff \<longleftrightarrow> 65535 < m"
      using w by (simp_all add: word_uint_eq_iff word_less_def)
    have "SetCompact c = (op_shl (base_uint_of_u64 (ucast ?n)) (8 * (e - 3)), ?n \<noteq> 0 \<and> bit c 23,
        ?n \<noteq> 0 \<and> (34 < e \<or> (?n > 0xff \<and> 33 < e) \<or> (?n > 0xffff \<and> 32 < e)))"
      using False by (simp add: SetCompact_def e Let_def sign)
    moreover have "bn (op_shl (base_uint_of_u64 (ucast ?n)) (8 * (e - 3))) = compact_value c mod 2 ^ 256"
      by (simp add: bn_op_shl w v pow256)
    moreover have "?n \<noteq> 0 \<and> (34 < e \<or> (?n > 0xff \<and> 33 < e) \<or> (?n > 0xffff \<and> 32 < e)) \<longleftrightarrow>
        2 ^ 256 \<le> compact_value c"
      using overflow_iff [OF m, of e] False unfolding nz gt v by simp
    moreover have "?n \<noteq> 0 \<and> bit c 23 \<longleftrightarrow> compact_value c \<noteq> 0 \<and> bit c 23"
      unfolding nz v by simp
    ultimately show thesis by (intro that) simp_all
  qed
qed

lemma pow256_step: "\<not> n \<le> 3 \<Longrightarrow> (256 :: int) ^ (n - 2) = 256 ^ (n - 3) * 256"
proof -
  assume "\<not> n \<le> 3"
  then have "n - 2 = Suc (n - 3)" by linarith
  then show ?thesis by simp
qed

lemma compact_value_GetCompact:
  assumes "uint c = mant a + 2 ^ 24 * int (expo a)"
  shows "compact_value c = bn a div 256 ^ (expo a - 3) * 256 ^ (expo a - 3)" and "\<not> bit c 23"
proof -
  have c: "uint c = mant a + 2 ^ 23 * (2 * int (expo a))" by (simp add: assms)
  have e: "nat (uint c div 2 ^ 24) = expo a" and m: "uint c mod 2 ^ 23 = mant a"
  proof -
    have "mant a < 2 ^ 24" using mant_bounds [of a] by simp
    then show "nat (uint c div 2 ^ 24) = expo a"
      using mant_bounds [of a] by (simp add: assms div_pos_pos_trivial)
    show "uint c mod 2 ^ 23 = mant a"
      using mant_bounds [of a] by (simp only: c mod_mult_self2) simp
  qed
  have "uint c div 2 ^ 23 = 2 * int (expo a)"
    using mant_bounds [of a] by (subst c, subst div_mult_self2) simp_all
  then show "\<not> bit c 23" by (simp add: bit32_as_odd)
  have cv: "compact_value c =
      (if expo a \<le> 3 then mant a div 256 ^ (3 - expo a) else mant a * 256 ^ (expo a - 3))"
    by (simp only: compact_value_def Let_def e m)
  show "compact_value c = bn a div 256 ^ (expo a - 3) * 256 ^ (expo a - 3)"
  proof (cases "nsize a \<le> 3")
    case True
    have split: "(256 :: int) ^ (3 - nsize a) = 256 ^ (2 - nsize a) * 256" if "nsize a \<noteq> 3"
    proof -
      have "3 - nsize a = Suc (2 - nsize a)" using that True by linarith
      then show ?thesis by simp
    qed
    show ?thesis
      using True split
      by (cases "nsize a = 3"; cases "2 ^ 23 \<le> lead a")
        (simp_all add: cv mant_def expo_def lead_def)
  next
    case False
    note pow256_step [OF this]
    with False show ?thesis
      by (simp add: cv mant_def expo_def lead_def zdiv_zmult2_eq)
  qed
qed


lemma expo_scale: "bn a \<noteq> 0 \<Longrightarrow> 8 * (expo a - 3) \<le> bits a - 1"
proof -
  assume "bn a \<noteq> 0"
  then have "bits a \<noteq> 0" by (simp add: bits_eq_0)
  moreover have "expo a \<le> nsize a + 1" by (simp add: expo_def)
  moreover have "8 * nsize a \<le> bits a + 7" by (simp add: nsize_def)
  ultimately show ?thesis by linarith
qed

lemma bits_unique:
  assumes "2 ^ (k - 1) \<le> bn a" "bn a < 2 ^ k"
  shows "bits a = k"
proof -
  have nz: "bn a \<noteq> 0" using assms(1) by (metis linorder_not_le zero_less_numeral zero_less_power)
  have "(2 :: int) ^ (k - 1) < 2 ^ bits a" using assms(1) bits_upper [of a] by linarith
  moreover have "(2 :: int) ^ (bits a - 1) < 2 ^ k" using assms(2) bits_lower [OF nz] by linarith
  ultimately have "k - 1 < bits a" and "bits a - 1 < k" by simp_all
  moreover have "bits a \<noteq> 0" using nz by (simp add: bits_eq_0)
  moreover have "k \<noteq> 0" using assms nz bn_nonneg [of a] by (cases k) auto
  ultimately show ?thesis by linarith
qed

text \<open>Clearing the bytes below the mantissa keeps the size and the mantissa.\<close>

lemma round_keeps:
  assumes "bn r = bn a div 256 ^ (expo a - 3) * 256 ^ (expo a - 3)"
  shows "mant r = mant a" and "expo r = expo a"
proof -
  have "bits r = bits a"
  proof (cases "bn a = 0")
    case True
    then have "bn r = 0" using assms by simp
    with True show ?thesis by (metis bits_eq_0)
  next
    case False
    let ?K = "256 ^ (expo a - 3) :: int"
    have K: "(2 :: int) ^ (bits a - 1) = 2 ^ (bits a - 1 - 8 * (expo a - 3)) * ?K"
      using expo_scale [OF False] by (simp add: pow256 flip: power_add)
    have "2 ^ (bits a - 1 - 8 * (expo a - 3)) * ?K div ?K \<le> bn a div ?K"
      using bits_lower [OF False] unfolding K by (intro zdiv_mono1) simp_all
    then have "2 ^ (bits a - 1) \<le> bn r" unfolding K assms by simp
    moreover have "bn r \<le> bn a"
      unfolding assms by (rule int_div_mult_le) simp
    then have "bn r < 2 ^ bits a" using bits_upper [of a] by linarith
    ultimately show ?thesis by (rule bits_unique)
  qed
  then have size: "nsize r = nsize a" by (simp add: nsize_def)
  have lead: "lead r = (if 2 ^ 23 \<le> lead a then lead a div 256 * 256 else lead a)"
  proof (cases "nsize a \<le> 3")
    case True
    then show ?thesis
      using size assms
      by (cases "nsize a = 3"; cases "2 ^ 23 \<le> lead a")
        (simp_all add: lead_def expo_def)
  next
    case False
    note pow256_step [OF this]
    with False size assms show ?thesis
      by (simp add: lead_def expo_def zdiv_zmult2_eq)
  qed
  moreover have "2 ^ 23 \<le> lead a \<Longrightarrow> 2 ^ 23 \<le> lead a div 256 * 256"
    using zdiv_mono1 [of "2 ^ 23" "lead a" 256] by simp
  ultimately have "2 ^ 23 \<le> lead r \<longleftrightarrow> 2 ^ 23 \<le> lead a" by auto
  with lead size show "mant r = mant a" and "expo r = expo a"
    by (simp_all add: mant_def expo_def)
qed


lemma compact_round_trip:
  assumes "length a = WIDTH"
  obtains c r where "GetCompact a False = Some c" and "SetCompact c = (r, False, False)"
    and "length r = WIDTH" and "bn r = bn a div 256 ^ (expo a - 3) * 256 ^ (expo a - 3)"
    and "GetCompact r False = Some c"
proof -
  obtain c where c: "GetCompact a False = Some c" "uint c = mant a + 2 ^ 24 * int (expo a)"
    using GetCompact_eq [OF assms] by blast
  note cv = compact_value_GetCompact [OF c(2)]
  obtain r neg ovf where r: "SetCompact c = (r, neg, ovf)" "length r = WIDTH"
    "bn r = compact_value c mod 2 ^ 256" "ovf \<longleftrightarrow> 2 ^ 256 \<le> compact_value c"
    "neg \<longleftrightarrow> compact_value c \<noteq> 0 \<and> bit c 23"
    using SetCompact_eq by blast
  have "compact_value c \<le> bn a" unfolding cv(1) by (rule int_div_mult_le) simp
  then have lt: "compact_value c < 2 ^ 256" using bn_bound [OF assms] by linarith
  moreover have "0 \<le> compact_value c" unfolding cv(1) by (simp add: pos_imp_zdiv_nonneg_iff)
  ultimately have bn_r: "bn r = bn a div 256 ^ (expo a - 3) * 256 ^ (expo a - 3)"
    using r(3) cv(1) by simp
  obtain c' where c': "GetCompact r False = Some c'" "uint c' = mant r + 2 ^ 24 * int (expo r)"
    using GetCompact_eq [OF r(2)] by blast
  have "uint c' = uint c" using c'(2) c(2) round_keeps [OF bn_r] by simp
  then have "c' = c" by (simp add: word_uint_eq_iff)
  with c c' r lt cv(2) bn_r show thesis by (intro that [of c r]) auto
qed

text \<open>Rounding loses less than one part in \<open>2 ^ 15\<close>.\<close>

lemma mant_div: "3 < expo a \<Longrightarrow> mant a = bn a div 256 ^ (expo a - 3)"
  using pow256_step [of "nsize a"]
  by (cases "nsize a \<le> 3"; cases "nsize a = 3"; cases "2 ^ 23 \<le> lead a")
    (simp_all add: mant_def expo_def lead_def zdiv_zmult2_eq)

lemma mant_large:
  assumes "3 < expo a" "bn a \<noteq> 0"
  shows "2 ^ 15 \<le> mant a"
proof (cases "2 ^ 23 \<le> lead a")
  case True
  then show ?thesis using zdiv_mono1 [of "2 ^ 23" "lead a" 256] by (simp add: mant_def)
next
  case False
  then have n: "3 < nsize a" using assms(1) by (simp add: expo_def)
  then have "nsize a - 1 = Suc (Suc (nsize a - 3))" by linarith
  then have "(256 :: int) ^ (nsize a - 1) = 2 ^ 16 * 256 ^ (nsize a - 3)" by simp
  then have "2 ^ 16 * 256 ^ (nsize a - 3) div 256 ^ (nsize a - 3) \<le> bn a div 256 ^ (nsize a - 3)"
    using bn_above_size [OF assms(2)] by (intro zdiv_mono1) simp_all
  then show ?thesis using False n by (simp add: mant_def lead_def)
qed

lemma round_error:
  "(bn a - bn a div 256 ^ (expo a - 3) * 256 ^ (expo a - 3)) * 2 ^ 15 \<le> bn a"
proof (cases "expo a \<le> 3 \<or> bn a = 0")
  case True
  then show ?thesis by auto
next
  case False
  let ?K = "256 ^ (expo a - 3) :: int"
  have "2 ^ 15 * ?K \<le> mant a * ?K" using mant_large [of a] False by simp
  also have "\<dots> = bn a div ?K * ?K" using mant_div [of a] False by simp
  also have "\<dots> \<le> bn a" by (rule int_div_mult_le) simp
  finally have "?K * 2 ^ 15 \<le> bn a" by simp
  moreover have "bn a mod ?K * 2 ^ 15 \<le> ?K * 2 ^ 15"
    by (intro mult_right_mono) (simp_all add: less_imp_le)
  ultimately show ?thesis by (simp only: minus_div_mult_eq_mod)
qed



section \<open>Little-endian bytes\<close>

lemma ReadLE32_WriteLE32 [simp]: "ReadLE32 (WriteLE32 x @ bs) = x"
proof (rule bit_word_eqI)
  fix n :: nat
  assume "n < LENGTH(32)"
  then have "n < 8 \<or> (8 \<le> n \<and> n < 16) \<or> (16 \<le> n \<and> n < 24) \<or> (24 \<le> n \<and> n < 32)" by auto
  then show "bit (ReadLE32 (WriteLE32 x @ bs)) n = bit x n"
    by (auto simp: ReadLE32_def WriteLE32_def bit_simps)
qed

lemma WriteLE32_ReadLE32 [simp]:
  assumes "4 \<le> length bs"
  shows "WriteLE32 (ReadLE32 bs) = take 4 bs"
proof -
  obtain b0 b1 b2 b3 rest where bs: "bs = b0 # b1 # b2 # b3 # rest"
    using assms by (auto simp: numeral_eq_Suc Suc_le_length_iff)
  have "ucast (drop_bit (8 * k) (ReadLE32 bs)) = bs ! k" if "k < 4" for k
  proof (rule bit_word_eqI)
    fix n :: nat
    assume "n < LENGTH(8)"
    moreover from that have "k = 0 \<or> k = 1 \<or> k = 2 \<or> k = 3" by auto
    ultimately show "bit (ucast (drop_bit (8 * k) (ReadLE32 bs)) :: u8) n = bit (bs ! k) n"
      by (auto simp: ReadLE32_def bs bit_simps dest: bit_imp_le_length)
  qed
  from this [of 0] this [of 1] this [of 2] this [of 3] show ?thesis
    by (simp add: WriteLE32_def bs)
qed

lemma length_WriteLE32 [simp]: "length (WriteLE32 x) = 4"
  by (simp add: WriteLE32_def)

lemma drop_concat_WriteLE32:
  "n \<le> length a \<Longrightarrow> drop (n * 4) (concat (map WriteLE32 a)) = concat (map WriteLE32 (drop n a))"
proof (induction n arbitrary: a)
  case (Suc n)
  then show ?case by (cases a) simp_all
qed simp

lemma UintToArith256_ArithToUint256:
  assumes "length a = WIDTH"
  shows "UintToArith256 (ArithToUint256 a) = a"
proof (rule nth_equalityI)
  fix i
  assume "i < length (UintToArith256 (ArithToUint256 a))"
  then have i: "i < length a" using assms by (simp add: UintToArith256_def)
  then show "UintToArith256 (ArithToUint256 a) ! i = a ! i"
    using assms
    by (simp add: UintToArith256_def ArithToUint256_def drop_concat_WriteLE32 Cons_nth_drop_Suc [symmetric])
qed (simp add: UintToArith256_def assms)

lemma concat_take4:
  "length bs = 4 * n \<Longrightarrow> concat (map (\<lambda>x. take 4 (drop (x * 4) bs)) [0..<n]) = bs"
proof (induction n arbitrary: bs)
  case (Suc n)
  have "map (\<lambda>x. take 4 (drop (x * 4) bs)) [0..<Suc n] =
      take 4 bs # map (\<lambda>x. take 4 (drop (x * 4) (drop 4 bs))) [0..<n]"
    by (simp add: upt_conv_Cons map_Suc_upt [symmetric] comp_def add.commute del: upt_Suc)
  moreover have "concat (map (\<lambda>x. take 4 (drop (x * 4) (drop 4 bs))) [0..<n]) = drop 4 bs"
    using Suc.prems by (intro Suc.IH) simp
  ultimately show ?case by simp
qed simp

lemma ArithToUint256_UintToArith256:
  assumes "length bs = 32"
  shows "ArithToUint256 (UintToArith256 bs) = bs"
proof -
  have "map WriteLE32 (UintToArith256 bs) = map (\<lambda>x. take 4 (drop (x * 4) bs)) [0..<8]"
    using assms by (simp add: UintToArith256_def WIDTH_def)
  then show ?thesis using concat_take4 [of bs 8] assms by (simp add: ArithToUint256_def)
qed

lemma length_UintToArith256 [simp]: "length (UintToArith256 bs) = WIDTH"
  by (simp add: UintToArith256_def)

section \<open>The interface the consensus code relies on\<close>

text \<open>
  What \<^verbatim>\<open>pow.cpp\<close> and \<^verbatim>\<open>chain.cpp\<close> use of the number type: a value in \<open>[0, 2 ^ 256)\<close>, the
  operators as arithmetic modulo \<open>2 ^ 256\<close>, a comparison that orders by value and a division
  that fails exactly on a zero divisor.
\<close>

locale uint256_arith =
  fixes num :: "'u \<Rightarrow> int" and ok :: "'u \<Rightarrow> bool"
    and of64 :: "u64 \<Rightarrow> 'u" and compl :: "'u \<Rightarrow> 'u"
    and add sub mul :: "'u \<Rightarrow> 'u \<Rightarrow> 'u"
    and quot :: "'u \<Rightarrow> 'u \<Rightarrow> 'e + 'u" and cmp :: "'u \<Rightarrow> 'u \<Rightarrow> int"
  assumes num_range: "ok a \<Longrightarrow> 0 \<le> num a \<and> num a < 2 ^ 256"
    and of64_law: "ok (of64 w) \<and> num (of64 w) = uint w"
    and compl_law: "ok a \<Longrightarrow> ok (compl a) \<and> num (compl a) = 2 ^ 256 - 1 - num a"
    and add_law: "ok a \<Longrightarrow> ok b \<Longrightarrow> ok (add a b) \<and> num (add a b) = (num a + num b) mod 2 ^ 256"
    and sub_law: "ok a \<Longrightarrow> ok b \<Longrightarrow> ok (sub a b) \<and> num (sub a b) = (num a - num b) mod 2 ^ 256"
    and mul_law: "ok a \<Longrightarrow> ok b \<Longrightarrow> ok (mul a b) \<and> num (mul a b) = (num a * num b) mod 2 ^ 256"
    and quot_zero: "ok a \<Longrightarrow> ok b \<Longrightarrow> num b = 0 \<Longrightarrow> \<exists>e. quot a b = Inl e"
    and quot_law: "ok a \<Longrightarrow> ok b \<Longrightarrow> num b \<noteq> 0 \<Longrightarrow>
      \<exists>q. quot a b = Inr q \<and> ok q \<and> num q = num a div num b"
    and cmp_law: "ok a \<Longrightarrow> ok b \<Longrightarrow> cmp a b = sgn (num a - num b)"
begin

lemma quot_cases:
  assumes "ok a" "ok b"
  obtains (zero) e where "num b = 0" and "quot a b = Inl e"
  | (exact) q where "num b \<noteq> 0" and "quot a b = Inr q" and "ok q" and "num q = num a div num b"
  using quot_zero [OF assms] quot_law [OF assms] by blast

lemma cmp_simps:
  assumes "ok a" "ok b"
  shows "cmp a b > 0 \<longleftrightarrow> num a > num b" and "cmp a b \<le> 0 \<longleftrightarrow> num a \<le> num b"
    and "cmp a b \<ge> 0 \<longleftrightarrow> num a \<ge> num b" and "cmp a b < 0 \<longleftrightarrow> num a < num b"
  using assms by (simp_all add: cmp_law sgn_if)

text \<open>
  The work of a target \<open>t\<close>: the expression \<open>~t / (t + 1) + 1\<close> is \<open>2 ^ 256 div (t + 1)\<close>,
  without ever representing \<open>2 ^ 256\<close>.
\<close>

lemma work_value:
  assumes t: "ok t" and low: "0 < num t" and high: "num t < 2 ^ 256 - 1"
  shows "\<exists>q. quot (compl t) (add t (of64 1)) = Inr q \<and> ok (add q (of64 1)) \<and>
     num (add q (of64 1)) = 2 ^ 256 div (num t + 1)"
proof -
  have d: "ok (add t (of64 1))" "num (add t (of64 1)) = num t + 1"
    using t low high add_law [OF t, of "of64 1"] of64_law [of 1] by simp_all
  have n: "ok (compl t)" "num (compl t) = 2 ^ 256 - 1 - num t" using compl_law [OF t] by simp_all
  obtain q where q: "quot (compl t) (add t (of64 1)) = Inr q" "ok q"
    "num q = (2 ^ 256 - 1 - num t) div (num t + 1)"
    using quot_law [OF n(1) d(1)] d(2) n(2) low by auto
  have "2 ^ 256 = (2 ^ 256 - 1 - num t) + 1 * (num t + 1)" by simp
  then have work: "2 ^ 256 div (num t + 1) = num q + 1"
    unfolding q(3) using low by (metis add.commute div_mult_self1 less_add_one not_less_iff_gr_or_eq
      order_less_trans zero_less_one)
  have "num q + 1 < 2 ^ 256"
    using work low int_div_lessI [of "2 ^ 256" "2 ^ 256" "num t + 1"] by simp
  moreover have "0 \<le> num q" using num_range [OF q(2)] by simp
  ultimately have "ok (add q (of64 1)) \<and> num (add q (of64 1)) = num q + 1"
    using add_law [OF q(2), of "of64 1"] of64_law [of 1] by simp
  with q(1) work show ?thesis by auto
qed

end

interpretation limbs: uint256_arith bn wf_uint base_uint_of_u64 op_not op_add op_sub op_mul op_div CompareTo
proof unfold_locales
  fix a b :: base_uint and w :: u64
  show "wf_uint a \<Longrightarrow> 0 \<le> bn a \<and> bn a < 2 ^ 256"
    using bn_bound [of a] by (simp add: wf_uint_def)
  show "wf_uint (base_uint_of_u64 w) \<and> bn (base_uint_of_u64 w) = uint w" by (simp add: wf_uint_def)
  show "wf_uint a \<Longrightarrow> wf_uint (op_not a) \<and> bn (op_not a) = 2 ^ 256 - 1 - bn a"
    by (simp add: wf_uint_def bn_op_not)
  assume wf: "wf_uint a" "wf_uint b"
  then show "wf_uint (op_add a b) \<and> bn (op_add a b) = (bn a + bn b) mod 2 ^ 256"
    and "wf_uint (op_sub a b) \<and> bn (op_sub a b) = (bn a - bn b) mod 2 ^ 256"
    and "wf_uint (op_mul a b) \<and> bn (op_mul a b) = (bn a * bn b) mod 2 ^ 256"
    by (simp_all add: wf_uint_def bn_op_add bn_op_sub bn_op_mul length_op_mul)
  show "bn b = 0 \<Longrightarrow> \<exists>e. op_div a b = Inl e"
    and "bn b \<noteq> 0 \<Longrightarrow> \<exists>q. op_div a b = Inr q \<and> wf_uint q \<and> bn q = bn a div bn b"
    using op_div_correct [of a b] wf by (auto simp: wf_uint_def)
  show "CompareTo a b = sgn (bn a - bn b)"
    using wf by (simp add: wf_uint_def CompareTo_bn sgn_if)
qed


section \<open>Properties\<close>

text \<open>
  C40: the limb loops of \<^verbatim>\<open>operator+=\<close>, \<^verbatim>\<open>operator-=\<close>, \<^verbatim>\<open>operator*=\<close> (both overloads),
  \<^verbatim>\<open>operator++\<close> and \<^verbatim>\<open>operator--\<close> compute addition, subtraction, multiplication, increment and
  decrement modulo \<open>2 ^ 256\<close> on every pair of eight-limb numbers, carries and wrap-around
  included.
\<close>

theorem limb_arithmetic_is_modular:
  assumes "wf_uint a" and "wf_uint b"
  shows "bn (op_add a b) = (bn a + bn b) mod 2 ^ 256 \<and>
     bn (op_sub a b) = (bn a - bn b) mod 2 ^ 256 \<and>
     bn (op_mul a b) = (bn a * bn b) mod 2 ^ 256 \<and>
     bn (op_mul32 a c) = (bn a * uint c) mod 2 ^ 256 \<and>
     bn (op_inc a) = (bn a + 1) mod 2 ^ 256 \<and>
     bn (op_dec a) = (bn a - 1) mod 2 ^ 256"
proof -
  have len: "length a = WIDTH" and w: "32 * WIDTH = 256"
    using assms by (simp_all add: wf_uint_def) (simp add: WIDTH_def)
  show ?thesis
    using limbs.add_law [OF assms] limbs.sub_law [OF assms] limbs.mul_law [OF assms]
      bn_op_inc [of a] bn_op_dec [of a]
    by (simp only: len w bn_op_mul32)
qed

theorem limb_arithmetic_is_modular_witness:
  "bn (op_sub (base_uint_of_u64 5) (base_uint_of_u64 7)) = (5 - 7) mod 2 ^ 256"
  using limb_arithmetic_is_modular [of "base_uint_of_u64 5" "base_uint_of_u64 7"]
  by (simp add: wf_uint_def)

text \<open>
  \<^verbatim>\<open>operator<<=\<close> multiplies by a power of two modulo \<open>2 ^ 256\<close> and \<^verbatim>\<open>operator>>=\<close>
  divides by it, for every shift distance, multiples of the limb width and distances past the
  whole number included.
\<close>

lemma limb_shifts_scale:
  assumes "wf_uint a"
  shows "bn (op_shl a shift) = (bn a * 2 ^ shift) mod 2 ^ 256 \<and>
     bn (op_shr a shift) = bn a div 2 ^ shift"
  using assms by (simp only: wf_uint_def bn_op_shl bn_op_shr simp_thms)

text \<open>
  C30: the bitwise long division of \<^verbatim>\<open>operator/=\<close> throws exactly when the divisor is zero and
  otherwise returns the exact integer quotient.
\<close>

theorem long_division_exact:
  assumes "wf_uint a" and "wf_uint b"
  shows "if bn b = 0 then op_div a b = Inl Division_by_zero
         else (\<exists>q. op_div a b = Inr q \<and> wf_uint q \<and> bn q = bn a div bn b)"
  using op_div_correct [of a b] assms by (simp add: wf_uint_def)

theorem long_division_exact_witness:
  "\<exists>q. op_div (base_uint_of_u64 1000) (base_uint_of_u64 7) = Inr q \<and> bn q = 142"
  using long_division_exact [of "base_uint_of_u64 1000" "base_uint_of_u64 7"]
  by (auto simp: wf_uint_def)

text \<open>
  C35: \<^verbatim>\<open>SetCompact\<close> raises its overflow flag exactly when the number the compact word denotes
  does not fit 256 bits, and returns that number modulo \<open>2 ^ 256\<close>; the negative flag is the sign bit
  of a nonzero number.
\<close>

theorem SetCompact_flags_exact:
  "case SetCompact c of (r, fNegative, fOverflow) \<Rightarrow>
     wf_uint r \<and> bn r = compact_value c mod 2 ^ 256 \<and>
     (fOverflow \<longleftrightarrow> 2 ^ 256 \<le> compact_value c) \<and>
     (fNegative \<longleftrightarrow> compact_value c \<noteq> 0 \<and> bit c 23)"
proof -
  obtain r neg ovf where r: "SetCompact c = (r, neg, ovf)" "length r = WIDTH"
    "bn r = compact_value c mod 2 ^ 256" "ovf \<longleftrightarrow> 2 ^ 256 \<le> compact_value c"
    "neg \<longleftrightarrow> compact_value c \<noteq> 0 \<and> bit c 23"
    using SetCompact_eq by blast
  then show ?thesis by (simp add: wf_uint_def)
qed

text \<open>
  C16: \<^verbatim>\<open>GetCompact\<close> never fails one of its assertions; decoding its result gives, with
  neither flag set, the number rounded down with a relative error below \<open>2 ^ -15\<close>; and encoding
  the decoded number again gives the same compact word.
\<close>

theorem compact_encoding_rounds_down:
  assumes "wf_uint a"
  shows "\<exists>c r. GetCompact a False = Some c \<and> SetCompact c = (r, False, False) \<and> wf_uint r \<and>
     bn r \<le> bn a \<and> (bn a - bn r) * 2 ^ 15 \<le> bn a \<and> GetCompact r False = Some c"
proof -
  have len: "length a = WIDTH" using assms by (simp add: wf_uint_def)
  obtain c r where cr: "GetCompact a False = Some c" "SetCompact c = (r, False, False)"
    "length r = WIDTH" "bn r = bn a div 256 ^ (expo a - 3) * 256 ^ (expo a - 3)"
    "GetCompact r False = Some c"
    using compact_round_trip [OF len] by blast
  have "bn r \<le> bn a" unfolding cr(4) by (rule int_div_mult_le) simp
  moreover have "(bn a - bn r) * 2 ^ 15 \<le> bn a" unfolding cr(4) by (rule round_error)
  ultimately show ?thesis using cr by (auto simp: wf_uint_def)
qed

theorem compact_encoding_rounds_down_witness:
  "\<exists>c r. GetCompact (base_uint_of_u64 0x1234567890) False = Some c \<and>
     SetCompact c = (r, False, False) \<and> bn r \<le> 0x1234567890"
  using compact_encoding_rounds_down [of "base_uint_of_u64 0x1234567890"]
  by (auto simp: wf_uint_def)

end
