(* ===== verification/Script.thy ===== *)
theory Script
  imports Serialize ArithUint256
begin

text \<open>
  Scripts (src/src/script/script.h, script.cpp): the opcodes, script numbers, the
  reader of operations, the builders, the scanners that count signature operations,
  the templates of standard outputs, and the editing of OP_SENDER signatures.

  An opcode is the byte the enumeration gives it.  A script is its byte list and an
  iterator into a script is the list of bytes from there to the end.
\<close>

section \<open>Opcodes\<close>

type_synonym opcodetype = u8

abbreviation OP_0 :: opcodetype where "OP_0 \<equiv> 0x00"
abbreviation OP_FALSE :: opcodetype where "OP_FALSE \<equiv> 0x00"
abbreviation OP_PUSHDATA1 :: opcodetype where "OP_PUSHDATA1 \<equiv> 0x4c"
abbreviation OP_PUSHDATA2 :: opcodetype where "OP_PUSHDATA2 \<equiv> 0x4d"
abbreviation OP_PUSHDATA4 :: opcodetype where "OP_PUSHDATA4 \<equiv> 0x4e"
abbreviation OP_1NEGATE :: opcodetype where "OP_1NEGATE \<equiv> 0x4f"
abbreviation OP_RESERVED :: opcodetype where "OP_RESERVED \<equiv> 0x50"
abbreviation OP_1 :: opcodetype where "OP_1 \<equiv> 0x51"
abbreviation OP_TRUE :: opcodetype where "OP_TRUE \<equiv> 0x51"
abbreviation OP_2 :: opcodetype where "OP_2 \<equiv> 0x52"
abbreviation OP_3 :: opcodetype where "OP_3 \<equiv> 0x53"
abbreviation OP_4 :: opcodetype where "OP_4 \<equiv> 0x54"
abbreviation OP_5 :: opcodetype where "OP_5 \<equiv> 0x55"
abbreviation OP_6 :: opcodetype where "OP_6 \<equiv> 0x56"
abbreviation OP_7 :: opcodetype where "OP_7 \<equiv> 0x57"
abbreviation OP_8 :: opcodetype where "OP_8 \<equiv> 0x58"
abbreviation OP_9 :: opcodetype where "OP_9 \<equiv> 0x59"
abbreviation OP_10 :: opcodetype where "OP_10 \<equiv> 0x5a"
abbreviation OP_11 :: opcodetype where "OP_11 \<equiv> 0x5b"
abbreviation OP_12 :: opcodetype where "OP_12 \<equiv> 0x5c"
abbreviation OP_13 :: opcodetype where "OP_13 \<equiv> 0x5d"
abbreviation OP_14 :: opcodetype where "OP_14 \<equiv> 0x5e"
abbreviation OP_15 :: opcodetype where "OP_15 \<equiv> 0x5f"
abbreviation OP_16 :: opcodetype where "OP_16 \<equiv> 0x60"
abbreviation OP_NOP :: opcodetype where "OP_NOP \<equiv> 0x61"
abbreviation OP_VER :: opcodetype where "OP_VER \<equiv> 0x62"
abbreviation OP_IF :: opcodetype where "OP_IF \<equiv> 0x63"
abbreviation OP_NOTIF :: opcodetype where "OP_NOTIF \<equiv> 0x64"
abbreviation OP_VERIF :: opcodetype where "OP_VERIF \<equiv> 0x65"
abbreviation OP_VERNOTIF :: opcodetype where "OP_VERNOTIF \<equiv> 0x66"
abbreviation OP_ELSE :: opcodetype where "OP_ELSE \<equiv> 0x67"
abbreviation OP_ENDIF :: opcodetype where "OP_ENDIF \<equiv> 0x68"
abbreviation OP_VERIFY :: opcodetype where "OP_VERIFY \<equiv> 0x69"
abbreviation OP_RETURN :: opcodetype where "OP_RETURN \<equiv> 0x6a"
abbreviation OP_TOALTSTACK :: opcodetype where "OP_TOALTSTACK \<equiv> 0x6b"
abbreviation OP_FROMALTSTACK :: opcodetype where "OP_FROMALTSTACK \<equiv> 0x6c"
abbreviation OP_2DROP :: opcodetype where "OP_2DROP \<equiv> 0x6d"
abbreviation OP_2DUP :: opcodetype where "OP_2DUP \<equiv> 0x6e"
abbreviation OP_3DUP :: opcodetype where "OP_3DUP \<equiv> 0x6f"
abbreviation OP_2OVER :: opcodetype where "OP_2OVER \<equiv> 0x70"
abbreviation OP_2ROT :: opcodetype where "OP_2ROT \<equiv> 0x71"
abbreviation OP_2SWAP :: opcodetype where "OP_2SWAP \<equiv> 0x72"
abbreviation OP_IFDUP :: opcodetype where "OP_IFDUP \<equiv> 0x73"
abbreviation OP_DEPTH :: opcodetype where "OP_DEPTH \<equiv> 0x74"
abbreviation OP_DROP :: opcodetype where "OP_DROP \<equiv> 0x75"
abbreviation OP_DUP :: opcodetype where "OP_DUP \<equiv> 0x76"
abbreviation OP_NIP :: opcodetype where "OP_NIP \<equiv> 0x77"
abbreviation OP_OVER :: opcodetype where "OP_OVER \<equiv> 0x78"
abbreviation OP_PICK :: opcodetype where "OP_PICK \<equiv> 0x79"
abbreviation OP_ROLL :: opcodetype where "OP_ROLL \<equiv> 0x7a"
abbreviation OP_ROT :: opcodetype where "OP_ROT \<equiv> 0x7b"
abbreviation OP_SWAP :: opcodetype where "OP_SWAP \<equiv> 0x7c"
abbreviation OP_TUCK :: opcodetype where "OP_TUCK \<equiv> 0x7d"
abbreviation OP_CAT :: opcodetype where "OP_CAT \<equiv> 0x7e"
abbreviation OP_SUBSTR :: opcodetype where "OP_SUBSTR \<equiv> 0x7f"
abbreviation OP_LEFT :: opcodetype where "OP_LEFT \<equiv> 0x80"
abbreviation OP_RIGHT :: opcodetype where "OP_RIGHT \<equiv> 0x81"
abbreviation OP_SIZE :: opcodetype where "OP_SIZE \<equiv> 0x82"
abbreviation OP_INVERT :: opcodetype where "OP_INVERT \<equiv> 0x83"
abbreviation OP_AND :: opcodetype where "OP_AND \<equiv> 0x84"
abbreviation OP_OR :: opcodetype where "OP_OR \<equiv> 0x85"
abbreviation OP_XOR :: opcodetype where "OP_XOR \<equiv> 0x86"
abbreviation OP_EQUAL :: opcodetype where "OP_EQUAL \<equiv> 0x87"
abbreviation OP_EQUALVERIFY :: opcodetype where "OP_EQUALVERIFY \<equiv> 0x88"
abbreviation OP_RESERVED1 :: opcodetype where "OP_RESERVED1 \<equiv> 0x89"
abbreviation OP_RESERVED2 :: opcodetype where "OP_RESERVED2 \<equiv> 0x8a"
abbreviation OP_1ADD :: opcodetype where "OP_1ADD \<equiv> 0x8b"
abbreviation OP_1SUB :: opcodetype where "OP_1SUB \<equiv> 0x8c"
abbreviation OP_2MUL :: opcodetype where "OP_2MUL \<equiv> 0x8d"
abbreviation OP_2DIV :: opcodetype where "OP_2DIV \<equiv> 0x8e"
abbreviation OP_NEGATE :: opcodetype where "OP_NEGATE \<equiv> 0x8f"
abbreviation OP_ABS :: opcodetype where "OP_ABS \<equiv> 0x90"
abbreviation OP_NOT :: opcodetype where "OP_NOT \<equiv> 0x91"
abbreviation OP_0NOTEQUAL :: opcodetype where "OP_0NOTEQUAL \<equiv> 0x92"
abbreviation OP_ADD :: opcodetype where "OP_ADD \<equiv> 0x93"
abbreviation OP_SUB :: opcodetype where "OP_SUB \<equiv> 0x94"
abbreviation OP_MUL :: opcodetype where "OP_MUL \<equiv> 0x95"
abbreviation OP_DIV :: opcodetype where "OP_DIV \<equiv> 0x96"
abbreviation OP_MOD :: opcodetype where "OP_MOD \<equiv> 0x97"
abbreviation OP_LSHIFT :: opcodetype where "OP_LSHIFT \<equiv> 0x98"
abbreviation OP_RSHIFT :: opcodetype where "OP_RSHIFT \<equiv> 0x99"
abbreviation OP_BOOLAND :: opcodetype where "OP_BOOLAND \<equiv> 0x9a"
abbreviation OP_BOOLOR :: opcodetype where "OP_BOOLOR \<equiv> 0x9b"
abbreviation OP_NUMEQUAL :: opcodetype where "OP_NUMEQUAL \<equiv> 0x9c"
abbreviation OP_NUMEQUALVERIFY :: opcodetype where "OP_NUMEQUALVERIFY \<equiv> 0x9d"
abbreviation OP_NUMNOTEQUAL :: opcodetype where "OP_NUMNOTEQUAL \<equiv> 0x9e"
abbreviation OP_LESSTHAN :: opcodetype where "OP_LESSTHAN \<equiv> 0x9f"
abbreviation OP_GREATERTHAN :: opcodetype where "OP_GREATERTHAN \<equiv> 0xa0"
abbreviation OP_LESSTHANOREQUAL :: opcodetype where "OP_LESSTHANOREQUAL \<equiv> 0xa1"
abbreviation OP_GREATERTHANOREQUAL :: opcodetype where "OP_GREATERTHANOREQUAL \<equiv> 0xa2"
abbreviation OP_MIN :: opcodetype where "OP_MIN \<equiv> 0xa3"
abbreviation OP_MAX :: opcodetype where "OP_MAX \<equiv> 0xa4"
abbreviation OP_WITHIN :: opcodetype where "OP_WITHIN \<equiv> 0xa5"
abbreviation OP_RIPEMD160 :: opcodetype where "OP_RIPEMD160 \<equiv> 0xa6"
abbreviation OP_SHA1 :: opcodetype where "OP_SHA1 \<equiv> 0xa7"
abbreviation OP_SHA256 :: opcodetype where "OP_SHA256 \<equiv> 0xa8"
abbreviation OP_HASH160 :: opcodetype where "OP_HASH160 \<equiv> 0xa9"
abbreviation OP_HASH256 :: opcodetype where "OP_HASH256 \<equiv> 0xaa"
abbreviation OP_CODESEPARATOR :: opcodetype where "OP_CODESEPARATOR \<equiv> 0xab"
abbreviation OP_CHECKSIG :: opcodetype where "OP_CHECKSIG \<equiv> 0xac"
abbreviation OP_CHECKSIGVERIFY :: opcodetype where "OP_CHECKSIGVERIFY \<equiv> 0xad"
abbreviation OP_CHECKMULTISIG :: opcodetype where "OP_CHECKMULTISIG \<equiv> 0xae"
abbreviation OP_CHECKMULTISIGVERIFY :: opcodetype where "OP_CHECKMULTISIGVERIFY \<equiv> 0xaf"
abbreviation OP_NOP1 :: opcodetype where "OP_NOP1 \<equiv> 0xb0"
abbreviation OP_CHECKLOCKTIMEVERIFY :: opcodetype where "OP_CHECKLOCKTIMEVERIFY \<equiv> 0xb1"
abbreviation OP_NOP2 :: opcodetype where "OP_NOP2 \<equiv> 0xb1"
abbreviation OP_CHECKSEQUENCEVERIFY :: opcodetype where "OP_CHECKSEQUENCEVERIFY \<equiv> 0xb2"
abbreviation OP_NOP3 :: opcodetype where "OP_NOP3 \<equiv> 0xb2"
abbreviation OP_NOP4 :: opcodetype where "OP_NOP4 \<equiv> 0xb3"
abbreviation OP_NOP5 :: opcodetype where "OP_NOP5 \<equiv> 0xb4"
abbreviation OP_NOP6 :: opcodetype where "OP_NOP6 \<equiv> 0xb5"
abbreviation OP_NOP7 :: opcodetype where "OP_NOP7 \<equiv> 0xb6"
abbreviation OP_NOP8 :: opcodetype where "OP_NOP8 \<equiv> 0xb7"
abbreviation OP_NOP9 :: opcodetype where "OP_NOP9 \<equiv> 0xb8"
abbreviation OP_NOP10 :: opcodetype where "OP_NOP10 \<equiv> 0xb9"
abbreviation OP_CREATE :: opcodetype where "OP_CREATE \<equiv> 0xc1"
abbreviation OP_CALL :: opcodetype where "OP_CALL \<equiv> 0xc2"
abbreviation OP_SPEND :: opcodetype where "OP_SPEND \<equiv> 0xc3"
abbreviation OP_SENDER :: opcodetype where "OP_SENDER \<equiv> 0xc4"
abbreviation OP_ADDRESS_TYPE :: opcodetype where "OP_ADDRESS_TYPE \<equiv> 0xf2"
abbreviation OP_ADDRESS :: opcodetype where "OP_ADDRESS \<equiv> 0xf3"
abbreviation OP_SCRIPT_SIG :: opcodetype where "OP_SCRIPT_SIG \<equiv> 0xf4"
abbreviation OP_GAS_PRICE :: opcodetype where "OP_GAS_PRICE \<equiv> 0xf5"
abbreviation OP_VERSION :: opcodetype where "OP_VERSION \<equiv> 0xf6"
abbreviation OP_GAS_LIMIT :: opcodetype where "OP_GAS_LIMIT \<equiv> 0xf7"
abbreviation OP_DATA :: opcodetype where "OP_DATA \<equiv> 0xf8"
abbreviation OP_SMALLINTEGER :: opcodetype where "OP_SMALLINTEGER \<equiv> 0xfa"
abbreviation OP_PUBKEYS :: opcodetype where "OP_PUBKEYS \<equiv> 0xfb"
abbreviation OP_PUBKEYHASH :: opcodetype where "OP_PUBKEYHASH \<equiv> 0xfd"
abbreviation OP_PUBKEY :: opcodetype where "OP_PUBKEY \<equiv> 0xfe"
abbreviation OP_INVALIDOPCODE :: opcodetype where "OP_INVALIDOPCODE \<equiv> 0xff"
abbreviation MAX_OPCODE :: opcodetype where "MAX_OPCODE \<equiv> OP_NOP10"

section \<open>Constants\<close>

abbreviation MAX_SCRIPT_ELEMENT_SIZE :: nat where "MAX_SCRIPT_ELEMENT_SIZE \<equiv> 128000"
abbreviation MAX_OPS_PER_SCRIPT :: int where "MAX_OPS_PER_SCRIPT \<equiv> 201"
abbreviation MAX_PUBKEYS_PER_MULTISIG :: int where "MAX_PUBKEYS_PER_MULTISIG \<equiv> 20"
abbreviation MAX_SCRIPT_SIZE :: nat where "MAX_SCRIPT_SIZE \<equiv> 129000"
abbreviation MAX_BASE_SCRIPT_SIZE :: nat where "MAX_BASE_SCRIPT_SIZE \<equiv> 10000"
abbreviation MAX_STACK_SIZE :: nat where "MAX_STACK_SIZE \<equiv> 1000"
abbreviation LOCKTIME_THRESHOLD :: u32 where "LOCKTIME_THRESHOLD \<equiv> 500000000"
abbreviation LOCKTIME_MAX :: u32 where "LOCKTIME_MAX \<equiv> 0xffffffff"

section \<open>Script numbers\<close>

text \<open>A \<open>CScriptNum\<close> is its 64-bit value.  The conversions throw \<open>scriptnum_error\<close>.\<close>

datatype scriptnum_error = Script_number_overflow | Non_minimal_number | Negative_gas_value

type_synonym CScriptNum = int

definition set_vch :: "bytes \<Rightarrow> int" where
  "set_vch vch =
     (if vch = [] then 0
      else let result = of_le_bytes vch :: u64
        in if last vch AND 0x80 \<noteq> 0
           then - sint (result AND NOT (push_bit (8 * (length vch - 1)) 0x80))
           else sint result)"

definition CScriptNum_vch :: "bytes \<Rightarrow> bool \<Rightarrow> nat \<Rightarrow> scriptnum_error + CScriptNum" where
  "CScriptNum_vch vch fRequireMinimal nMaxNumSize =
     (if length vch > nMaxNumSize then Inl Script_number_overflow
      else if fRequireMinimal \<and> length vch > 0 \<and> last vch AND 0x7f = 0 \<and>
              (length vch \<le> 1 \<or> vch ! (length vch - 2) AND 0x80 = 0)
      then Inl Non_minimal_number
      else Inr (set_vch vch))"

text \<open>The loop that pushes the bytes of the absolute value.\<close>

function serialize_loop :: "u64 \<Rightarrow> bytes" where
  "serialize_loop absvalue =
     (if absvalue = 0 then [] else ucast (absvalue AND 0xff) # serialize_loop (drop_bit 8 absvalue))"
  by pat_completeness auto
termination serialize_loop
proof (relation "measure unat")
  fix a :: u64
  assume "a \<noteq> 0"
  then have "0 < unat a" by (simp add: unat_gt_0)
  then show "(drop_bit 8 a, a) \<in> measure unat"
    by (subst in_measure, subst unat_drop_bit_eq, subst drop_bit_eq_div) simp
qed simp

declare serialize_loop.simps [simp del]

definition CScriptNum_serialize :: "int \<Rightarrow> bytes" where
  "CScriptNum_serialize val =
     (if val = 0 then []
      else let neg = val < 0;
               absvalue = of_int (if neg then - val else val) :: u64;
               result = serialize_loop absvalue
        in if last result AND 0x80 \<noteq> 0 then result @ [if neg then 0x80 else 0]
           else if neg then butlast result @ [last result OR 0x80]
           else result)"

definition vch_to_uint64 :: "bytes \<Rightarrow> scriptnum_error + u64" where
  "vch_to_uint64 vch =
     (if length vch > 8 then Inl Script_number_overflow
      else if vch = [] then Inr 0
      else if last vch AND 0x80 \<noteq> 0 then Inl Negative_gas_value
      else Inr (of_le_bytes vch))"

definition INT64_MIN :: int where "INT64_MIN = - (2 ^ 63)"
definition INT64_MAX :: int where "INT64_MAX = 2 ^ 63 - 1"

text \<open>The asserting operators of CScriptNum: None is a failed assertion.\<close>

definition CScriptNum_neg :: "CScriptNum \<Rightarrow> CScriptNum option" where
  "CScriptNum_neg m_value = (if m_value \<noteq> INT64_MIN then Some (- m_value) else None)"

definition CScriptNum_add_eq :: "CScriptNum \<Rightarrow> int \<Rightarrow> CScriptNum option" where
  "CScriptNum_add_eq m_value rhs =
     (if rhs = 0 \<or> (rhs > 0 \<and> m_value \<le> INT64_MAX - rhs) \<or> (rhs < 0 \<and> m_value \<ge> INT64_MIN - rhs)
      then Some (m_value + rhs) else None)"

definition CScriptNum_sub_eq :: "CScriptNum \<Rightarrow> int \<Rightarrow> CScriptNum option" where
  "CScriptNum_sub_eq m_value rhs =
     (if rhs = 0 \<or> (rhs > 0 \<and> m_value \<ge> INT64_MIN + rhs) \<or> (rhs < 0 \<and> m_value \<le> INT64_MAX + rhs)
      then Some (m_value - rhs) else None)"

definition getint :: "CScriptNum \<Rightarrow> int" where
  "getint m_value =
     (if m_value > 2 ^ 31 - 1 then 2 ^ 31 - 1
      else if m_value < - (2 ^ 31) then - (2 ^ 31)
      else m_value)"

section \<open>Scripts\<close>

type_synonym CScript = bytes

text \<open>ReadLE16 and WriteLE16 of crypto/common.h.\<close>

definition ReadLE16 :: "bytes \<Rightarrow> u16" where
  "ReadLE16 ptr = ucast (ptr ! 0) OR push_bit 8 (ucast (ptr ! 1))"

definition WriteLE16 :: "u16 \<Rightarrow> bytes" where
  "WriteLE16 x = [ucast x, ucast (drop_bit 8 x)]"

text \<open>Reading one operation.  The iterator is the rest of the script; None stands for
  the result false; the one caller that looks at the iterator afterwards is modelled in \<open>SigHash\<close>.\<close>

definition GetScriptOp :: "bytes \<Rightarrow> (opcodetype \<times> bytes \<times> bytes) option" where
  "GetScriptOp pc = (case pc of [] \<Rightarrow> None | opcode # pc \<Rightarrow>
     if opcode \<le> OP_PUSHDATA4 then
       (case (if opcode < OP_PUSHDATA1 then Some (unat opcode, pc)
              else if opcode = OP_PUSHDATA1 then
                if length pc < 1 then None else Some (unat (hd pc), drop 1 pc)
              else if opcode = OP_PUSHDATA2 then
                if length pc < 2 then None else Some (unat (ReadLE16 pc), drop 2 pc)
              else if length pc < 4 then None else Some (unat (ReadLE32 pc), drop 4 pc))
        of None \<Rightarrow> None
         | Some (nSize, pc) \<Rightarrow>
             if length pc < nSize then None else Some (opcode, take nSize pc, drop nSize pc))
     else Some (opcode, [], pc))"

lemma GetScriptOp_less: "GetScriptOp pc = Some (opcode, vch, rest) \<Longrightarrow> length rest < length pc"
  by (auto simp: GetScriptOp_def split: list.splits if_splits)

subsection \<open>Building scripts\<close>

definition push_data :: "bytes \<Rightarrow> bytes" where
  "push_data b =
     (if length b < 0x4c then [of_nat (length b)]
      else if length b \<le> 0xff then [OP_PUSHDATA1, of_nat (length b)]
      else if length b \<le> 0xffff then OP_PUSHDATA2 # WriteLE16 (of_nat (length b))
      else OP_PUSHDATA4 # WriteLE32 (of_nat (length b))) @ b"

definition push_opcode :: "opcodetype \<Rightarrow> bytes" where
  "push_opcode opcode = [opcode]"

definition push_int64 :: "int \<Rightarrow> bytes" where
  "push_int64 n =
     (if n = - 1 \<or> (n \<ge> 1 \<and> n \<le> 16) then [of_int (n + (uint OP_1 - 1))]
      else if n = 0 then [OP_0]
      else push_data (CScriptNum_serialize n))"

definition DecodeOP_N :: "opcodetype \<Rightarrow> int option" where
  "DecodeOP_N opcode =
     (if opcode = OP_0 then Some 0
      else if opcode \<ge> OP_1 \<and> opcode \<le> OP_16 then Some (uint opcode - uint (OP_1 - 1))
      else None)"

definition EncodeOP_N :: "int \<Rightarrow> opcodetype option" where
  "EncodeOP_N n =
     (if n \<ge> 0 \<and> n \<le> 16 then Some (if n = 0 then OP_0 else OP_1 + of_int n - 1) else None)"

subsection \<open>Scanning scripts\<close>

function Find :: "opcodetype \<Rightarrow> CScript \<Rightarrow> int" where
  "Find op pc = (case GetScriptOp pc of None \<Rightarrow> 0
     | Some (opcode, vch, pc') \<Rightarrow> (if opcode = op then 1 else 0) + Find op pc')"
  by pat_completeness auto
termination Find
  by (relation "measure (\<lambda>(_, pc). length pc)") (auto dest: GetScriptOp_less)

text \<open>The counting loop of GetSigOpCount, with the count in the width of unsigned int.\<close>

function sigop_loop :: "bool \<Rightarrow> opcodetype \<Rightarrow> CScript \<Rightarrow> u32 \<Rightarrow> u32" where
  "sigop_loop fAccurate lastOpcode pc n = (case GetScriptOp pc of None \<Rightarrow> n
     | Some (opcode, vch, pc') \<Rightarrow>
         sigop_loop fAccurate opcode pc'
           (if opcode = OP_CHECKSIG \<or> opcode = OP_CHECKSIGVERIFY then n + 1
            else if opcode = OP_CHECKMULTISIG \<or> opcode = OP_CHECKMULTISIGVERIFY then
              if fAccurate \<and> lastOpcode \<ge> OP_1 \<and> lastOpcode \<le> OP_16
              then n + of_int (uint lastOpcode - uint (OP_1 - 1))
              else n + of_int MAX_PUBKEYS_PER_MULTISIG
            else n))"
  by pat_completeness auto
termination sigop_loop
  by (relation "measure (\<lambda>(_, _, pc, _). length pc)") (auto dest: GetScriptOp_less)

definition GetSigOpCount :: "CScript \<Rightarrow> bool \<Rightarrow> u32" where
  "GetSigOpCount scr fAccurate = sigop_loop fAccurate OP_INVALIDOPCODE scr 0"

definition IsPayToScriptHash :: "CScript \<Rightarrow> bool" where
  "IsPayToScriptHash scr \<longleftrightarrow>
     length scr = 23 \<and> scr ! 0 = OP_HASH160 \<and> scr ! 1 = 0x14 \<and> scr ! 22 = OP_EQUAL"

text \<open>The last item a push-only scriptSig pushes.\<close>

function last_push :: "CScript \<Rightarrow> bytes \<Rightarrow> bytes option" where
  "last_push pc vData = (if pc = [] then Some vData else case GetScriptOp pc of None \<Rightarrow> None
     | Some (opcode, vData, pc') \<Rightarrow> if opcode > OP_16 then None else last_push pc' vData)"
  by pat_completeness auto
termination last_push
  by (relation "measure (\<lambda>(pc, _). length pc)") (auto dest: GetScriptOp_less)

definition GetSigOpCount_p2sh :: "CScript \<Rightarrow> CScript \<Rightarrow> u32" where
  "GetSigOpCount_p2sh scr scriptSig =
     (if \<not> IsPayToScriptHash scr then GetSigOpCount scr True
      else case last_push scriptSig [] of None \<Rightarrow> 0 | Some vData \<Rightarrow> GetSigOpCount vData True)"

function IsPushOnly :: "CScript \<Rightarrow> bool" where
  "IsPushOnly pc = (pc = [] \<or> (case GetScriptOp pc of None \<Rightarrow> False
     | Some (opcode, vch, pc') \<Rightarrow> \<not> opcode > OP_16 \<and> IsPushOnly pc'))"
  by pat_completeness auto
termination IsPushOnly
  by (relation "measure length") (auto dest: GetScriptOp_less)

function HasValidOps :: "CScript \<Rightarrow> bool" where
  "HasValidOps it = (it = [] \<or> (case GetScriptOp it of None \<Rightarrow> False
     | Some (opcode, item, it') \<Rightarrow>
         \<not> (opcode > MAX_OPCODE \<or> length item > MAX_SCRIPT_ELEMENT_SIZE) \<and> HasValidOps it'))"
  by pat_completeness auto
termination HasValidOps
  by (relation "measure length") (auto dest: GetScriptOp_less)

declare Find.simps [simp del] sigop_loop.simps [simp del] last_push.simps [simp del]
  IsPushOnly.simps [simp del] HasValidOps.simps [simp del]

subsection \<open>Script templates\<close>

definition IsPayToPubkey :: "CScript \<Rightarrow> bool" where
  "IsPayToPubkey scr \<longleftrightarrow>
     (length scr = 35 \<and> scr ! 0 = 33 \<and> scr ! 34 = OP_CHECKSIG \<and> (scr ! 1 = 0x02 \<or> scr ! 1 = 0x03)) \<or>
     (length scr = 67 \<and> scr ! 0 = 65 \<and> scr ! 66 = OP_CHECKSIG \<and> scr ! 1 = 0x04)"

definition IsPayToPubkeyHash :: "CScript \<Rightarrow> bool" where
  "IsPayToPubkeyHash scr \<longleftrightarrow>
     length scr = 25 \<and> scr ! 0 = OP_DUP \<and> scr ! 1 = OP_HASH160 \<and> scr ! 2 = 0x14 \<and>
     scr ! 23 = OP_EQUALVERIFY \<and> scr ! 24 = OP_CHECKSIG"

definition IsBurnt :: "CScript \<Rightarrow> bool" where
  "IsBurnt scr \<longleftrightarrow> IsPayToPubkeyHash scr \<and> (\<forall>i \<in> set [3..<23]. scr ! i = 0)"

definition IsPayToWitnessScriptHash :: "CScript \<Rightarrow> bool" where
  "IsPayToWitnessScriptHash scr \<longleftrightarrow> length scr = 34 \<and> scr ! 0 = OP_0 \<and> scr ! 1 = 0x20"

definition IsPayToWitnessPubkeyHash :: "CScript \<Rightarrow> bool" where
  "IsPayToWitnessPubkeyHash scr \<longleftrightarrow> length scr = 22 \<and> scr ! 0 = OP_0 \<and> scr ! 1 = 0x14"

definition IsWitnessProgram :: "CScript \<Rightarrow> (int \<times> bytes) option" where
  "IsWitnessProgram scr =
     (if length scr < 4 \<or> length scr > 42 then None
      else if scr ! 0 \<noteq> OP_0 \<and> (scr ! 0 < OP_1 \<or> scr ! 0 > OP_16) then None
      else if unat (scr ! 1) + 2 = length scr
      then map_option (\<lambda>version. (version, drop 2 scr)) (DecodeOP_N (scr ! 0))
      else None)"

definition IsUnspendable :: "CScript \<Rightarrow> bool" where
  "IsUnspendable scr \<longleftrightarrow> (length scr > 0 \<and> hd scr = OP_RETURN) \<or> length scr > MAX_SCRIPT_SIZE"

definition HasOpCreate :: "CScript \<Rightarrow> bool" where
  "HasOpCreate scr \<longleftrightarrow> Find OP_CREATE scr = 1"

definition HasOpCall :: "CScript \<Rightarrow> bool" where
  "HasOpCall scr \<longleftrightarrow> Find OP_CALL scr = 1"

definition HasOpSpend :: "CScript \<Rightarrow> bool" where
  "HasOpSpend scr \<longleftrightarrow> length scr = 1 \<and> hd scr = OP_SPEND"

definition HasOpSender :: "CScript \<Rightarrow> bool" where
  "HasOpSender scr \<longleftrightarrow> Find OP_SENDER scr = 1"

subsection \<open>Contract calls and sender signatures\<close>

text \<open>An access outside the script's buffer is a value of its own: the source would read
  foreign memory there.\<close>

datatype script_fault = Out_of_bounds

function dgp_loop :: "CScript \<Rightarrow> bytes \<Rightarrow> int \<Rightarrow> script_fault + bool" where
  "dgp_loop scr vContractData i =
     (if i > 0 then
        if i < int (length vContractData) then Inl Out_of_bounds
        else if take (length vContractData) (drop (nat i - length vContractData) scr) = vContractData
        then Inr True
        else if vContractData = [] then Inr True
        else dgp_loop scr vContractData (i - int (length vContractData))
      else Inr False)"
  by pat_completeness auto
termination dgp_loop
  by (relation "measure (\<lambda>(_, _, i). nat i)") (auto simp: length_greater_0_conv [symmetric] simp del: length_greater_0_conv)

declare dgp_loop.simps [simp del]

definition IsDGPContractCall :: "CScript \<Rightarrow> bytes \<Rightarrow> bytes \<Rightarrow> script_fault + bool" where
  "IsDGPContractCall scr vContractAddr vContractData =
     (if scr = [] then Inl Out_of_bounds
      else if last scr = OP_CALL then
        if length scr < 21 then Inl Out_of_bounds
        else if vContractAddr \<noteq> take 20 (drop (length scr - 21) scr) then Inr False
        else dgp_loop scr vContractData (int (length scr) - 22)
      else Inr False)"

text \<open>ReplaceParam collects the iterators after each operation; an iterator is the rest
  of the script from there.\<close>

function find_op_positions :: "opcodetype \<Rightarrow> bytes list \<Rightarrow> CScript \<Rightarrow> bytes list option" where
  "find_op_positions findOp opcodes pc = (case GetScriptOp pc of None \<Rightarrow> None
     | Some (opcode, vch, pc') \<Rightarrow>
         if opcode = findOp then Some opcodes else find_op_positions findOp (opcodes @ [pc']) pc')"
  by pat_completeness auto
termination find_op_positions
  by (relation "measure (\<lambda>(_, _, pc). length pc)") (auto dest: GetScriptOp_less)

declare find_op_positions.simps [simp del]

definition ReplaceParam :: "CScript \<Rightarrow> opcodetype \<Rightarrow> int \<Rightarrow> bytes \<Rightarrow> script_fault + CScript option" where
  "ReplaceParam scr findOp posBefore vchParam =
     (if posBefore < 0 then Inr None
      else case find_op_positions findOp [scr] scr of None \<Rightarrow> Inr None
        | Some opcodes \<Rightarrow>
            let size = int (length opcodes) in
            if size > posBefore + 1 then
              let firstPart = size - 1 - posBefore; secondPart = size - posBefore in
              if secondPart \<ge> size then Inl Out_of_bounds
              else Inr (Some (take (length scr - length (opcodes ! nat firstPart)) scr
                              @ push_data vchParam @ opcodes ! nat secondPart))
            else Inr None)"

definition UpdateSenderSig :: "CScript \<Rightarrow> bytes \<Rightarrow> script_fault + CScript option" where
  "UpdateSenderSig scr scriptSig = ReplaceParam scr OP_SENDER 1 scriptSig"

definition WithoutSenderSig :: "CScript \<Rightarrow> script_fault + CScript" where
  "WithoutSenderSig scr = (case UpdateSenderSig scr [] of Inl e \<Rightarrow> Inl e
     | Inr None \<Rightarrow> Inr scr | Inr (Some scriptRet) \<Rightarrow> Inr scriptRet)"

section \<open>Script numbers are a canonical code\<close>

primrec le_val :: "bytes \<Rightarrow> int" where
  "le_val [] = 0"
| "le_val (b # bs) = uint b + 256 * le_val bs"

lemma le_val_nonneg: "0 \<le> le_val bs"
  by (induction bs) simp_all

lemma le_val_append: "le_val (xs @ ys) = le_val xs + 256 ^ length xs * le_val ys"
  by (induction xs) (simp_all add: algebra_simps)

lemma le_val_less: "le_val bs < 256 ^ length bs"
proof (induction bs)
  case (Cons b bs)
  then show ?case using uint8_bound [of b] by simp
qed simp

lemma bit_le_val: "bit (le_val bs) i \<longleftrightarrow> i div 8 < length bs \<and> bit (bs ! (i div 8)) (i mod 8)"
proof (induction bs arbitrary: i)
  case (Cons b bs)
  have "le_val (b # bs) = concat_bit 8 (uint b) (le_val bs)"
    using uint8_bound [of b] by (simp add: concat_bit_eq push_bit_eq_mult take_bit_eq_mod)
  then have *: "bit (le_val (b # bs)) i = (if i < 8 then bit b i else bit (le_val bs) (i - 8))"
    by (auto simp: bit_concat_bit_iff bit_unsigned_iff)
  show ?case
  proof (cases "i < 8")
    case False
    then obtain j where "i = 8 + j" by (metis le_Suc_ex not_less)
    moreover from this have "i div 8 = Suc (j div 8)" "i mod 8 = j mod 8" by simp_all
    ultimately show ?thesis using * Cons.IH [of j] by (simp del: le_val.simps)
  qed (simp add: * del: le_val.simps)
qed simp

lemma uint_of_le_bytes:
  assumes "8 * length bs \<le> LENGTH('a)"
  shows "uint (of_le_bytes bs :: 'a::len word) = le_val bs"
proof (rule bit_eqI)
  fix i
  have "i div 8 < length bs \<Longrightarrow> i < LENGTH('a)" using assms by linarith
  then show "bit (uint (of_le_bytes bs :: 'a word)) i = bit (le_val bs) i"
    by (auto simp: bit_unsigned_iff bit_of_le_bytes bit_le_val)
qed

lemma sint_small: "uint (w :: u64) < 2 ^ 63 \<Longrightarrow> sint w = uint w"
  by (simp add: sint_uint signed_take_bit_eq_if_positive bit_iff_odd take_bit_int_eq_self)

lemma and_0x7f_byte: "uint ((b :: u8) AND 0x7f) = uint b mod 128"
  by (rule uint_and_0x7f)

lemma bit7_iff: "bit (b :: u8) 7 \<longleftrightarrow> 128 \<le> uint b"
proof -
  have "bit b 7 \<longleftrightarrow> odd (uint b div 128)"
    using bit_unsigned_iff [of b 7, where 'a = int] by (simp add: bit_iff_odd)
  moreover have "uint b div 128 = (if 128 \<le> uint b then 1 else 0)"
    using uint8_bound [of b] by auto
  ultimately show ?thesis by simp
qed

lemma le_val_top_less:
  assumes "length bs \<le> 7" "uint c < 128"
  shows "le_val (bs @ [c]) < 2 ^ 63"
proof -
  have "le_val (bs @ [c]) < 256 ^ length bs * (uint c + 1)"
    using le_val_less [of bs] by (simp add: le_val_append algebra_simps)
  also have "\<dots> \<le> 256 ^ 7 * 128"
    using assms uint8_bound [of c] by (intro mult_mono power_increasing) auto
  finally show ?thesis by simp
qed

lemma bit_push_sign: "bit (push_bit (8 * k) 0x80 :: u64) i \<longleftrightarrow> i = 8 * k + 7 \<and> i < 64"
proof -
  have "(0x80 :: u64) = 2 ^ 7" by simp
  then have "push_bit (8 * k) 0x80 = (2 ^ (8 * k + 7) :: u64)"
    by (simp only: push_bit_eq_mult power_add) (simp add: mult.commute)
  then show ?thesis by (auto simp only: bit_exp_iff possible_bit_word) auto
qed

lemma clear_sign:
  "of_le_bytes (bs @ [b]) AND NOT (push_bit (8 * length bs) 0x80) = (of_le_bytes (bs @ [b AND 0x7f]) :: u64)"
proof (rule bit_eqI)
  fix i
  assume i: "possible_bit TYPE(64 word) i"
  consider "i div 8 < length bs" | "i div 8 = length bs" | "length bs < i div 8" by linarith
  then show "bit (of_le_bytes (bs @ [b]) AND NOT (push_bit (8 * length bs) 0x80) :: u64) i =
      bit (of_le_bytes (bs @ [b AND 0x7f]) :: u64) i"
  proof cases
    case 1
    then show ?thesis by (auto simp: bit_and_iff bit_not_iff bit_push_sign bit_of_le_bytes nth_append)
  next
    case 2
    then have "i = 8 * length bs + i mod 8" using div_mult_mod_eq [of i 8] by simp
    moreover have "i mod 8 < 7 \<or> i mod 8 = 7" by linarith
    ultimately show ?thesis using i 2
      by (auto simp: bit_and_iff bit_not_iff bit_push_sign bit_of_le_bytes nth_append word_0x7f bit_mask_iff)
  next
    case 3
    then show ?thesis by (simp add: bit_and_iff bit_of_le_bytes)
  qed
qed

lemma set_vch_eq:
  assumes "length bs \<le> 7"
  shows "set_vch (bs @ [b]) =
    (if 128 \<le> uint b then - le_val (bs @ [b AND 0x7f]) else le_val (bs @ [b]))"
proof -
  have u: "uint (of_le_bytes (bs @ [c]) :: u64) = le_val (bs @ [c])" for c
    using assms by (intro uint_of_le_bytes) simp
  have "sint (of_le_bytes (bs @ [c]) :: u64) = le_val (bs @ [c])" if "uint c < 128" for c
    using le_val_top_less [OF assms that] by (simp only: u sint_small)
  moreover have "uint (b AND 0x7f) < 128" by (simp add: and_0x7f_byte)
  ultimately show ?thesis
    by (simp add: set_vch_def Let_def and_0x80_iff bit7_iff clear_sign not_le)
qed

lemma low_byte: "uint (ucast (a AND 0xff :: u64) :: u8) = uint a mod 256"
proof -
  have "(0xff :: u64) = mask 8" by (simp add: mask_eq_exp_minus_1)
  then have "uint (a AND 0xff) = uint a mod 256"
    by (simp only: unsigned_take_bit_eq flip: take_bit_eq_mask) (simp add: take_bit_eq_mod)
  then show ?thesis by (simp add: unsigned_ucast_eq take_bit_eq_mod)
qed

lemma le_val_serialize_loop: "le_val (serialize_loop a) = uint a"
proof (induction a rule: serialize_loop.induct)
  case (1 a)
  show ?case
  proof (cases "a = 0")
    case False
    have "uint (ucast (a AND 0xff) :: u8) = uint a mod 256" by (rule low_byte)
    then show ?thesis using 1 False
      by (subst serialize_loop.simps) (simp add: uint_drop_bit_word)
  qed (simp add: serialize_loop.simps)
qed

lemma le_val_pos: "bs \<noteq> [] \<Longrightarrow> last bs \<noteq> 0 \<Longrightarrow> 0 < le_val bs"
proof -
  assume bs: "bs \<noteq> []" "last bs \<noteq> 0"
  have "0 < uint (last bs)" using bs(2) by (simp add: word_neq_0_conv word_less_def)
  then have "0 < 256 ^ length (butlast bs) * uint (last bs)" by simp
  moreover have "le_val bs = le_val (butlast bs) + 256 ^ length (butlast bs) * uint (last bs)"
    using bs(1) le_val_append [of "butlast bs" "[last bs]"] by simp
  ultimately show ?thesis using le_val_nonneg [of "butlast bs"] by linarith
qed

lemma serialize_loop_unique:
  "le_val bs = uint a \<Longrightarrow> bs = [] \<or> last bs \<noteq> 0 \<Longrightarrow> serialize_loop a = bs"
proof (induction bs arbitrary: a)
  case (Cons b bs)
  have "0 < le_val (b # bs)" using Cons.prems by (intro le_val_pos) simp_all
  then have a: "a \<noteq> 0" using Cons.prems by auto
  have "uint a mod 256 = uint b" "uint a div 256 = le_val bs"
    using Cons.prems(1) uint8_bound [of b] by (auto simp flip: Cons.prems(1))
  then have "ucast (a AND 0xff) = b" "uint (drop_bit 8 a) = le_val bs"
    by (simp_all add: word_uint_eq_iff low_byte uint_drop_bit_word)
  moreover from this have "serialize_loop (drop_bit 8 a) = bs"
    using Cons by (cases "bs = []") simp_all
  ultimately show ?case using a by (subst serialize_loop.simps) simp
qed (simp add: serialize_loop.simps word_uint_eq_iff)

lemma serialize_loop_last: "a \<noteq> 0 \<Longrightarrow> serialize_loop a \<noteq> [] \<and> last (serialize_loop a) \<noteq> 0"
proof (induction a rule: serialize_loop.induct)
  case (1 a)
  show ?case
  proof (cases "drop_bit 8 a = 0")
    case True
    then have "uint a div 256 = 0" using uint_drop_bit_word [of 8 a] by simp
    then have "uint a mod 256 \<noteq> 0" using 1(2) by (auto simp: word_uint_eq_iff)
    then have "ucast (a AND 0xff) \<noteq> (0 :: u8)" by (metis low_byte unsigned_0)
    then show ?thesis using 1 True by (simp add: serialize_loop.simps [of a] serialize_loop.simps [of 0])
  next
    case False
    then show ?thesis using 1 by (simp add: serialize_loop.simps [of a])
  qed
qed


lemma of_int_abs:
  assumes "INT64_MIN < v" "v \<le> INT64_MAX"
  shows "uint (of_int (if v < 0 then - v else v) :: u64) = \<bar>v\<bar>" "\<bar>v\<bar> < 2 ^ 63"
proof -
  show "\<bar>v\<bar> < 2 ^ 63" using assms by (auto simp: INT64_MIN_def INT64_MAX_def)
  then show "uint (of_int (if v < 0 then - v else v) :: u64) = \<bar>v\<bar>"
    by (simp add: uint_word_of_int_eq take_bit_int_eq_self)
qed

lemma serialize_loop_abs:
  assumes "0 < uint a" "uint a < 2 ^ 63"
  obtains bs b where "serialize_loop a = bs @ [b]" "b \<noteq> 0" "length bs \<le> 7"
    "length bs = 7 \<Longrightarrow> uint b < 128" "le_val (bs @ [b]) = uint a"
proof -
  have "a \<noteq> 0" using assms by auto
  then obtain bs b where bs: "serialize_loop a = bs @ [b]" and b: "b \<noteq> 0"
    using serialize_loop_last [of a] by (metis append_butlast_last_id)
  then have v: "le_val (bs @ [b]) = uint a" using le_val_serialize_loop [of a] by simp
  have b1: "1 \<le> uint b" using b uint8_bound [of b] by (simp add: word_neq_0_conv word_less_def)
  have m: "256 ^ length bs * uint b \<le> uint a"
    using v le_val_nonneg [of bs] by (simp add: le_val_append)
  moreover have "256 ^ length bs * 1 \<le> 256 ^ length bs * uint b"
    using b1 by (intro mult_left_mono) simp_all
  ultimately have "256 ^ length bs < (2 :: int) ^ 63" using assms by linarith
  then have l: "length bs \<le> 7"
    using power_increasing [of 8 "length bs" "256 :: int"] by (cases "length bs \<le> 7") simp_all
  have "uint b < 128" if "length bs = 7"
    using m that assms by simp
  with that [OF bs b l _ v] show ?thesis by blast
qed

lemma low_bits:
  fixes b :: u8
  shows "uint b < 128 \<Longrightarrow> b AND 0x7f = b" "uint b < 128 \<Longrightarrow> (b OR 0x80) AND 0x7f = b"
    "128 \<le> uint (b OR 0x80)"
proof -
  have *: "i < 8 \<Longrightarrow> i < 7 \<or> i = 7" for i :: nat by linarith
  show "b AND 0x7f = b" if "uint b < 128"
    using that by (simp add: word_uint_eq_iff uint_and_0x7f del: uint_and)
  then show "(b OR 0x80) AND 0x7f = b" if "uint b < 128"
    using that bit7_iff [of b]
    by (intro bit_eqI) (auto simp: word_0x7f bit_and_iff bit_or_iff bit_mask_iff bit_0x80 simp del: bit_numeral_word_iff dest!: *)
  show "128 \<le> uint (b OR 0x80)"
    unfolding bit7_iff [symmetric] by (simp add: bit_or_iff bit_0x80)
qed

lemma CScriptNum_serialize_cases:
  assumes "INT64_MIN < v" "v \<le> INT64_MAX" "v \<noteq> 0"
  obtains bs b where "\<bar>v\<bar> = le_val (bs @ [b])" "b \<noteq> 0" "uint b < 128" "length bs \<le> 7"
      "CScriptNum_serialize v = bs @ [if v < 0 then b OR 0x80 else b]"
  | bs b where "\<bar>v\<bar> = le_val (bs @ [b])" "128 \<le> uint b" "length bs \<le> 6"
      "CScriptNum_serialize v = bs @ [b, if v < 0 then 0x80 else 0]"
proof -
  let ?a = "of_int (if v < 0 then - v else v) :: u64"
  have a: "uint ?a = \<bar>v\<bar>" "\<bar>v\<bar> < 2 ^ 63" using of_int_abs [OF assms(1,2)] by simp_all
  then have "0 < uint ?a" "uint ?a < 2 ^ 63" using assms(3) by simp_all
  then obtain bs b where bs: "serialize_loop ?a = bs @ [b]" "b \<noteq> 0" "length bs \<le> 7"
    "length bs = 7 \<Longrightarrow> uint b < 128" "le_val (bs @ [b]) = uint ?a"
    by (rule serialize_loop_abs) blast
  have s: "CScriptNum_serialize v =
      (if bit b 7 then (bs @ [b]) @ [if v < 0 then 0x80 else 0]
       else if v < 0 then bs @ [b OR 0x80] else bs @ [b])"
    by (simp only: CScriptNum_serialize_def Let_def bs(1) assms(3) if_False and_0x80_iff) simp
  show thesis
  proof (cases "uint b < 128")
    case True
    then show thesis using that(1) [of bs b] bs a s by (auto simp: bit7_iff)
  next
    case False
    then have "length bs \<le> 6" using bs(3,4) by (cases "length bs = 7") auto
    then show thesis using that(2) [of bs b] bs a s False by (auto simp: bit7_iff)
  qed
qed

lemma CScriptNum_round_trip:
  assumes "INT64_MIN < v" "v \<le> INT64_MAX" "length (CScriptNum_serialize v) \<le> nMax"
  shows "CScriptNum_vch (CScriptNum_serialize v) True nMax = Inr v"
proof (cases "v = 0")
  case True
  then show ?thesis by (simp add: CScriptNum_serialize_def CScriptNum_vch_def set_vch_def)
next
  case False
  from assms(1,2) False show ?thesis
  proof (cases rule: CScriptNum_serialize_cases)
    case (1 bs b)
    have "set_vch (CScriptNum_serialize v) = v"
      using 1 low_bits [of b] by (auto simp: set_vch_eq)
    then show ?thesis using 1 assms(3) low_bits [of b]
      by (cases "v < 0") (simp_all add: CScriptNum_vch_def)
  next
    case (2 bs b)
    have "set_vch (CScriptNum_serialize v) = v"
      using 2 set_vch_eq [of "bs @ [b]" "if v < 0 then 0x80 else 0"] by (auto simp: le_val_append)
    moreover have "CScriptNum_serialize v ! (length (CScriptNum_serialize v) - 2) = b"
      using 2 by (simp add: nth_append)
    ultimately show ?thesis using 2 assms(3) bit7_iff [of b]
      by (simp add: CScriptNum_vch_def and_0x80_iff)
  qed
qed

lemma serialize_of_digits:
  assumes "\<bar>v\<bar> = le_val (bs @ [b])" "b \<noteq> 0" "\<bar>v\<bar> < 2 ^ 63" 
  shows "CScriptNum_serialize v =
      (if bit b 7 then bs @ [b, if v < 0 then 0x80 else 0]
       else if v < 0 then bs @ [b OR 0x80] else bs @ [b])"
proof -
  let ?a = "of_int (if v < 0 then - v else v) :: u64"
  have v: "v \<noteq> 0" using le_val_pos [of "bs @ [b]"] assms(1,2) by auto
  have "uint ?a = \<bar>v\<bar>" using assms(3) by (intro of_int_abs) (auto simp: INT64_MIN_def INT64_MAX_def)
  then have bs: "serialize_loop ?a = bs @ [b]" using assms by (intro serialize_loop_unique) simp_all
  show ?thesis
    by (simp only: CScriptNum_serialize_def Let_def bs v if_False and_0x80_iff) simp
qed

lemma sign_bits:
  fixes b :: u8
  shows "128 \<le> uint b \<Longrightarrow> (b AND 0x7f) OR 0x80 = b"
    "b AND 0x7f = 0 \<Longrightarrow> b = (if 128 \<le> uint b then 0x80 else 0)"
proof -
  have *: "i < 8 \<Longrightarrow> i < 7 \<or> i = 7" for i :: nat by linarith
  show 1: "(b AND 0x7f) OR 0x80 = b" if "128 \<le> uint b"
    using that unfolding bit7_iff [symmetric]
    by (intro bit_eqI)
       (auto simp: word_0x7f bit_and_iff bit_or_iff bit_mask_iff bit_0x80 simp del: bit_numeral_word_iff dest!: *)
  show "b = (if 128 \<le> uint b then 0x80 else 0)" if "b AND 0x7f = 0"
    using 1 that low_bits(1) [of b] by auto
qed

lemma CScriptNum_minimal:
  assumes "CScriptNum_vch vch True nMax = Inr v" "nMax \<le> 8"
  shows "CScriptNum_serialize v = vch"
proof (cases vch rule: rev_cases)
  case Nil
  with assms show ?thesis by (simp add: CScriptNum_vch_def set_vch_def CScriptNum_serialize_def)
next
  case (snoc bs b)
  have l: "length bs \<le> 7" and v: "v = set_vch (bs @ [b])"
    and min: "\<not> (b AND 0x7f = 0 \<and> (length bs < 1 \<or> vch ! (length bs - 1) AND 0x80 = 0))"
    using assms snoc by (auto simp: CScriptNum_vch_def split: if_splits)
  have b: "uint (b AND 0x7f) < 128" by (simp add: and_0x7f_byte)
  note sv = set_vch_eq [OF l, of b]
  have neg: "128 \<le> uint b \<Longrightarrow> v < 0 \<or> le_val (bs @ [b AND 0x7f]) = 0"
    using v sv le_val_nonneg [of "bs @ [b AND 0x7f]"] by auto
  have abs: "\<bar>v\<bar> = le_val (bs @ [b AND 0x7f])" "\<bar>v\<bar> < 2 ^ 63"
    using v sv le_val_nonneg [of "bs @ [b AND 0x7f]"] le_val_nonneg [of "bs @ [b]"] low_bits(1) [of b]
      le_val_top_less [OF l b] by (auto split: if_splits)
  have sign: "\<not> 128 \<le> uint b \<Longrightarrow> \<not> v < 0" using v sv le_val_nonneg [of "bs @ [b]"] by auto
  show ?thesis
  proof (cases "b AND 0x7f = 0")
    case False
    then have "0 < \<bar>v\<bar>" using abs le_val_pos [of "bs @ [b AND 0x7f]"] by simp
    then have "v < 0 \<longleftrightarrow> 128 \<le> uint b" using neg sign abs by auto
    then show ?thesis
      using serialize_of_digits [OF abs(1) False abs(2)] sign_bits(1) [of b] low_bits(1) [of b] b snoc
      by (auto simp: bit7_iff)
  next
    case True
    with min snoc have "bs \<noteq> []" "bit (last bs) 7"
      by (auto simp: and_0x80_iff nth_append last_conv_nth Suc_le_eq)
    then obtain cs c where bs: "bs = cs @ [c]" and c: "bit c 7" by (metis append_butlast_last_id)
    then have c0: "c \<noteq> 0" by auto
    have a: "\<bar>v\<bar> = le_val (cs @ [c])" using abs True bs by (simp add: le_val_append)
    then have "0 < \<bar>v\<bar>" using c0 le_val_pos [of "cs @ [c]"] by simp
    then have "v < 0 \<longleftrightarrow> 128 \<le> uint b" using neg sign abs by auto
    then show ?thesis
      using serialize_of_digits [OF a c0 abs(2)] sign_bits(2) [OF True] snoc bs c by auto
  qed
qed

section \<open>Reading operations\<close>

definition single_op :: "bytes \<Rightarrow> opcodetype \<Rightarrow> bytes \<Rightarrow> bool" where
  "single_op u opcode vch \<longleftrightarrow> (\<forall>t. GetScriptOp (u @ t) = Some (opcode, vch, t))"

lemma ReadLE16_append: "2 \<le> length xs \<Longrightarrow> ReadLE16 (xs @ ys) = ReadLE16 xs"
  by (auto simp: ReadLE16_def nth_append)

lemma ReadLE32_append: "4 \<le> length xs \<Longrightarrow> ReadLE32 (xs @ ys) = ReadLE32 xs"
  by (auto simp: ReadLE32_def nth_append)

text \<open>The size field of a push operation: how many bytes it takes and the size it gives.\<close>

definition push_header :: "opcodetype \<Rightarrow> nat" where
  "push_header opcode =
     (if opcode < OP_PUSHDATA1 then 0 else if opcode = OP_PUSHDATA1 then 1
      else if opcode = OP_PUSHDATA2 then 2 else 4)"

definition push_size :: "opcodetype \<Rightarrow> bytes \<Rightarrow> nat" where
  "push_size opcode pc =
     (if opcode < OP_PUSHDATA1 then unat opcode else if opcode = OP_PUSHDATA1 then unat (hd pc)
      else if opcode = OP_PUSHDATA2 then unat (ReadLE16 pc) else unat (ReadLE32 pc))"

lemma push_size_append:
  "push_header opcode \<le> length xs \<Longrightarrow> push_size opcode (xs @ ys) = push_size opcode xs"
  by (cases xs) (auto simp: push_header_def push_size_def ReadLE16_append ReadLE32_append
      simp flip: append_Cons split: if_splits)

lemma GetScriptOp_Cons:
  "GetScriptOp (opcode # pc) =
     (if opcode \<le> OP_PUSHDATA4 then
        if length pc < push_header opcode \<or>
           length pc < push_header opcode + push_size opcode pc then None
        else Some (opcode, take (push_size opcode pc) (drop (push_header opcode) pc),
                   drop (push_header opcode + push_size opcode pc) pc)
      else Some (opcode, [], pc))"
  by (auto simp: GetScriptOp_def push_header_def push_size_def add.commute less_diff_conv)

lemma GetScriptOp_Nil [simp]: "GetScriptOp [] = None"
  by (simp add: GetScriptOp_def)

lemma GetScriptOp_split:
  assumes "GetScriptOp pc = Some (opcode, vch, rest)"
  obtains u where "pc = u @ rest" "single_op u opcode vch"
proof (cases pc)
  case (Cons op pc1)
  show thesis
  proof (cases "op \<le> OP_PUSHDATA4")
    case True
    let ?k = "push_header op + push_size op pc1"
    have k: "?k \<le> length pc1" and r: "opcode = op" "rest = drop ?k pc1"
      "vch = take (push_size op pc1) (drop (push_header op) pc1)"
      using assms Cons True by (auto simp: GetScriptOp_Cons split: if_splits)
    have s: "push_size op (take ?k pc1 @ t) = push_size op pc1" for t
      using push_size_append [of op "take ?k pc1" t] push_size_append [of op "take ?k pc1" "drop ?k pc1"] k
      by simp
    have "single_op (op # take ?k pc1) opcode vch"
      using k True by (simp add: single_op_def GetScriptOp_Cons s r drop_take min_absorb1)
    then show thesis using that [of "op # take ?k pc1"] r Cons by simp
  next
    case False
    then show thesis using that [of "[op]"] assms Cons by (auto simp: GetScriptOp_Cons single_op_def)
  qed
qed (use assms in simp)

lemma single_op_nonempty: "single_op u opcode vch \<Longrightarrow> u \<noteq> []"
  by (auto simp: single_op_def dest: spec [of _ "[]"])

lemma ReadLE16_WriteLE16: "ReadLE16 (WriteLE16 x @ bs) = x"
  by (rule bit_eqI) (auto simp: ReadLE16_def WriteLE16_def bit_or_iff bit_push_bit_iff bit_unsigned_iff bit_drop_bit_eq)

lemma length_WriteLE16 [simp]: "length (WriteLE16 x) = 2"
  by (simp add: WriteLE16_def)

lemma push_data_single:
  assumes "length b < 2 ^ 32"
  shows "\<exists>opcode. opcode \<le> OP_PUSHDATA4 \<and> single_op (push_data b) opcode b"
proof -
  consider "length b < 0x4c" | "0x4c \<le> length b" "length b \<le> 0xff" | "0xff < length b" "length b \<le> 0xffff"
    | "0xffff < length b" by linarith
  then show ?thesis
  proof cases
    case 1
    then have "unat (of_nat (length b) :: u8) = length b" by (simp add: unat_of_nat take_bit_nat_eq_self)
    then show ?thesis using 1
      by (intro exI [of _ "of_nat (length b)"])
         (simp add: push_data_def single_op_def GetScriptOp_Cons push_header_def push_size_def
           word_less_nat_alt word_le_nat_alt)
  next
    case 2
    then have "unat (of_nat (length b) :: u8) = length b" by (simp add: unat_of_nat take_bit_nat_eq_self)
    then show ?thesis using 2
      by (intro exI [of _ OP_PUSHDATA1])
         (simp add: push_data_def single_op_def GetScriptOp_Cons push_header_def push_size_def)
  next
    case 3
    then have "unat (of_nat (length b) :: u16) = length b" by (simp add: unat_of_nat take_bit_nat_eq_self)
    then show ?thesis using 3
      by (intro exI [of _ OP_PUSHDATA2])
         (simp add: push_data_def single_op_def GetScriptOp_Cons push_header_def push_size_def
           ReadLE16_WriteLE16)
  next
    case 4
    then have "unat (of_nat (length b) :: u32) = length b" using assms by (simp add: unat_of_nat take_bit_nat_eq_self)
    then show ?thesis using 4
      by (intro exI [of _ OP_PUSHDATA4])
         (simp add: push_data_def single_op_def GetScriptOp_Cons push_header_def push_size_def
           ReadLE32_WriteLE32)
  qed
qed

section \<open>Sender signatures\<close>

lemma find_op_positions_append:
  assumes "\<forall>u \<in> set us. \<exists>opcode vch. single_op u opcode vch \<and> opcode \<noteq> findOp"
    and "GetScriptOp rest = Some (findOp, v, r)"
  shows "find_op_positions findOp acc (concat us @ rest) =
    Some (acc @ map (\<lambda>k. concat (drop (Suc k) us) @ rest) [0..<length us])"
  using assms(1)
proof (induction us arbitrary: acc)
  case Nil
  then show ?case using assms(2) by (subst find_op_positions.simps) simp
next
  case (Cons u us)
  then obtain opcode vch where u: "single_op u opcode vch" "opcode \<noteq> findOp" by auto
  then have "GetScriptOp (u @ (concat us @ rest)) = Some (opcode, vch, concat us @ rest)"
    unfolding single_op_def by blast
  then have "find_op_positions findOp acc (u @ concat us @ rest) =
      find_op_positions findOp (acc @ [concat us @ rest]) (concat us @ rest)"
    using u by (subst find_op_positions.simps) simp
  then show ?case using Cons by (simp add: upt_rec [of 0] map_Suc_upt [symmetric] del: upt_Suc)
qed

lemma find_op_positions_split:
  "find_op_positions findOp acc pc = Some opcodes \<Longrightarrow>
   \<exists>us rest v r. pc = concat us @ rest \<and> GetScriptOp rest = Some (findOp, v, r) \<and>
     (\<forall>u \<in> set us. \<exists>opcode vch. single_op u opcode vch \<and> opcode \<noteq> findOp)"
proof (induction findOp acc pc rule: find_op_positions.induct)
  case (1 findOp acc pc)
  from 1(2) obtain opcode vch pc' where g: "GetScriptOp pc = Some (opcode, vch, pc')"
    by (subst (asm) find_op_positions.simps) (auto split: option.splits)
  show ?case
  proof (cases "opcode = findOp")
    case True
    then show ?thesis using g by (intro exI [of _ "[]"] exI [of _ pc] exI [of _ vch] exI [of _ pc']) simp
  next
    case False
    then have "find_op_positions findOp (acc @ [pc']) pc' = Some opcodes"
      using 1(2) g by (subst (asm) find_op_positions.simps) simp
    then obtain us rest v r where us: "pc' = concat us @ rest" "GetScriptOp rest = Some (findOp, v, r)"
      "\<forall>u \<in> set us. \<exists>opcode vch. single_op u opcode vch \<and> opcode \<noteq> findOp"
      using 1(1) [OF g refl refl False] by blast
    obtain u where "pc = u @ pc'" "single_op u opcode vch" using g by (rule GetScriptOp_split)
    then show ?thesis using us False by (intro exI [of _ "u # us"] exI [of _ rest] exI [of _ v] exI [of _ r]) auto
  qed
qed

lemma ReplaceParam_before:
  assumes us: "\<forall>u \<in> set us. \<exists>opcode vch. single_op u opcode vch \<and> opcode \<noteq> findOp"
    and rest: "GetScriptOp rest = Some (findOp, v, r)"
  shows "ReplaceParam (concat us @ rest) findOp 1 vch =
    Inr (if 2 \<le> length us then Some (concat (butlast us) @ push_data vch @ rest) else None)"
proof -
  let ?ops = "map (\<lambda>k. concat (drop k us) @ rest) [0..<Suc (length us)]"
  have f: "find_op_positions findOp [concat us @ rest] (concat us @ rest) = Some ?ops"
    using find_op_positions_append [OF us rest, of "[concat us @ rest]"]
    by (simp add: upt_rec [of 0] map_Suc_upt [symmetric] del: upt_Suc)
  have n: "?ops ! j = concat (drop j us) @ rest" if "j \<le> length us" for j
    using that nth_upt [of 0 j "Suc (length us)"] by (simp del: upt_Suc)
  show ?thesis
  proof (cases "2 \<le> length us")
    case True
    then have "concat us = concat (butlast us) @ concat (drop (length us - 1) us)"
      by (metis append_take_drop_id butlast_conv_take concat_append)
    then have "take (length (concat us @ rest) - length (concat (drop (length us - 1) us) @ rest)) (concat us @ rest)
        = concat (butlast us)" by simp
    then show ?thesis using True n [of "length us - 1"] n [of "length us"]
      by (simp add: ReplaceParam_def f Let_def nat_diff_distrib del: upt_Suc nth_map)
  next
    case False
    then show ?thesis by (simp add: ReplaceParam_def f Let_def del: upt_Suc)
  qed
qed

lemma UpdateSenderSig_split:
  assumes "UpdateSenderSig scr sig = Inr (Some s')"
  obtains us rest v r where "scr = concat us @ rest" "s' = concat (butlast us) @ push_data sig @ rest"
    "2 \<le> length us" "GetScriptOp rest = Some (OP_SENDER, v, r)"
    "\<forall>u \<in> set us. \<exists>opcode vch. single_op u opcode vch \<and> opcode \<noteq> OP_SENDER"
proof -
  have "\<exists>opcodes. find_op_positions OP_SENDER [scr] scr = Some opcodes"
    using assms by (auto simp: UpdateSenderSig_def ReplaceParam_def split: option.splits)
  then obtain us rest v r where us: "scr = concat us @ rest" "GetScriptOp rest = Some (OP_SENDER, v, r)"
     "\<forall>u \<in> set us. \<exists>opcode vch. single_op u opcode vch \<and> opcode \<noteq> OP_SENDER"
    using find_op_positions_split by blast
  with assms show thesis
    using ReplaceParam_before [OF us(3,2), of sig] by (intro that [OF us(1) _ _ us(2,3)]) (auto simp: UpdateSenderSig_def split: if_splits)
qed

lemma sender_sig_irrelevant:
  assumes "UpdateSenderSig scr sig = Inr (Some s')" "length sig < 2 ^ 32"
  shows "UpdateSenderSig s' sig' = UpdateSenderSig scr sig'"
proof -
  obtain us rest v r where us: "scr = concat us @ rest" "s' = concat (butlast us) @ push_data sig @ rest"
    "2 \<le> length us" and rest: "GetScriptOp rest = Some (OP_SENDER, v, r)"
    and u: "\<forall>u \<in> set us. \<exists>opcode vch. single_op u opcode vch \<and> opcode \<noteq> OP_SENDER"
    using assms(1) by (rule UpdateSenderSig_split)
  let ?vs = "butlast us @ [push_data sig]"
  obtain opcode where "opcode \<le> OP_PUSHDATA4" and p: "single_op (push_data sig) opcode sig"
    using push_data_single [OF assms(2)] by blast
  then have "opcode \<noteq> OP_SENDER" by auto
  with p u have "\<forall>u \<in> set ?vs. \<exists>opcode vch. single_op u opcode vch \<and> opcode \<noteq> OP_SENDER"
    by (auto dest: in_set_butlastD)
  from ReplaceParam_before [OF this rest, of sig'] ReplaceParam_before [OF u rest, of sig'] us
  show ?thesis by (simp add: UpdateSenderSig_def)
qed

section \<open>Counting signature operations\<close>

lemma uint_add_small: "uint (a :: u32) + uint b < 2 ^ 32 \<Longrightarrow> uint (a + b) = uint a + uint b"
  by (simp add: uint_word_ariths mod_pos_pos_trivial)

definition sigops_of :: "bool \<Rightarrow> opcodetype \<Rightarrow> opcodetype \<Rightarrow> int" where
  "sigops_of fAccurate lastOpcode opcode =
     (if opcode = OP_CHECKSIG \<or> opcode = OP_CHECKSIGVERIFY then 1
      else if opcode = OP_CHECKMULTISIG \<or> opcode = OP_CHECKMULTISIGVERIFY then
        if fAccurate \<and> lastOpcode \<ge> OP_1 \<and> lastOpcode \<le> OP_16 then uint lastOpcode - 0x50
        else 20
      else 0)"

lemma sigops_of_bounds: "0 \<le> sigops_of a l op \<and> sigops_of True l op \<le> sigops_of False l op \<and> sigops_of a l op \<le> 20"
  by (auto simp: sigops_of_def word_le_def)

lemma sigop_loop_step:
  "GetScriptOp pc = Some (opcode, vch, pc') \<Longrightarrow>
   sigop_loop a l pc n = sigop_loop a opcode pc' (n + of_int (sigops_of a l opcode))"
  by (subst sigop_loop.simps) (auto simp: sigops_of_def)

lemma sigop_loop_bounds:
  "uint n + 20 * int (length pc) < 2 ^ 32 \<Longrightarrow> uint m \<le> uint n \<Longrightarrow>
   uint (sigop_loop True l pc m) \<le> uint (sigop_loop False l pc n) \<and>
   uint (sigop_loop False l pc n) \<le> uint n + 20 * int (length pc)"
proof (induction pc arbitrary: l m n rule: length_induct)
  case (1 pc)
  show ?case
  proof (cases "GetScriptOp pc")
    case None
    then show ?thesis using 1 by (simp add: sigop_loop.simps [of _ _ pc])
  next
    case (Some p)
    then obtain opcode vch pc' where g: "GetScriptOp pc = Some (opcode, vch, pc')" by (cases p) auto
    have l: "length pc' < length pc" using GetScriptOp_less [OF g] .
    have u: "uint (k + of_int (sigops_of a l opcode)) = uint k + sigops_of a l opcode" if "uint k \<le> uint n" for k :: u32 and a
    proof -
      have "uint (of_int (sigops_of a l opcode) :: u32) = sigops_of a l opcode"
        using sigops_of_bounds [of a l opcode] by (simp add: uint_word_of_int_eq take_bit_int_eq_self)
      then show ?thesis using 1(2) that l sigops_of_bounds [of a l opcode]
        by (subst uint_add_small) simp_all
    qed
    show ?thesis
      using 1(1) [rule_format, OF l, of "n + of_int (sigops_of False l opcode)" "m + of_int (sigops_of True l opcode)" opcode]
        u [of n False] u [of m True] 1(2,3) l sigops_of_bounds [of False l opcode] sigops_of_bounds [of True l opcode]
      by (simp add: sigop_loop_step [OF g])
  qed
qed

section \<open>Contract call templates\<close>

lemma dgp_loop_True:
  "dgp_loop scr d i = Inr True \<Longrightarrow> i \<le> int (length scr) \<Longrightarrow>
   \<exists>pre post. scr = pre @ d @ post \<and> int (length scr) \<le> int (length post) + i"
proof (induction scr d i rule: dgp_loop.induct)
  case (1 scr d i)
  let ?k = "nat i - length d"
  have i: "0 < i" "int (length d) \<le> i" using 1(2) by (auto simp: dgp_loop.simps [of _ _ i] split: if_splits)
  show ?case
  proof (cases "take (length d) (drop ?k scr) = d")
    case True
    then have "scr = take ?k scr @ d @ drop (length d) (drop ?k scr)"
      by (metis append_take_drop_id)
    moreover have "length (drop (length d) (drop ?k scr)) = length scr - nat i"
      using i 1(3) by auto
    ultimately show ?thesis using i
      by (intro exI [of _ "take ?k scr"] exI [of _ "drop (length d) (drop ?k scr)"]) simp
  next
    case False
    then have "d \<noteq> []" by auto
    with False 1(2) i have "dgp_loop scr d (i - int (length d)) = Inr True"
      by (simp add: dgp_loop.simps [of _ _ i])
    then show ?thesis using 1(1) i False \<open>d \<noteq> []\<close> 1(3) by fastforce
  qed
qed

lemma dgp_loop_fault:
  "0 \<le> i \<Longrightarrow> i \<le> int (length scr) \<Longrightarrow> i mod int (length d) \<noteq> 0 \<Longrightarrow> \<forall>pre post. scr \<noteq> pre @ d @ post \<Longrightarrow>
   dgp_loop scr d i = Inl Out_of_bounds"
proof (induction scr d i rule: dgp_loop.induct)
  case (1 scr d i)
  then have i: "0 < i" by (cases "i = 0") auto
  have d: "d \<noteq> []" using 1(5) by (metis append_Nil)
  have t: "take (length d) (drop (nat i - length d) scr) \<noteq> d"
    using 1(5) by (metis append_take_drop_id)
  show ?case
  proof (cases "i < int (length d)")
    case False
    then have "dgp_loop scr d (i - int (length d)) = Inl Out_of_bounds"
      using 1 i d t by simp
    then show ?thesis using i d t False by (simp add: dgp_loop.simps [of _ _ i])
  qed (use i in \<open>simp add: dgp_loop.simps\<close>)
qed

section \<open>Properties\<close>

text \<open>C26: Script numbers are a canonical code: every 64-bit value other than the minimum is read
  back from its own encoding, in the minimal-encoding mode and in every size limit the
  encoding fits; and a byte vector of at most eight bytes that the minimal-encoding mode
  accepts is the encoding of the number it was read as.\<close>

theorem script_number_canonical:
  "(INT64_MIN < v \<and> v \<le> INT64_MAX \<and> length (CScriptNum_serialize v) \<le> nMaxNumSize \<longrightarrow>
      CScriptNum_vch (CScriptNum_serialize v) True nMaxNumSize = Inr v) \<and>
   (CScriptNum_vch vch True n = Inr w \<and> n \<le> 8 \<longrightarrow> CScriptNum_serialize w = vch)"
  using CScriptNum_round_trip [of v nMaxNumSize] CScriptNum_minimal [of vch n w] by blast

theorem script_number_canonical_witness:
  "CScriptNum_vch (CScriptNum_serialize (- 255)) True 4 = Inr (- 255) \<and>
   CScriptNum_serialize (- 255) = [0xff, 0x80]"
proof -
  have "length (CScriptNum_serialize (- 255)) \<le> 4" by code_simp
  moreover have "CScriptNum_vch [0xff, 0x80] True 4 = Inr (- 255)" by code_simp
  ultimately show ?thesis
    using script_number_canonical [of "- 255" 4 "[0xff, 0x80]" 4 "- 255"]
    by (simp add: INT64_MIN_def INT64_MAX_def)
qed



text \<open>Putting a signature before OP_SENDER does not change what is signed: the script without
  its sender signature, which the signature hash covers, is the same before and after, the
  editing functions never index outside their positions, and a later signature replaces an
  earlier one.\<close>

lemma sender_signature_not_signed:
  assumes "UpdateSenderSig scr sig = Inr (Some scr')" "length sig < 2 ^ 32"
  shows "WithoutSenderSig scr' = WithoutSenderSig scr \<and>
    UpdateSenderSig scr' sig' = UpdateSenderSig scr sig' \<and> WithoutSenderSig scr \<noteq> Inl Out_of_bounds"
proof -
  obtain us rest v r where us: "scr = concat us @ rest" "2 \<le> length us"
    "GetScriptOp rest = Some (OP_SENDER, v, r)"
    "\<forall>u \<in> set us. \<exists>opcode vch. single_op u opcode vch \<and> opcode \<noteq> OP_SENDER"
    using assms(1) by (rule UpdateSenderSig_split)
  have "\<exists>t. UpdateSenderSig scr [] = Inr (Some t)"
    using ReplaceParam_before [OF us(4,3), of "[]"] us(1,2) by (simp add: UpdateSenderSig_def)
  then show ?thesis
    using sender_sig_irrelevant [OF assms]
    by (auto simp: WithoutSenderSig_def split: sum.splits option.splits)
qed

text \<open>The signature operation count of a script never wraps around for scripts below 2^27 bytes:
  it is at most twenty per byte, and the accurate count used for redeem scripts never
  exceeds the legacy count.\<close>

lemma sigop_count_bounds:
  assumes "length scr < 2 ^ 27"
  shows "uint (GetSigOpCount scr True) \<le> uint (GetSigOpCount scr False) \<and>
    uint (GetSigOpCount scr False) \<le> 20 * int (length scr)"
  using sigop_loop_bounds [of 0 scr 0 OP_INVALIDOPCODE] assms by (simp add: GetSigOpCount_def)

text \<open>C36: A script accepted as a call of a governance contract ends with the contract's address and
  OP_CALL and contains the selector before them.  The backwards scan steps over the front of
  the buffer when no window matches and the length before the address is not a multiple of the
  selector's length.\<close>

theorem dgp_contract_call_scan:
  "(IsDGPContractCall scr addr d = Inr True \<longrightarrow>
      last scr = OP_CALL \<and> take 20 (drop (length scr - 21) scr) = addr \<and>
      (\<exists>pre post. scr = pre @ d @ post \<and> 22 \<le> length post)) \<and>
   (22 \<le> length scr \<and> last scr = OP_CALL \<and> take 20 (drop (length scr - 21) scr) = addr \<and>
    (length scr - 22) mod length d \<noteq> 0 \<and> (\<forall>pre post. scr \<noteq> pre @ d @ post) \<longrightarrow>
      IsDGPContractCall scr addr d = Inl Out_of_bounds)"
proof (intro conjI impI)
  assume a: "IsDGPContractCall scr addr d = Inr True"
  then show "last scr = OP_CALL" "take 20 (drop (length scr - 21) scr) = addr"
    by (auto simp: IsDGPContractCall_def split: if_splits)
  from a have "dgp_loop scr d (int (length scr) - 22) = Inr True"
    by (auto simp: IsDGPContractCall_def split: if_splits)
  from dgp_loop_True [OF this] show "\<exists>pre post. scr = pre @ d @ post \<and> 22 \<le> length post"
    by fastforce
next
  assume a: "22 \<le> length scr \<and> last scr = OP_CALL \<and> take 20 (drop (length scr - 21) scr) = addr \<and>
    (length scr - 22) mod length d \<noteq> 0 \<and> (\<forall>pre post. scr \<noteq> pre @ d @ post)"
  then have "int (length scr - 22) mod int (length d) \<noteq> 0" by (metis of_nat_eq_0_iff zmod_int)
  with a have "dgp_loop scr d (int (length scr) - 22) = Inl Out_of_bounds"
    by (intro dgp_loop_fault) (auto simp: of_nat_diff)
  with a show "IsDGPContractCall scr addr d = Inl Out_of_bounds" by (auto simp: IsDGPContractCall_def)
qed

theorem dgp_contract_call_scan_witness:
  "IsDGPContractCall ([1, 5, 20] @ replicate 20 9 @ [OP_CALL]) (replicate 20 9) [0x1c, 0x03, 0x18, 0xcd] = Inl Out_of_bounds"
proof -
  have "0x1c \<notin> set ([1, 5, 20] @ replicate 20 9 @ [OP_CALL])" by simp
  then have "\<forall>pre post. [1, 5, 20] @ replicate 20 9 @ [OP_CALL] \<noteq> pre @ [0x1c, 0x03, 0x18, 0xcd] @ post"
    by (metis in_set_conv_decomp append_Cons)
  then show ?thesis
    using dgp_contract_call_scan [of "[1, 5, 20] @ replicate 20 9 @ [OP_CALL]" "replicate 20 9" "[0x1c, 0x03, 0x18, 0xcd]"]
    by simp
qed

end
