(* ===== verification/Transaction.thy ===== *)
theory Transaction
  imports Script
begin

text \<open>
  Amounts, outpoints, inputs, outputs, transactions and blocks (src/src/amount.h,
  uint256.h, primitives/transaction.h, transaction.cpp, primitives/block.h) with their
  serialization.  The classes are records; a 256-bit hash is its list of 32 bytes; the
  signed integers of the source are HOL integers whose range the well-formedness
  predicates state.  The properties show that the serialization of transactions and
  blocks is a code, which inputs it distinguishes, and that sums of outputs cannot
  overflow.
\<close>

section \<open>Amounts\<close>

type_synonym CAmount = int

definition COIN :: CAmount where "COIN = 100000000"
definition CENT :: CAmount where "CENT = 1000000"
definition MAX_MONEY :: CAmount where "MAX_MONEY = 30000000000 * COIN"

definition MoneyRange :: "CAmount \<Rightarrow> bool" where
  "MoneyRange nValue \<longleftrightarrow> nValue \<ge> 0 \<and> nValue \<le> MAX_MONEY"

section \<open>Hashes and outpoints\<close>

type_synonym uint256 = bytes

definition uint256_null :: uint256 where
  "uint256_null = replicate 32 0"

definition uint256_IsNull :: "uint256 \<Rightarrow> bool" where
  "uint256_IsNull d \<longleftrightarrow> list_all (\<lambda>b. b = 0) d"

primrec memcmp :: "bytes \<Rightarrow> bytes \<Rightarrow> int" where
  "memcmp [] ys = 0"
| "memcmp (x # xs) ys = (case ys of [] \<Rightarrow> 0
     | y # ys \<Rightarrow> if x < y then - 1 else if x > y then 1 else memcmp xs ys)"

definition uint256_Compare :: "uint256 \<Rightarrow> uint256 \<Rightarrow> int" where
  "uint256_Compare a b = memcmp a b"

record COutPoint =
  outHash :: uint256
  outN :: u32

abbreviation NULL_INDEX :: u32 where "NULL_INDEX \<equiv> 0xffffffff"

definition COutPoint_null :: COutPoint where
  "COutPoint_null = \<lparr>outHash = uint256_null, outN = NULL_INDEX\<rparr>"

definition COutPoint_IsNull :: "COutPoint \<Rightarrow> bool" where
  "COutPoint_IsNull p \<longleftrightarrow> uint256_IsNull (outHash p) \<and> outN p = NULL_INDEX"

definition COutPoint_less :: "COutPoint \<Rightarrow> COutPoint \<Rightarrow> bool" where
  "COutPoint_less a b =
     (let cmp = uint256_Compare (outHash a) (outHash b)
      in cmp < 0 \<or> (cmp = 0 \<and> outN a < outN b))"

section \<open>Inputs, outputs and transactions\<close>

type_synonym CScriptWitness = "bytes list"

record CTxIn =
  prevout :: COutPoint
  scriptSig :: CScript
  nSequence :: u32
  scriptWitness :: CScriptWitness

abbreviation SEQUENCE_FINAL :: u32 where "SEQUENCE_FINAL \<equiv> 0xffffffff"
abbreviation SEQUENCE_LOCKTIME_DISABLE_FLAG :: u32 where "SEQUENCE_LOCKTIME_DISABLE_FLAG \<equiv> 0x80000000"
abbreviation SEQUENCE_LOCKTIME_TYPE_FLAG :: u32 where "SEQUENCE_LOCKTIME_TYPE_FLAG \<equiv> 0x400000"
abbreviation SEQUENCE_LOCKTIME_MASK :: u32 where "SEQUENCE_LOCKTIME_MASK \<equiv> 0xffff"
abbreviation SEQUENCE_LOCKTIME_GRANULARITY :: nat where "SEQUENCE_LOCKTIME_GRANULARITY \<equiv> 9"

record CTxOut =
  nValue :: CAmount
  scriptPubKey :: CScript

definition CTxOut_null :: CTxOut where
  "CTxOut_null = \<lparr>nValue = - 1, scriptPubKey = []\<rparr>"

definition CTxOut_IsNull :: "CTxOut \<Rightarrow> bool" where
  "CTxOut_IsNull out \<longleftrightarrow> nValue out = - 1"

definition CTxOut_empty :: CTxOut where
  "CTxOut_empty = \<lparr>nValue = 0, scriptPubKey = []\<rparr>"

definition CTxOut_IsEmpty :: "CTxOut \<Rightarrow> bool" where
  "CTxOut_IsEmpty out \<longleftrightarrow> nValue out = 0 \<and> scriptPubKey out = []"

record CTransaction =
  vin :: "CTxIn list"
  vout :: "CTxOut list"
  nVersion :: int
  nLockTime :: u32

definition CTransaction_IsNull :: "CTransaction \<Rightarrow> bool" where
  "CTransaction_IsNull tx \<longleftrightarrow> vin tx = [] \<and> vout tx = []"

definition IsCoinBase :: "CTransaction \<Rightarrow> bool" where
  "IsCoinBase tx \<longleftrightarrow> length (vin tx) = 1 \<and> COutPoint_IsNull (prevout (vin tx ! 0)) \<and> length (vout tx) \<ge> 1"

definition IsCoinStake :: "CTransaction \<Rightarrow> bool" where
  "IsCoinStake tx \<longleftrightarrow> length (vin tx) > 0 \<and> \<not> COutPoint_IsNull (prevout (vin tx ! 0)) \<and>
     length (vout tx) \<ge> 2 \<and> CTxOut_IsEmpty (vout tx ! 0)"

definition IsNormalTx :: "CTransaction \<Rightarrow> bool" where
  "IsNormalTx tx \<longleftrightarrow> \<not> IsCoinBase tx \<and> \<not> IsCoinStake tx"

primrec has_witness_loop :: "CTxIn list \<Rightarrow> bool" where
  "has_witness_loop [] = False"
| "has_witness_loop (i # is) = (if scriptWitness i \<noteq> [] then True else has_witness_loop is)"

definition HasWitness :: "CTransaction \<Rightarrow> bool" where
  "HasWitness tx = has_witness_loop (vin tx)"

definition HasCreateOrCall :: "CTransaction \<Rightarrow> bool" where
  "HasCreateOrCall tx = list_ex (\<lambda>v. HasOpCreate (scriptPubKey v) \<or> HasOpCall (scriptPubKey v)) (vout tx)"

definition tx_HasOpSpend :: "CTransaction \<Rightarrow> bool" where
  "tx_HasOpSpend tx = list_ex (\<lambda>i. HasOpSpend (scriptSig i)) (vin tx)"

definition tx_HasOpCreate :: "CTransaction \<Rightarrow> bool" where
  "tx_HasOpCreate tx = list_ex (\<lambda>v. HasOpCreate (scriptPubKey v)) (vout tx)"

definition tx_HasOpCall :: "CTransaction \<Rightarrow> bool" where
  "tx_HasOpCall tx = list_ex (\<lambda>v. HasOpCall (scriptPubKey v)) (vout tx)"

definition tx_HasOpSender :: "CTransaction \<Rightarrow> bool" where
  "tx_HasOpSender tx = list_ex (\<lambda>v. HasOpSender (scriptPubKey v)) (vout tx)"

definition GetCreateOrCall :: "CTransaction \<Rightarrow> int" where
  "GetCreateOrCall tx = (if tx_HasOpCall tx then 1 else 0) + (if tx_HasOpCreate tx then 2 else 0)"

text \<open>The sum of the outputs that are not burnt; the exception of the source is
  \<open>Value_out_of_range\<close>, and a sum that would leave the 64 bits of CAmount is the
  undefined behaviour \<open>Signed_overflow\<close>.\<close>

datatype amount_error = Value_out_of_range | Signed_overflow

definition fits_int64 :: "int \<Rightarrow> bool" where
  "fits_int64 v \<longleftrightarrow> INT64_MIN \<le> v \<and> v \<le> INT64_MAX"

primrec value_out_loop :: "CTxOut list \<Rightarrow> CAmount \<Rightarrow> amount_error + CAmount" where
  "value_out_loop [] nValueOut = Inr nValueOut"
| "value_out_loop (tx_out # outs) nValueOut =
     (if IsBurnt (scriptPubKey tx_out) then value_out_loop outs nValueOut
      else if \<not> fits_int64 (nValueOut + nValue tx_out) then Inl Signed_overflow
      else let nValueOut = nValueOut + nValue tx_out in
        if \<not> MoneyRange (nValue tx_out) \<or> \<not> MoneyRange nValueOut then Inl Value_out_of_range
        else value_out_loop outs nValueOut)"

definition GetValueOut :: "CTransaction \<Rightarrow> amount_error + CAmount" where
  "GetValueOut tx = value_out_loop (vout tx) 0"

section \<open>Serialization\<close>

text \<open>Signed integers travel as the unsigned word of the same bits.\<close>

definition Serialize_int32 :: "int \<Rightarrow> bytes" where
  "Serialize_int32 a = ser_writedata32 (of_int a)"

definition Unserialize_int32 :: "int reader" where
  "Unserialize_int32 s = ebind (ser_readdata32 s) (\<lambda>(w, s). Inr (sint w, s))"

definition Serialize_int64 :: "int \<Rightarrow> bytes" where
  "Serialize_int64 a = ser_writedata64 (of_int a)"

definition Unserialize_int64 :: "int reader" where
  "Unserialize_int64 s = ebind (ser_readdata64 s) (\<lambda>(w, s). Inr (sint w, s))"

definition Serialize_uint256 :: "uint256 \<Rightarrow> bytes" where
  "Serialize_uint256 d = d"

definition Unserialize_uint256 :: "uint256 reader" where
  "Unserialize_uint256 s = stream_read 32 s"

definition Serialize_outpoint :: "COutPoint \<Rightarrow> bytes" where
  "Serialize_outpoint p = Serialize_uint256 (outHash p) @ ser_writedata32 (outN p)"

definition Unserialize_outpoint :: "COutPoint reader" where
  "Unserialize_outpoint s =
     ebind (Unserialize_uint256 s) (\<lambda>(h, s).
     ebind (ser_readdata32 s) (\<lambda>(m, s). Inr (\<lparr>outHash = h, outN = m\<rparr>, s)))"

text \<open>An input is written without its witness, and read with an empty one.\<close>

definition Serialize_txin :: "CTxIn \<Rightarrow> bytes" where
  "Serialize_txin i = Serialize_outpoint (prevout i) @ Serialize_bytes (scriptSig i) @ ser_writedata32 (nSequence i)"

definition Unserialize_txin :: "CTxIn reader" where
  "Unserialize_txin s =
     ebind (Unserialize_outpoint s) (\<lambda>(p, s).
     ebind (Unserialize_bytes s) (\<lambda>(sc, s).
     ebind (ser_readdata32 s) (\<lambda>(q, s).
       Inr (\<lparr>prevout = p, scriptSig = sc, nSequence = q, scriptWitness = []\<rparr>, s))))"

definition Serialize_txout :: "CTxOut \<Rightarrow> bytes" where
  "Serialize_txout out = Serialize_int64 (nValue out) @ Serialize_bytes (scriptPubKey out)"

definition Unserialize_txout :: "CTxOut reader" where
  "Unserialize_txout s =
     ebind (Unserialize_int64 s) (\<lambda>(v, s).
     ebind (Unserialize_bytes s) (\<lambda>(sc, s). Inr (\<lparr>nValue = v, scriptPubKey = sc\<rparr>, s)))"

text \<open>The sizes of the element types, which only set how many elements one chunk of the
  vector reader has.\<close>

abbreviation sizeof_CTxIn :: nat where "sizeof_CTxIn \<equiv> 104"
abbreviation sizeof_CTxOut :: nat where "sizeof_CTxOut \<equiv> 40"
abbreviation (input) sizeof_vector :: nat where "sizeof_vector \<equiv> 24"
abbreviation (input) sizeof_shared_ptr :: nat where "sizeof_shared_ptr \<equiv> 16"

definition Serialize_vin :: "CTxIn list \<Rightarrow> bytes" where
  "Serialize_vin = Serialize_vector Serialize_txin"

definition Unserialize_vin :: "CTxIn list reader" where
  "Unserialize_vin = Unserialize_vector sizeof_CTxIn Unserialize_txin"

definition Serialize_vout :: "CTxOut list \<Rightarrow> bytes" where
  "Serialize_vout = Serialize_vector Serialize_txout"

definition Unserialize_vout :: "CTxOut list reader" where
  "Unserialize_vout = Unserialize_vector sizeof_CTxOut Unserialize_txout"

definition Serialize_stack :: "CScriptWitness \<Rightarrow> bytes" where
  "Serialize_stack = Serialize_vector Serialize_bytes"

definition Unserialize_stack :: "CScriptWitness reader" where
  "Unserialize_stack = Unserialize_vector sizeof_vector Unserialize_bytes"

text \<open>The loop that reads one witness stack into each input.\<close>

primrec read_witnesses :: "CTxIn list \<Rightarrow> CTxIn list reader" where
  "read_witnesses [] s = Inr ([], s)"
| "read_witnesses (i # is) s =
     ebind (Unserialize_stack s) (\<lambda>(st, s).
     ebind (read_witnesses is s) (\<lambda>(is, s). Inr (i\<lparr>scriptWitness := st\<rparr> # is, s)))"

definition UnserializeTransaction :: "bool \<Rightarrow> CTransaction reader" where
  "UnserializeTransaction fAllowWitness s =
     ebind (Unserialize_int32 s) (\<lambda>(version, s).
     ebind (Unserialize_vin s) (\<lambda>(ins, s).
     ebind (if length ins = 0 \<and> fAllowWitness then
              ebind (ser_readdata8 s) (\<lambda>(flags, s).
                if flags \<noteq> 0 then
                  ebind (Unserialize_vin s) (\<lambda>(ins, s).
                  ebind (Unserialize_vout s) (\<lambda>(outs, s). Inr ((flags, ins, outs), s)))
                else Inr ((flags, ins, []), s))
            else ebind (Unserialize_vout s) (\<lambda>(outs, s). Inr ((0, ins, outs), s)))
       (\<lambda>((flags, ins, outs), s).
     ebind (if flags AND 1 \<noteq> 0 \<and> fAllowWitness then
              ebind (read_witnesses ins s) (\<lambda>(ins, s).
                if \<not> has_witness_loop ins then Inl Superfluous_witness
                else Inr ((flags XOR 1, ins), s))
            else Inr ((flags, ins), s))
       (\<lambda>((flags, ins), s).
     if flags \<noteq> 0 then Inl Unknown_optional_data
     else ebind (ser_readdata32 s) (\<lambda>(lock, s).
       Inr (\<lparr>vin = ins, vout = outs, nVersion = version, nLockTime = lock\<rparr>, s))))))"

definition SerializeTransaction :: "bool \<Rightarrow> CTransaction \<Rightarrow> bytes" where
  "SerializeTransaction fAllowWitness tx =
     (let flags = (if fAllowWitness \<and> HasWitness tx then 1 else 0 :: u8) in
      Serialize_int32 (nVersion tx) @
      (if flags \<noteq> 0 then Serialize_vin [] @ ser_writedata8 flags else []) @
      Serialize_vin (vin tx) @ Serialize_vout (vout tx) @
      (if flags AND 1 \<noteq> 0 then concat (map (\<lambda>i. Serialize_stack (scriptWitness i)) (vin tx)) else []) @
      ser_writedata32 (nLockTime tx))"

section \<open>Blocks\<close>

record CBlockHeaderBase =
  hVersion :: int
  hashPrevBlock :: uint256
  hashMerkleRoot :: uint256
  nTime :: u32
  nBits :: u32
  nNonce :: u32
  hashStateRoot :: uint256
  hashUTXORoot :: uint256
  prevoutStake :: COutPoint

record CBlockHeader = CBlockHeaderBase +
  vchBlockSig :: bytes

record CBlock = CBlockHeader +
  vtx :: "CTransaction list"
  fChecked :: bool

definition CBlockHeader_null :: CBlockHeader where
  "CBlockHeader_null =
     \<lparr>hVersion = 0, hashPrevBlock = uint256_null, hashMerkleRoot = uint256_null, nTime = 0, nBits = 0,
      nNonce = 0, hashStateRoot = uint256_null, hashUTXORoot = uint256_null, prevoutStake = COutPoint_null,
      vchBlockSig = []\<rparr>"

definition CBlockHeader_IsNull :: "'a CBlockHeaderBase_scheme \<Rightarrow> bool" where
  "CBlockHeader_IsNull h \<longleftrightarrow> nBits h = 0"

definition GetBlockTime :: "'a CBlockHeaderBase_scheme \<Rightarrow> int" where
  "GetBlockTime h = uint (nTime h)"

definition block_IsProofOfStake :: "'a CBlockHeaderBase_scheme \<Rightarrow> bool" where
  "block_IsProofOfStake h \<longleftrightarrow> \<not> COutPoint_IsNull (prevoutStake h)"

definition block_IsProofOfWork :: "'a CBlockHeaderBase_scheme \<Rightarrow> bool" where
  "block_IsProofOfWork h \<longleftrightarrow> \<not> block_IsProofOfStake h"

definition StakeTime :: "'a CBlockHeaderBase_scheme \<Rightarrow> u32" where
  "StakeTime h = (if block_IsProofOfStake h then nTime h else 0)"

definition GetProofOfStake :: "'a CBlockHeaderBase_scheme \<Rightarrow> COutPoint \<times> u32" where
  "GetProofOfStake h = (if block_IsProofOfStake h then (prevoutStake h, nTime h) else (COutPoint_null, 0))"

definition CBlock_of_header :: "CBlockHeader \<Rightarrow> CBlock" where
  "CBlock_of_header h = CBlockHeader.extend h \<lparr>vtx = [], fChecked = False\<rparr>"

definition GetBlockHeader :: "CBlock \<Rightarrow> CBlockHeader" where
  "GetBlockHeader b = CBlockHeader.truncate b"

definition Serialize_header_base :: "'a CBlockHeaderBase_scheme \<Rightarrow> bytes" where
  "Serialize_header_base h =
     Serialize_int32 (hVersion h) @ Serialize_uint256 (hashPrevBlock h) @ Serialize_uint256 (hashMerkleRoot h) @
     ser_writedata32 (nTime h) @ ser_writedata32 (nBits h) @ ser_writedata32 (nNonce h) @
     Serialize_uint256 (hashStateRoot h) @ Serialize_uint256 (hashUTXORoot h) @
     Serialize_outpoint (prevoutStake h)"

definition Unserialize_header_base :: "CBlockHeaderBase reader" where
  "Unserialize_header_base s =
     ebind (Unserialize_int32 s) (\<lambda>(v, s).
     ebind (Unserialize_uint256 s) (\<lambda>(p, s).
     ebind (Unserialize_uint256 s) (\<lambda>(m, s).
     ebind (ser_readdata32 s) (\<lambda>(t, s).
     ebind (ser_readdata32 s) (\<lambda>(b, s).
     ebind (ser_readdata32 s) (\<lambda>(c, s).
     ebind (Unserialize_uint256 s) (\<lambda>(st, s).
     ebind (Unserialize_uint256 s) (\<lambda>(ut, s).
     ebind (Unserialize_outpoint s) (\<lambda>(o', s).
       Inr (\<lparr>hVersion = v, hashPrevBlock = p, hashMerkleRoot = m, nTime = t, nBits = b, nNonce = c,
             hashStateRoot = st, hashUTXORoot = ut, prevoutStake = o'\<rparr>, s))))))))))"

definition Serialize_header :: "'a CBlockHeader_scheme \<Rightarrow> bytes" where
  "Serialize_header h = Serialize_header_base h @ Serialize_bytes (vchBlockSig h)"

definition Unserialize_header :: "CBlockHeader reader" where
  "Unserialize_header s =
     ebind (Unserialize_header_base s) (\<lambda>(b, s).
     ebind (Unserialize_bytes s) (\<lambda>(sig, s).
       Inr (CBlockHeaderBase.extend b \<lparr>vchBlockSig = sig\<rparr>, s)))"

definition Serialize_block :: "bool \<Rightarrow> CBlock \<Rightarrow> bytes" where
  "Serialize_block fAllowWitness b =
     Serialize_header b @ Serialize_vector (SerializeTransaction fAllowWitness) (vtx b)"

definition Unserialize_block :: "bool \<Rightarrow> CBlock reader" where
  "Unserialize_block fAllowWitness s =
     ebind (Unserialize_header s) (\<lambda>(h, s).
     ebind (Unserialize_vector sizeof_shared_ptr (UnserializeTransaction fAllowWitness) s) (\<lambda>(txs, s).
       Inr (CBlockHeader.extend h \<lparr>vtx = txs, fChecked = False\<rparr>, s)))"

section \<open>Well-formed values\<close>

definition fits_int32 :: "int \<Rightarrow> bool" where
  "fits_int32 v \<longleftrightarrow> - (2 ^ 31) \<le> v \<and> v < 2 ^ 31"

definition wf_uint256 :: "uint256 \<Rightarrow> bool" where
  "wf_uint256 d \<longleftrightarrow> length d = 32"

definition wf_outpoint :: "COutPoint \<Rightarrow> bool" where
  "wf_outpoint p \<longleftrightarrow> wf_uint256 (outHash p)"

definition wf_stack :: "CScriptWitness \<Rightarrow> bool" where
  "wf_stack st \<longleftrightarrow> list_all fits_MAX_SIZE st \<and> fits_MAX_SIZE st"

definition wf_txin :: "CTxIn \<Rightarrow> bool" where
  "wf_txin i \<longleftrightarrow> wf_outpoint (prevout i) \<and> fits_MAX_SIZE (scriptSig i)"

definition wf_txout :: "CTxOut \<Rightarrow> bool" where
  "wf_txout out \<longleftrightarrow> fits_int64 (nValue out) \<and> fits_MAX_SIZE (scriptPubKey out)"

text \<open>The transactions the encoding can represent: with witnesses allowed, an empty input
  vector needs an empty output vector, because the bytes that follow are read as flags;
  without them, no input has a witness.\<close>

definition wf_tx :: "bool \<Rightarrow> CTransaction \<Rightarrow> bool" where
  "wf_tx fAllowWitness tx \<longleftrightarrow>
     list_all wf_txin (vin tx) \<and> fits_MAX_SIZE (vin tx) \<and>
     list_all wf_txout (vout tx) \<and> fits_MAX_SIZE (vout tx) \<and> fits_int32 (nVersion tx) \<and>
     list_all (\<lambda>i. wf_stack (scriptWitness i)) (vin tx) \<and>
     (if fAllowWitness then vin tx = [] \<longrightarrow> vout tx = [] else \<not> HasWitness tx)"

lemma has_witness_loop_iff: "has_witness_loop is \<longleftrightarrow> (\<exists>i \<in> set is. scriptWitness i \<noteq> [])"
  by (induction "is") auto

section \<open>The codecs of the parts\<close>

lemma sint_of_int32: "fits_int32 a \<Longrightarrow> sint (of_int a :: u32) = a"
  by (simp add: fits_int32_def sint_sbintrunc' signed_take_bit_int_eq_self)

lemma fits_int32_sint: "fits_int32 (sint (w :: u32))"
  using sint_greater_eq [of w] sint_less [of w] by (simp add: fits_int32_def)

lemma sint_of_int64: "fits_int64 a \<Longrightarrow> sint (of_int a :: u64) = a"
  by (simp add: fits_int64_def INT64_MIN_def INT64_MAX_def sint_sbintrunc' signed_take_bit_int_eq_self)

lemma fits_int64_sint: "fits_int64 (sint (w :: u64))"
  using sint_greater_eq [of w] sint_less [of w] by (simp add: fits_int64_def INT64_MIN_def INT64_MAX_def)

interpretation i32: canonical_codec Serialize_int32 Unserialize_int32 fits_int32
  by unfold_locales
     (auto simp: Serialize_int32_def Unserialize_int32_def u32.decode sint_of_int32 ebind_eq_Inr
       fits_int32_sint dest: u32.canonical)

interpretation i64: canonical_codec Serialize_int64 Unserialize_int64 fits_int64
  by unfold_locales
     (auto simp: Serialize_int64_def Unserialize_int64_def u64.decode sint_of_int64 ebind_eq_Inr
       fits_int64_sint dest: u64.canonical)

interpretation h256: canonical_codec Serialize_uint256 Unserialize_uint256 wf_uint256
  by unfold_locales
     (auto simp: Serialize_uint256_def Unserialize_uint256_def wf_uint256_def stream_read_Inr)

interpretation outpoint: canonical_codec Serialize_outpoint Unserialize_outpoint wf_outpoint
  by unfold_locales
     (auto simp: Serialize_outpoint_def Unserialize_outpoint_def wf_outpoint_def h256.decode u32.decode
       ebind_eq_Inr dest!: h256.canonical u32.canonical)

interpretation txin: canonical_codec Serialize_txin Unserialize_txin "\<lambda>i. wf_txin i \<and> scriptWitness i = []"
  by unfold_locales
     (auto simp: Serialize_txin_def Unserialize_txin_def wf_txin_def outpoint.decode u32.decode blob.decode
       ebind_eq_Inr dest!: outpoint.canonical u32.canonical blob.canonical)

interpretation txout: canonical_codec Serialize_txout Unserialize_txout wf_txout
  by unfold_locales
     (auto simp: Serialize_txout_def Unserialize_txout_def wf_txout_def i64.decode blob.decode
       ebind_eq_Inr dest!: i64.canonical blob.canonical)

interpretation stack: canonical_codec Serialize_stack Unserialize_stack wf_stack
  by unfold_locales
     (auto simp: Serialize_stack_def Unserialize_stack_def wf_stack_def blob.vector_decode
       dest!: blob.vector_canonical)

interpretation outs: canonical_codec Serialize_vout Unserialize_vout "\<lambda>v. list_all wf_txout v \<and> fits_MAX_SIZE v"
  by unfold_locales
     (auto simp: Serialize_vout_def Unserialize_vout_def txout.vector_decode dest!: txout.vector_canonical)

interpretation ins: canonical_codec Serialize_vin Unserialize_vin
    "\<lambda>v. list_all (\<lambda>i. wf_txin i \<and> scriptWitness i = []) v \<and> fits_MAX_SIZE v"
  by unfold_locales
     (auto simp: Serialize_vin_def Unserialize_vin_def txin.vector_decode dest!: txin.vector_canonical)

section \<open>Witnesses\<close>

abbreviation strip :: "CTxIn \<Rightarrow> CTxIn" where
  "strip i \<equiv> i\<lparr>scriptWitness := []\<rparr>"

lemma Serialize_txin_strip [simp]: "Serialize_txin (i\<lparr>scriptWitness := w\<rparr>) = Serialize_txin i"
  by (simp add: Serialize_txin_def)

lemma Serialize_vin_strip: "Serialize_vin (map strip v) = Serialize_vin v"
  by (simp add: Serialize_vin_def Serialize_vector_def comp_def)

lemma strip_ok:
  "list_all wf_txin v \<and> fits_MAX_SIZE v \<Longrightarrow>
   list_all (\<lambda>i. wf_txin i \<and> scriptWitness i = []) (map strip v) \<and> fits_MAX_SIZE (map strip v)"
  by (auto simp: list_all_iff wf_txin_def fits_MAX_SIZE_def)

lemma ins_decode: "list_all wf_txin v \<Longrightarrow> fits_MAX_SIZE v \<Longrightarrow>
   Unserialize_vin (Serialize_vin v @ s) = Inr (map strip v, s)"
  using ins.decode [of "map strip v" s] strip_ok [of v] by (simp add: Serialize_vin_strip)

lemma read_witnesses_decode:
  "list_all (\<lambda>i. wf_stack (scriptWitness i)) is \<Longrightarrow>
   read_witnesses (map strip is) (concat (map (\<lambda>i. Serialize_stack (scriptWitness i)) is) @ s) = Inr (is, s)"
  by (induction "is") (simp_all add: stack.decode)

lemma read_witnesses_canonical:
  "read_witnesses is s = Inr (js, rest) \<Longrightarrow> 
   map strip js = map strip is \<and> list_all (\<lambda>i. wf_stack (scriptWitness i)) js \<and>
   s = concat (map (\<lambda>i. Serialize_stack (scriptWitness i)) js) @ rest"
proof (induction "is" arbitrary: s js)
  case (Cons i "is")
  then obtain st t js' where "Unserialize_stack s = Inr (st, t)" "read_witnesses is t = Inr (js', rest)"
    "js = i\<lparr>scriptWitness := st\<rparr> # js'"
    by (auto simp: ebind_eq_Inr)
  then show ?case using Cons.IH [of t js'] stack.canonical [of s st t] by simp
qed simp

section \<open>Transactions\<close>

lemma vout_first_byte: "ser_readdata8 (Serialize_vout [] @ s) = Inr (0, s)"
  by (simp add: Serialize_vout_def Serialize_vector_def WriteCompactSize_def u8.decode)

lemma map_strip_id: "\<not> has_witness_loop v \<Longrightarrow> map strip v = v"
  by (auto simp: has_witness_loop_iff intro!: map_idI)

lemma UnserializeTransaction_decode:
  assumes "wf_tx f tx"
  shows "UnserializeTransaction f (SerializeTransaction f tx @ s) = Inr (tx, s)"
proof -
  have wf: "list_all wf_txin (vin tx)" "fits_MAX_SIZE (vin tx)"
    "list_all wf_txout (vout tx)" "fits_MAX_SIZE (vout tx)" "fits_int32 (nVersion tx)"
    "list_all (\<lambda>i. wf_stack (scriptWitness i)) (vin tx)"
    using assms by (simp_all add: wf_tx_def)
  note d = i32.decode [OF wf(5)] outs.decode [OF conjI [OF wf(3,4)]] ins_decode [OF wf(1,2)]
    read_witnesses_decode [OF wf(6)] u32.decode u8.decode
  have e: "Unserialize_vin (Serialize_vin [] @ t) = Inr ([], t)" for t
    using ins_decode [of "[]" t] by (simp add: fits_MAX_SIZE_def)
  consider (witness) "f" "has_witness_loop (vin tx)" | (empty) "f" "vin tx = []" "vout tx = []"
    | (plain) "\<not> has_witness_loop (vin tx)" "\<not> f \<or> vin tx \<noteq> []"
    using assms by (auto simp: wf_tx_def HasWitness_def split: if_splits)
  then show ?thesis
  proof cases
    case witness
    then show ?thesis by (simp add: UnserializeTransaction_def SerializeTransaction_def HasWitness_def d e)
  next
    case empty
    then show ?thesis
      by (simp add: UnserializeTransaction_def SerializeTransaction_def HasWitness_def d e vout_first_byte)
  next
    case plain
    then show ?thesis using map_strip_id [OF plain(1)]
      by (auto simp add: UnserializeTransaction_def SerializeTransaction_def HasWitness_def d)
  qed
qed

lemma flags_is_one: "flags AND 1 \<noteq> 0 \<Longrightarrow> flags XOR 1 = 0 \<Longrightarrow> flags = (1 :: u8)"
  by (metis xor.assoc xor.right_neutral xor_self_eq)

lemma UnserializeTransaction_canonical:
  assumes "UnserializeTransaction f s = Inr (tx, rest)"
  shows "s = SerializeTransaction f tx @ rest \<and> wf_tx f tx"
proof -
  from assms obtain v s1 ins1 s2 where
    1: "Unserialize_int32 s = Inr (v, s1)" and 2: "Unserialize_vin s1 = Inr (ins1, s2)"
    by (auto simp: UnserializeTransaction_def ebind_eq_Inr)
  note r = assms [unfolded UnserializeTransaction_def 1 2 ebind_simps prod.case]
  note c = i32.canonical [OF 1] ins.canonical [OF 2]
  show ?thesis
  proof (cases "ins1 = [] \<and> f")
    case True
    then obtain fl s3 where 3: "ser_readdata8 s2 = Inr (fl, s3)" using r by (auto simp: ebind_eq_Inr)
    show ?thesis
    proof (cases "fl = 0")
      case zero: True
      then obtain lk where "ser_readdata32 s3 = Inr (lk, rest)" and tx: "tx = \<lparr>vin = [], vout = [], nVersion = v, nLockTime = lk\<rparr>"
        using r 3 True by (auto simp: ebind_eq_Inr)
      then show ?thesis
        using c u8.canonical [OF 3] u32.canonical [of s3 lk rest] zero True
        by (simp add: tx SerializeTransaction_def HasWitness_def wf_tx_def fits_MAX_SIZE_def
            Serialize_vout_def Serialize_vector_def WriteCompactSize_def)
    next
      case nonzero: False
      then obtain ins2 s4 outs2 s5 where 4: "Unserialize_vin s3 = Inr (ins2, s4)" "Unserialize_vout s4 = Inr (outs2, s5)"
        using r 3 True by (auto simp: ebind_eq_Inr)
      obtain js s6 lk where 5: "read_witnesses ins2 s5 = Inr (js, s6)" "ser_readdata32 s6 = Inr (lk, rest)"
        and w: "has_witness_loop js" "fl = 1"
        and tx: "tx = \<lparr>vin = js, vout = outs2, nVersion = v, nLockTime = lk\<rparr>"
        using r 3 4 True nonzero by (auto simp: ebind_eq_Inr flags_is_one split: if_splits)
      have len: "length js = length ins2"
        using read_witnesses_canonical [OF 5(1)] by (metis length_map)
      have js: "list_all wf_txin js" "fits_MAX_SIZE js" "Serialize_vin js = Serialize_vin ins2" "js \<noteq> []"
      proof -
        have m: "map strip js = map strip ins2" using read_witnesses_canonical [OF 5(1)] by simp
        then have "wf_txin (js ! k) = wf_txin (ins2 ! k)" if "k < length js" for k
          using that len by (metis (no_types, lifting) nth_map wf_txin_def CTxIn.select_convs CTxIn.update_convs(4) CTxIn.surjective)
        then show "list_all wf_txin js" using ins.canonical [OF 4(1)] len by (simp add: list_all_length)
        show "fits_MAX_SIZE js" using ins.canonical [OF 4(1)] len by (simp add: fits_MAX_SIZE_def)
        show "Serialize_vin js = Serialize_vin ins2" using m by (metis Serialize_vin_strip)
        show "js \<noteq> []" using w by auto
      qed
      show ?thesis
        using c u8.canonical [OF 3] ins.canonical [OF 4(1)] outs.canonical [OF 4(2)]
          read_witnesses_canonical [OF 5(1)] u32.canonical [OF 5(2)] w True js
        by (simp add: tx SerializeTransaction_def HasWitness_def wf_tx_def)
    qed
  next
    case False
    then obtain outs2 s3 lk where 3: "Unserialize_vout s2 = Inr (outs2, s3)" "ser_readdata32 s3 = Inr (lk, rest)"
        and tx: "tx = \<lparr>vin = ins1, vout = outs2, nVersion = v, nLockTime = lk\<rparr>"
      using r by (auto simp: ebind_eq_Inr)
    have "\<not> has_witness_loop ins1" using c by (auto simp: has_witness_loop_iff list_all_iff)
    then show ?thesis
      using c outs.canonical [OF 3(1)] u32.canonical [OF 3(2)] False
      by (auto simp: tx SerializeTransaction_def HasWitness_def wf_tx_def list_all_iff wf_stack_def fits_MAX_SIZE_def)
  qed
qed

interpretation transaction: canonical_codec "SerializeTransaction f" "UnserializeTransaction f" "wf_tx f" for f
  by unfold_locales (simp_all add: UnserializeTransaction_decode UnserializeTransaction_canonical)

section \<open>Blocks\<close>

definition wf_header_base :: "'a CBlockHeaderBase_scheme \<Rightarrow> bool" where
  "wf_header_base h \<longleftrightarrow> fits_int32 (hVersion h) \<and> wf_uint256 (hashPrevBlock h) \<and> wf_uint256 (hashMerkleRoot h) \<and>
     wf_uint256 (hashStateRoot h) \<and> wf_uint256 (hashUTXORoot h) \<and> wf_outpoint (prevoutStake h)"

definition wf_header :: "'a CBlockHeader_scheme \<Rightarrow> bool" where
  "wf_header h \<longleftrightarrow> wf_header_base h \<and> fits_MAX_SIZE (vchBlockSig h)"

definition wf_block :: "bool \<Rightarrow> CBlock \<Rightarrow> bool" where
  "wf_block f b \<longleftrightarrow> wf_header b \<and> list_all (wf_tx f) (vtx b) \<and> fits_MAX_SIZE (vtx b) \<and> \<not> fChecked b"

interpretation header_base: canonical_codec Serialize_header_base Unserialize_header_base wf_header_base
proof
  fix h :: CBlockHeaderBase and s
  assume "wf_header_base h"
  then show "Unserialize_header_base (Serialize_header_base h @ s) = Inr (h, s)"
    by (simp add: Serialize_header_base_def Unserialize_header_base_def wf_header_base_def
        i32.decode h256.decode u32.decode outpoint.decode)
next
  fix s rest and h :: CBlockHeaderBase
  assume "Unserialize_header_base s = Inr (h, rest)"
  then show "s = Serialize_header_base h @ rest \<and> wf_header_base h"
    by (auto simp: Serialize_header_base_def Unserialize_header_base_def wf_header_base_def ebind_eq_Inr
        dest!: i32.canonical h256.canonical u32.canonical outpoint.canonical)
qed

lemma header_base_truncate:
  "Serialize_header_base (CBlockHeaderBase.truncate h) = Serialize_header_base h"
  "wf_header_base (CBlockHeaderBase.truncate h) = wf_header_base h"
  by (simp_all add: Serialize_header_base_def wf_header_base_def CBlockHeaderBase.defs)

lemma header_base_extend:
  "Serialize_header_base (CBlockHeaderBase.extend b m) = Serialize_header_base b"
  "wf_header_base (CBlockHeaderBase.extend b m) = wf_header_base b"
  "vchBlockSig (CBlockHeaderBase.extend b \<lparr>vchBlockSig = sig\<rparr>) = sig"
  by (simp_all add: Serialize_header_base_def wf_header_base_def CBlockHeaderBase.defs)

interpretation header: canonical_codec Serialize_header Unserialize_header "wf_header :: CBlockHeader \<Rightarrow> bool"
proof
  fix h :: CBlockHeader and s
  assume h: "wf_header h"
  then have "Unserialize_header_base (Serialize_header_base h @ t) = Inr (CBlockHeaderBase.truncate h, t)" for t
    using header_base.decode [of "CBlockHeaderBase.truncate h" t] by (simp add: header_base_truncate wf_header_def)
  then show "Unserialize_header (Serialize_header h @ s) = Inr (h, s)" using h
    by (simp add: Unserialize_header_def Serialize_header_def blob.decode wf_header_def CBlockHeaderBase.defs)
next
  fix s rest and h :: CBlockHeader
  assume "Unserialize_header s = Inr (h, rest)"
  then show "s = Serialize_header h @ rest \<and> wf_header h"
    by (auto simp: Unserialize_header_def Serialize_header_def wf_header_def ebind_eq_Inr header_base_extend
        dest!: header_base.canonical blob.canonical)
qed

lemma header_truncate:
  "Serialize_header (CBlockHeader.truncate b) = Serialize_header b"
  "wf_header (CBlockHeader.truncate b) = wf_header b"
  by (simp_all add: Serialize_header_def wf_header_def Serialize_header_base_def wf_header_base_def CBlockHeader.defs)

lemma header_extend:
  "Serialize_header (CBlockHeader.extend h m) = Serialize_header h"
  "wf_header (CBlockHeader.extend h m) = wf_header h"
  by (simp_all add: Serialize_header_def wf_header_def Serialize_header_base_def wf_header_base_def CBlockHeader.defs)

interpretation block: canonical_codec "Serialize_block f" "Unserialize_block f" "wf_block f" for f
proof
  fix b :: CBlock and s
  assume b: "wf_block f b"
  then have "Unserialize_header (Serialize_header b @ t) = Inr (CBlockHeader.truncate b, t)" for t
    using header.decode [of "CBlockHeader.truncate b" t] by (simp add: header_truncate wf_block_def)
  then show "Unserialize_block f (Serialize_block f b @ s) = Inr (b, s)" using b
    by (simp add: Unserialize_block_def Serialize_block_def transaction.vector_decode wf_block_def CBlockHeader.defs)
next
  fix s rest and b :: CBlock
  assume "Unserialize_block f s = Inr (b, rest)"
  then obtain h t txs where h: "Unserialize_header s = Inr (h, t)" 
    and t: "Unserialize_vector sizeof_shared_ptr (UnserializeTransaction f) t = Inr (txs, rest)"
    and b: "b = CBlockHeader.extend h \<lparr>vtx = txs, fChecked = False\<rparr>"
    by (auto simp: Unserialize_block_def ebind_eq_Inr)
  have "vtx b = txs" "\<not> fChecked b" by (simp_all add: b CBlockHeader.defs)
  then show "s = Serialize_block f b @ rest \<and> wf_block f b"
    using header.canonical [OF h] transaction.vector_canonical [OF t]
    by (simp add: Serialize_block_def wf_block_def) (simp add: b header_extend)
qed

section \<open>Sums of outputs\<close>

definition unburnt :: "CTxOut list \<Rightarrow> CTxOut list" where
  "unburnt outs = filter (\<lambda>out. \<not> IsBurnt (scriptPubKey out)) outs"

definition value_sum :: "CTxOut list \<Rightarrow> int" where
  "value_sum outs = sum_list (map nValue (unburnt outs))"

lemma value_out_loop_eq:
  "MoneyRange acc \<Longrightarrow> list_all (\<lambda>out. MoneyRange (nValue out)) (unburnt outs) \<Longrightarrow>
   value_out_loop outs acc =
     (if MoneyRange (acc + value_sum outs) then Inr (acc + value_sum outs) else Inl Value_out_of_range)"
proof (induction outs arbitrary: acc)
  case (Cons out outs)
  show ?case
  proof (cases "IsBurnt (scriptPubKey out)")
    case True
    then show ?thesis using Cons by (simp add: unburnt_def value_sum_def)
  next
    case False
    then have m: "MoneyRange (nValue out)" "list_all (\<lambda>out. MoneyRange (nValue out)) (unburnt outs)"
      using Cons.prems by (simp_all add: unburnt_def)
    have v: "value_sum (out # outs) = nValue out + value_sum outs"
      using False by (simp add: value_sum_def unburnt_def)
    have pos: "0 \<le> value_sum outs"
      using m(2) unfolding value_sum_def list_all_iff
      by (intro sum_list_nonneg) (auto simp: MoneyRange_def)
    have fits: "fits_int64 (acc + nValue out)"
      using Cons.prems(1) m(1) by (auto simp: MoneyRange_def fits_int64_def INT64_MIN_def INT64_MAX_def MAX_MONEY_def COIN_def)
    show ?thesis
    proof (cases "MoneyRange (acc + nValue out)")
      case True
      then show ?thesis using Cons.IH [OF True m(2)] False fits m v by (simp add: add.assoc)
    next
      case out: False
      then have "\<not> MoneyRange (acc + value_sum (out # outs))"
        using pos Cons.prems(1) m(1) v by (auto simp: MoneyRange_def)
      then show ?thesis using False fits out by simp
    qed
  qed
qed (simp add: value_sum_def unburnt_def)

lemma value_out_loop_Inr:
  "value_out_loop outs acc = Inr v \<Longrightarrow> MoneyRange acc \<Longrightarrow>
   list_all (\<lambda>out. MoneyRange (nValue out)) (unburnt outs)"
  by (induction outs arbitrary: acc) (auto simp: unburnt_def Let_def split: if_splits)

section \<open>The order of outpoints\<close>

lemma memcmp_eq_0: "length xs = length ys \<Longrightarrow> memcmp xs ys = 0 \<longleftrightarrow> xs = ys"
  by (induction xs ys rule: list_induct2) auto

lemma memcmp_swap: "length xs = length ys \<Longrightarrow> memcmp ys xs = - memcmp xs ys"
  by (induction xs ys rule: list_induct2) auto

lemma memcmp_trans:
  "length xs = length ys \<Longrightarrow> length ys = length zs \<Longrightarrow> memcmp xs ys < 0 \<Longrightarrow> memcmp ys zs < 0 \<Longrightarrow> memcmp xs zs < 0"
  by (induction xs ys zs rule: list_induct3) (auto split: if_splits)

section \<open>Properties\<close>

text \<open>C1: The transaction encoding is a canonical code, with and without witnesses: every
  representable transaction is read back exactly from its bytes whatever follows them, and
  every byte sequence the reader accepts is the encoding of the transaction it returns, so
  a transaction has one encoding and no byte of it is ignored.\<close>

theorem transaction_encoding_canonical:
  "(wf_tx f tx \<longrightarrow> UnserializeTransaction f (SerializeTransaction f tx @ s) = Inr (tx, s)) \<and>
   (UnserializeTransaction f t = Inr (tx', rest) \<longrightarrow> t = SerializeTransaction f tx' @ rest \<and> wf_tx f tx')"
  by (simp add: transaction.decode transaction.canonical)

theorem transaction_encoding_canonical_witness:
  "UnserializeTransaction True (SerializeTransaction True
       \<lparr>vin = [\<lparr>prevout = COutPoint_null, scriptSig = [OP_1], nSequence = 7, scriptWitness = [[1, 2]]\<rparr>],
        vout = [\<lparr>nValue = 5, scriptPubKey = [OP_2]\<rparr>], nVersion = - 2, nLockTime = 9\<rparr>) =
     Inr (\<lparr>vin = [\<lparr>prevout = COutPoint_null, scriptSig = [OP_1], nSequence = 7, scriptWitness = [[1, 2]]\<rparr>],
        vout = [\<lparr>nValue = 5, scriptPubKey = [OP_2]\<rparr>], nVersion = - 2, nLockTime = 9\<rparr>, []) \<and>
   [2, 0, 0, 0, 0, 0, 1, 0, 0, 0] = SerializeTransaction True \<lparr>vin = [], vout = [], nVersion = 2, nLockTime = 1\<rparr>"
proof -
  let ?tx = "\<lparr>vin = [\<lparr>prevout = COutPoint_null, scriptSig = [OP_1], nSequence = 7, scriptWitness = [[1, 2]]\<rparr>],
        vout = [\<lparr>nValue = 5, scriptPubKey = [OP_2]\<rparr>], nVersion = - 2, nLockTime = 9\<rparr>"
  have "wf_tx True ?tx"
    by (simp add: wf_tx_def wf_txin_def wf_outpoint_def wf_uint256_def COutPoint_null_def uint256_null_def
        fits_MAX_SIZE_def wf_txout_def fits_int64_def INT64_MIN_def INT64_MAX_def fits_int32_def wf_stack_def)
  moreover have "UnserializeTransaction True [2, 0, 0, 0, 0, 0, 1, 0, 0, 0] =
      Inr (\<lparr>vin = [], vout = [], nVersion = 2, nLockTime = 1\<rparr>, [])" by code_simp
  ultimately show ?thesis
    using transaction_encoding_canonical [of True ?tx "[]" "[2, 0, 0, 0, 0, 0, 1, 0, 0, 0]"
        "\<lparr>vin = [], vout = [], nVersion = 2, nLockTime = 1\<rparr>" "[]"] by simp
qed

text \<open>C32: The block encoding, header with its stake fields and signature and the vector of
  transactions, is a canonical code as well.\<close>

theorem block_encoding_canonical:
  "(wf_block f b \<longrightarrow> Unserialize_block f (Serialize_block f b @ s) = Inr (b, s)) \<and>
   (Unserialize_block f t = Inr (b', rest) \<longrightarrow> t = Serialize_block f b' @ rest \<and> wf_block f b')"
  by (simp add: block.decode block.canonical)

theorem block_encoding_canonical_witness:
  "Unserialize_block True (Serialize_block True (CBlock_of_header CBlockHeader_null) @ [3]) =
     Inr (CBlock_of_header CBlockHeader_null, [3]) \<and>
   replicate 182 0 = Serialize_block True \<lparr>hVersion = 0, hashPrevBlock = replicate 32 0, hashMerkleRoot = replicate 32 0,
      nTime = 0, nBits = 0, nNonce = 0, hashStateRoot = replicate 32 0, hashUTXORoot = replicate 32 0,
      prevoutStake = \<lparr>outHash = replicate 32 0, outN = 0\<rparr>, vchBlockSig = [], vtx = [], fChecked = False\<rparr>"
proof -
  let ?b = "\<lparr>hVersion = 0, hashPrevBlock = replicate 32 0, hashMerkleRoot = replicate 32 0,
      nTime = 0, nBits = 0, nNonce = 0, hashStateRoot = replicate 32 0, hashUTXORoot = replicate 32 0,
      prevoutStake = \<lparr>outHash = replicate 32 0, outN = 0\<rparr>, vchBlockSig = [], vtx = [], fChecked = False\<rparr>"
  have "wf_block True (CBlock_of_header CBlockHeader_null)"
    by (simp add: wf_block_def wf_header_def wf_header_base_def CBlock_of_header_def CBlockHeader_null_def
        CBlockHeader.defs wf_outpoint_def wf_uint256_def COutPoint_null_def uint256_null_def fits_MAX_SIZE_def
        fits_int32_def)
  moreover have "Unserialize_block True (replicate 182 0) = Inr (?b, [])" by code_simp
  ultimately show ?thesis
    using block_encoding_canonical [of True "CBlock_of_header CBlockHeader_null" "[3]" "replicate 182 0" ?b "[]"]
    by simp
qed

text \<open>C33: GetValueOut returns a sum exactly when every output that is not burnt is in range and so
  is their total, the sum is exact, and with outputs in range the 64-bit addition never
  overflows: the only failure is the exception.\<close>

theorem GetValueOut_exact:
  "(GetValueOut tx = Inr v \<longleftrightarrow>
     list_all (\<lambda>out. MoneyRange (nValue out)) (unburnt (vout tx)) \<and>
     MoneyRange (value_sum (vout tx)) \<and> v = value_sum (vout tx)) \<and>
   (list_all (\<lambda>out. MoneyRange (nValue out)) (unburnt (vout tx)) \<longrightarrow> GetValueOut tx \<noteq> Inl Signed_overflow)"
proof -
  have 0: "MoneyRange 0" by (simp add: MoneyRange_def MAX_MONEY_def COIN_def)
  show ?thesis
    using value_out_loop_eq [OF 0, of "vout tx"] value_out_loop_Inr [of "vout tx" 0 v] 0
    by (auto simp: GetValueOut_def split: if_splits)
qed

theorem GetValueOut_exact_witness:
  "GetValueOut \<lparr>vin = [], vout = [\<lparr>nValue = 3, scriptPubKey = []\<rparr>, \<lparr>nValue = 4, scriptPubKey = [OP_1]\<rparr>], nVersion = 2, nLockTime = 0\<rparr>
     \<noteq> Inl Signed_overflow"
  using GetValueOut_exact [of "\<lparr>vin = [], vout = [\<lparr>nValue = 3, scriptPubKey = []\<rparr>, \<lparr>nValue = 4, scriptPubKey = [OP_1]\<rparr>], nVersion = 2, nLockTime = 0\<rparr>" 7]
  by (simp add: unburnt_def IsBurnt_def IsPayToPubkeyHash_def MoneyRange_def MAX_MONEY_def COIN_def)

text \<open>The order on outpoints that the sets and maps of the program use is a strict total order
  on 256-bit hashes: irreflexive, transitive, and any two distinct outpoints are comparable.\<close>

lemma outpoint_order_total:
  assumes "wf_outpoint a" "wf_outpoint b" "wf_outpoint c"
  shows "\<not> COutPoint_less a a \<and> (COutPoint_less a b \<or> a = b \<or> COutPoint_less b a) \<and>
    (COutPoint_less a b \<and> COutPoint_less b c \<longrightarrow> COutPoint_less a c)"
proof -
  have l: "length (outHash a) = length (outHash b)" "length (outHash b) = length (outHash c)"
    using assms by (simp_all add: wf_outpoint_def wf_uint256_def)
  have ab: "outHash a = outHash b \<longleftrightarrow> memcmp (outHash a) (outHash b) = 0"
    "memcmp (outHash b) (outHash a) = - memcmp (outHash a) (outHash b)"
    using memcmp_eq_0 [OF l(1)] memcmp_swap [OF l(1)] by simp_all
  have "\<not> COutPoint_less a a"
    using memcmp_eq_0 [of "outHash a" "outHash a"] by (simp add: COutPoint_less_def uint256_Compare_def)
  moreover have "COutPoint_less a b \<or> a = b \<or> COutPoint_less b a"
    using ab by (cases a; cases b) (auto simp: COutPoint_less_def uint256_Compare_def Let_def)
  moreover have "COutPoint_less a c" if "COutPoint_less a b" "COutPoint_less b c"
    using that l memcmp_eq_0 [OF l(1)] memcmp_eq_0 [OF l(2)] memcmp_trans [OF l]
    by (auto simp: COutPoint_less_def uint256_Compare_def Let_def)
  ultimately show ?thesis by blast
qed

end
