(* ===== verification/Hashes.thy ===== *)
theory Hashes
  imports Transaction
begin

text \<open>
  The hash functions (src/src/crypto/sha256.cpp, sha512.cpp, sha1.cpp, ripemd160.cpp,
  hmac_sha256.cpp, hmac_sha512.cpp, src/src/hash.h).  The compression functions of the
  source are unrolled: the n-th line calls \<open>Round\<close> with its variables rotated n places
  and updates one cell of a ring of sixteen message words.  The model runs the same
  lines as a loop over the round constants, keeping the variables in a list and giving
  the n-th round the same rotated arguments.

  The lemmas show that SHA-256 and SHA-512 compute the compression function of the
  standard, with a fresh message schedule and shifted working variables, and that the
  buffered \<open>Write\<close> of every hasher absorbs a message whatever its division into calls.
\<close>

section \<open>Words in big-endian order\<close>

definition ReadBE32 :: "bytes \<Rightarrow> u32" where
  "ReadBE32 ptr = of_le_bytes (rev (take 4 ptr))"

definition ReadBE64 :: "bytes \<Rightarrow> u64" where
  "ReadBE64 ptr = of_le_bytes (rev (take 8 ptr))"

definition WriteBE32 :: "u32 \<Rightarrow> bytes" where
  "WriteBE32 x = rev (le_bytes 4 x)"

definition WriteBE64 :: "u64 \<Rightarrow> bytes" where
  "WriteBE64 x = rev (le_bytes 8 x)"

definition WriteLE64 :: "u64 \<Rightarrow> bytes" where
  "WriteLE64 x = le_bytes 8 x"

section \<open>SHA-256 and SHA-512\<close>

definition Ch :: "'a::len word \<Rightarrow> 'a word \<Rightarrow> 'a word \<Rightarrow> 'a word" where
  "Ch x y z = z XOR (x AND (y XOR z))"

definition Maj :: "'a::len word \<Rightarrow> 'a word \<Rightarrow> 'a word \<Rightarrow> 'a word" where
  "Maj x y z = (x AND y) OR (z AND (x OR y))"

definition sha256_Sigma0 :: "u32 \<Rightarrow> u32" where
  "sha256_Sigma0 x = (drop_bit 2 x OR push_bit 30 x) XOR (drop_bit 13 x OR push_bit 19 x) XOR (drop_bit 22 x OR push_bit 10 x)"

definition sha256_Sigma1 :: "u32 \<Rightarrow> u32" where
  "sha256_Sigma1 x = (drop_bit 6 x OR push_bit 26 x) XOR (drop_bit 11 x OR push_bit 21 x) XOR (drop_bit 25 x OR push_bit 7 x)"

definition sha256_sigma0 :: "u32 \<Rightarrow> u32" where
  "sha256_sigma0 x = (drop_bit 7 x OR push_bit 25 x) XOR (drop_bit 18 x OR push_bit 14 x) XOR drop_bit 3 x"

definition sha256_sigma1 :: "u32 \<Rightarrow> u32" where
  "sha256_sigma1 x = (drop_bit 17 x OR push_bit 15 x) XOR (drop_bit 19 x OR push_bit 13 x) XOR drop_bit 10 x"

definition sha512_Sigma0 :: "u64 \<Rightarrow> u64" where
  "sha512_Sigma0 x = (drop_bit 28 x OR push_bit 36 x) XOR (drop_bit 34 x OR push_bit 30 x) XOR (drop_bit 39 x OR push_bit 25 x)"

definition sha512_Sigma1 :: "u64 \<Rightarrow> u64" where
  "sha512_Sigma1 x = (drop_bit 14 x OR push_bit 50 x) XOR (drop_bit 18 x OR push_bit 46 x) XOR (drop_bit 41 x OR push_bit 23 x)"

definition sha512_sigma0 :: "u64 \<Rightarrow> u64" where
  "sha512_sigma0 x = (drop_bit 1 x OR push_bit 63 x) XOR (drop_bit 8 x OR push_bit 56 x) XOR drop_bit 7 x"

definition sha512_sigma1 :: "u64 \<Rightarrow> u64" where
  "sha512_sigma1 x = (drop_bit 19 x OR push_bit 45 x) XOR (drop_bit 61 x OR push_bit 3 x) XOR drop_bit 6 x"

text \<open>One round: the arguments d and h are passed by reference, the result is their new
  values.  \<open>kw\<close> is the sum of the round constant and the message word.\<close>

definition sha2_Round :: "('a::len word \<Rightarrow> 'a word) \<Rightarrow> ('a word \<Rightarrow> 'a word) \<Rightarrow>
    'a word \<Rightarrow> 'a word \<Rightarrow> 'a word \<Rightarrow> 'a word \<Rightarrow> 'a word \<Rightarrow> 'a word \<Rightarrow> 'a word \<Rightarrow> 'a word \<Rightarrow> 'a word \<Rightarrow> 'a word \<times> 'a word" where
  "sha2_Round S0 S1 a b c d e f g h kw =
     (let t1 = h + S1 e + Ch e f g + kw; t2 = S0 a + Maj a b c in (d + t1, t1 + t2))"

text \<open>The variable that the n-th line passes as its i-th argument.\<close>

definition arg8 :: "nat \<Rightarrow> nat \<Rightarrow> nat" where
  "arg8 n i = (i + 7 * n) mod 8"

definition sha2_round_at :: "('a::len word \<Rightarrow> 'a word) \<Rightarrow> ('a word \<Rightarrow> 'a word) \<Rightarrow> nat \<Rightarrow> 'a word \<Rightarrow> 'a word list \<Rightarrow> 'a word list" where
  "sha2_round_at S0 S1 n kw v =
     (let (d, h) = sha2_Round S0 S1 (v ! arg8 n 0) (v ! arg8 n 1) (v ! arg8 n 2) (v ! arg8 n 3)
            (v ! arg8 n 4) (v ! arg8 n 5) (v ! arg8 n 6) (v ! arg8 n 7) kw
      in v[arg8 n 3 := d, arg8 n 7 := h])"

definition sha2_schedule :: "('a::len word \<Rightarrow> 'a word) \<Rightarrow> ('a word \<Rightarrow> 'a word) \<Rightarrow> nat \<Rightarrow> 'a word list \<Rightarrow> 'a word list" where
  "sha2_schedule s0 s1 n w =
     (if n < 16 then w
      else w[n mod 16 := w ! (n mod 16) + (s1 (w ! ((n + 14) mod 16)) + w ! ((n + 9) mod 16) + s0 (w ! ((n + 1) mod 16)))])"

primrec sha2_rounds :: "('a::len word \<Rightarrow> 'a word) \<Rightarrow> ('a word \<Rightarrow> 'a word) \<Rightarrow> ('a word \<Rightarrow> 'a word) \<Rightarrow> ('a word \<Rightarrow> 'a word) \<Rightarrow>
    'a word list \<Rightarrow> nat \<Rightarrow> 'a word list \<Rightarrow> 'a word list \<Rightarrow> 'a word list" where
  "sha2_rounds S0 S1 s0 s1 [] n w v = v"
| "sha2_rounds S0 S1 s0 s1 (k # ks) n w v =
     (let w = sha2_schedule s0 s1 n w
      in sha2_rounds S0 S1 s0 s1 ks (Suc n) w (sha2_round_at S0 S1 n (k + w ! (n mod 16)) v))"

text \<open>The round constants, a row for every eight lines, after which the variables are back in
  their places.\<close>

definition sha256_K :: "u32 list" where
  "sha256_K = concat [
     [0x428a2f98, 0x71374491, 0xb5c0fbcf, 0xe9b5dba5, 0x3956c25b, 0x59f111f1, 0x923f82a4, 0xab1c5ed5],
     [0xd807aa98, 0x12835b01, 0x243185be, 0x550c7dc3, 0x72be5d74, 0x80deb1fe, 0x9bdc06a7, 0xc19bf174],
     [0xe49b69c1, 0xefbe4786, 0x0fc19dc6, 0x240ca1cc, 0x2de92c6f, 0x4a7484aa, 0x5cb0a9dc, 0x76f988da],
     [0x983e5152, 0xa831c66d, 0xb00327c8, 0xbf597fc7, 0xc6e00bf3, 0xd5a79147, 0x06ca6351, 0x14292967],
     [0x27b70a85, 0x2e1b2138, 0x4d2c6dfc, 0x53380d13, 0x650a7354, 0x766a0abb, 0x81c2c92e, 0x92722c85],
     [0xa2bfe8a1, 0xa81a664b, 0xc24b8b70, 0xc76c51a3, 0xd192e819, 0xd6990624, 0xf40e3585, 0x106aa070],
     [0x19a4c116, 0x1e376c08, 0x2748774c, 0x34b0bcb5, 0x391c0cb3, 0x4ed8aa4a, 0x5b9cca4f, 0x682e6ff3],
     [0x748f82ee, 0x78a5636f, 0x84c87814, 0x8cc70208, 0x90befffa, 0xa4506ceb, 0xbef9a3f7, 0xc67178f2]]"

definition sha512_K :: "u64 list" where
  "sha512_K = concat [
     [0x428a2f98d728ae22, 0x7137449123ef65cd, 0xb5c0fbcfec4d3b2f, 0xe9b5dba58189dbbc,
      0x3956c25bf348b538, 0x59f111f1b605d019, 0x923f82a4af194f9b, 0xab1c5ed5da6d8118],
     [0xd807aa98a3030242, 0x12835b0145706fbe, 0x243185be4ee4b28c, 0x550c7dc3d5ffb4e2,
      0x72be5d74f27b896f, 0x80deb1fe3b1696b1, 0x9bdc06a725c71235, 0xc19bf174cf692694],
     [0xe49b69c19ef14ad2, 0xefbe4786384f25e3, 0x0fc19dc68b8cd5b5, 0x240ca1cc77ac9c65,
      0x2de92c6f592b0275, 0x4a7484aa6ea6e483, 0x5cb0a9dcbd41fbd4, 0x76f988da831153b5],
     [0x983e5152ee66dfab, 0xa831c66d2db43210, 0xb00327c898fb213f, 0xbf597fc7beef0ee4,
      0xc6e00bf33da88fc2, 0xd5a79147930aa725, 0x06ca6351e003826f, 0x142929670a0e6e70],
     [0x27b70a8546d22ffc, 0x2e1b21385c26c926, 0x4d2c6dfc5ac42aed, 0x53380d139d95b3df,
      0x650a73548baf63de, 0x766a0abb3c77b2a8, 0x81c2c92e47edaee6, 0x92722c851482353b],
     [0xa2bfe8a14cf10364, 0xa81a664bbc423001, 0xc24b8b70d0f89791, 0xc76c51a30654be30,
      0xd192e819d6ef5218, 0xd69906245565a910, 0xf40e35855771202a, 0x106aa07032bbd1b8],
     [0x19a4c116b8d2d0c8, 0x1e376c085141ab53, 0x2748774cdf8eeb99, 0x34b0bcb5e19b48a8,
      0x391c0cb3c5c95a63, 0x4ed8aa4ae3418acb, 0x5b9cca4f7763e373, 0x682e6ff3d6b2b8a3],
     [0x748f82ee5defb2fc, 0x78a5636f43172f60, 0x84c87814a1f0ab72, 0x8cc702081a6439ec,
      0x90befffa23631e28, 0xa4506cebde82bde9, 0xbef9a3f7b2c67915, 0xc67178f2e372532b],
     [0xca273eceea26619c, 0xd186b8c721c0c207, 0xeada7dd6cde0eb1e, 0xf57d4f7fee6ed178,
      0x06f067aa72176fba, 0x0a637dc5a2c898a6, 0x113f9804bef90dae, 0x1b710b35131c471b],
     [0x28db77f523047d84, 0x32caab7b40c72493, 0x3c9ebe0a15c9bebc, 0x431d67c49c100d4c,
      0x4cc5d4becb3e42b6, 0x597f299cfc657e2a, 0x5fcb6fab3ad6faec, 0x6c44198c4a475817]]"

definition sha256_Initialize :: "u32 list" where
  "sha256_Initialize =
     [0x6a09e667, 0xbb67ae85, 0x3c6ef372, 0xa54ff53a, 0x510e527f, 0x9b05688c, 0x1f83d9ab, 0x5be0cd19]"

definition sha512_Initialize :: "u64 list" where
  "sha512_Initialize =
     [0x6a09e667f3bcc908, 0xbb67ae8584caa73b, 0x3c6ef372fe94f82b, 0xa54ff53a5f1d36f1,
      0x510e527fade682d1, 0x9b05688c2b3e6c1f, 0x1f83d9abfb41bd6b, 0x5be0cd19137e2179]"

definition sha256_Transform :: "u32 list \<Rightarrow> bytes \<Rightarrow> u32 list" where
  "sha256_Transform s chunk =
     (let w = map (\<lambda>i. ReadBE32 (drop (4 * i) chunk)) [0..<16];
          v = sha2_rounds sha256_Sigma0 sha256_Sigma1 sha256_sigma0 sha256_sigma1 sha256_K 0 w s
      in map2 (+) s v)"

definition sha512_Transform :: "u64 list \<Rightarrow> bytes \<Rightarrow> u64 list" where
  "sha512_Transform s chunk =
     (let w = map (\<lambda>i. ReadBE64 (drop (8 * i) chunk)) [0..<16];
          v = sha2_rounds sha512_Sigma0 sha512_Sigma1 sha512_sigma0 sha512_sigma1 sha512_K 0 w s
      in map2 (+) s v)"

section \<open>SHA-1\<close>

definition sha1_f :: "nat \<Rightarrow> u32 \<Rightarrow> u32 \<Rightarrow> u32 \<Rightarrow> u32" where
  "sha1_f n b c d =
     (if n < 20 then d XOR (b AND (c XOR d))
      else if n < 40 then b XOR c XOR d
      else if n < 60 then (b AND c) OR (d AND (b OR c))
      else b XOR c XOR d)"

definition sha1_k :: "nat \<Rightarrow> u32" where
  "sha1_k n = (if n < 20 then 0x5A827999 else if n < 40 then 0x6ED9EBA1 else if n < 60 then 0x8F1BBCDC else 0xCA62C1D6)"

definition sha1_left :: "u32 \<Rightarrow> u32" where
  "sha1_left x = push_bit 1 x OR drop_bit 31 x"

definition arg5 :: "nat \<Rightarrow> nat \<Rightarrow> nat" where
  "arg5 n i = (i + 4 * n) mod 5"

definition sha1_round_at :: "nat \<Rightarrow> u32 \<Rightarrow> u32 list \<Rightarrow> u32 list" where
  "sha1_round_at n w v =
     (let a = v ! arg5 n 0; b = v ! arg5 n 1; c = v ! arg5 n 2; d = v ! arg5 n 3; e = v ! arg5 n 4
      in v[arg5 n 4 := e + ((push_bit 5 a OR drop_bit 27 a) + sha1_f n b c d + sha1_k n + w),
           arg5 n 1 := push_bit 30 b OR drop_bit 2 b])"

definition sha1_schedule :: "nat \<Rightarrow> u32 list \<Rightarrow> u32 list" where
  "sha1_schedule n w =
     (if n < 16 then w
      else w[n mod 16 := sha1_left (w ! (n mod 16) XOR w ! ((n + 13) mod 16) XOR w ! ((n + 8) mod 16) XOR w ! ((n + 2) mod 16))])"

fun sha1_rounds :: "nat \<Rightarrow> nat \<Rightarrow> u32 list \<Rightarrow> u32 list \<Rightarrow> u32 list" where
  "sha1_rounds 0 n w v = v"
| "sha1_rounds (Suc k) n w v =
     (let w = sha1_schedule n w in sha1_rounds k (Suc n) w (sha1_round_at n (w ! (n mod 16)) v))"

definition sha1_Initialize :: "u32 list" where
  "sha1_Initialize = [0x67452301, 0xEFCDAB89, 0x98BADCFE, 0x10325476, 0xC3D2E1F0]"

definition sha1_Transform :: "u32 list \<Rightarrow> bytes \<Rightarrow> u32 list" where
  "sha1_Transform s chunk =
     (let w = map (\<lambda>i. ReadBE32 (drop (4 * i) chunk)) [0..<16] in map2 (+) s (sha1_rounds 80 0 w s))"

section \<open>RIPEMD-160\<close>

definition ripemd160_f :: "nat \<Rightarrow> u32 \<Rightarrow> u32 \<Rightarrow> u32 \<Rightarrow> u32" where
  "ripemd160_f j x y z =
     (if j = 1 then x XOR y XOR z
      else if j = 2 then (x AND y) OR (NOT x AND z)
      else if j = 3 then (x OR NOT y) XOR z
      else if j = 4 then (x AND z) OR (y AND NOT z)
      else x XOR (y OR NOT z))"

definition ripemd160_rol :: "u32 \<Rightarrow> nat \<Rightarrow> u32" where
  "ripemd160_rol x i = push_bit i x OR drop_bit (32 - i) x"

text \<open>The n-th line of the left (R11 to R51) and of the right (R12 to R52) column: function
  and constant by the group of sixteen.\<close>

definition ripemd160_line :: "(nat \<Rightarrow> u32 \<Rightarrow> u32 \<Rightarrow> u32 \<Rightarrow> u32) \<Rightarrow> (nat \<Rightarrow> u32) \<Rightarrow> nat \<Rightarrow> u32 \<Rightarrow> nat \<Rightarrow> u32 list \<Rightarrow> u32 list" where
  "ripemd160_line f k n x r v =
     (let a = v ! arg5 n 0; b = v ! arg5 n 1; c = v ! arg5 n 2; d = v ! arg5 n 3; e = v ! arg5 n 4
      in v[arg5 n 0 := ripemd160_rol (a + f (n div 16) b c d + x + k (n div 16)) r + e,
           arg5 n 2 := ripemd160_rol c 10])"

primrec ripemd160_lines :: "(nat \<Rightarrow> u32 \<Rightarrow> u32 \<Rightarrow> u32 \<Rightarrow> u32) \<Rightarrow> (nat \<Rightarrow> u32) \<Rightarrow> (nat \<times> nat) list \<Rightarrow> nat \<Rightarrow> u32 list \<Rightarrow> u32 list \<Rightarrow> u32 list" where
  "ripemd160_lines f k [] n w v = v"
| "ripemd160_lines f k (xr # xrs) n w v =
     ripemd160_lines f k xrs (Suc n) w (ripemd160_line f k n (w ! fst xr) (snd xr) v)"

definition ripemd160_left :: "(nat \<times> nat) list" where
  "ripemd160_left = [
     (0, 11), (1, 14), (2, 15), (3, 12), (4, 5), (5, 8), (6, 7), (7, 9),
     (8, 11), (9, 13), (10, 14), (11, 15), (12, 6), (13, 7), (14, 9), (15, 8),
     (7, 7), (4, 6), (13, 8), (1, 13), (10, 11), (6, 9), (15, 7), (3, 15),
     (12, 7), (0, 12), (9, 15), (5, 9), (2, 11), (14, 7), (11, 13), (8, 12),
     (3, 11), (10, 13), (14, 6), (4, 7), (9, 14), (15, 9), (8, 13), (1, 15),
     (2, 14), (7, 8), (0, 13), (6, 6), (13, 5), (11, 12), (5, 7), (12, 5),
     (1, 11), (9, 12), (11, 14), (10, 15), (0, 14), (8, 15), (12, 9), (4, 8),
     (13, 9), (3, 14), (7, 5), (15, 6), (14, 8), (5, 6), (6, 5), (2, 12),
     (4, 9), (0, 15), (5, 5), (9, 11), (7, 6), (12, 8), (2, 13), (10, 12),
     (14, 5), (1, 12), (3, 13), (8, 14), (11, 11), (6, 8), (15, 5), (13, 6)]"

definition ripemd160_right :: "(nat \<times> nat) list" where
  "ripemd160_right = [
     (5, 8), (14, 9), (7, 9), (0, 11), (9, 13), (2, 15), (11, 15), (4, 5),
     (13, 7), (6, 7), (15, 8), (8, 11), (1, 14), (10, 14), (3, 12), (12, 6),
     (6, 9), (11, 13), (3, 15), (7, 7), (0, 12), (13, 8), (5, 9), (10, 11),
     (14, 7), (15, 7), (8, 12), (12, 7), (4, 6), (9, 15), (1, 13), (2, 11),
     (15, 9), (5, 7), (1, 15), (3, 11), (7, 8), (14, 6), (6, 6), (9, 14),
     (11, 12), (8, 13), (12, 5), (2, 14), (10, 13), (0, 13), (4, 7), (13, 5),
     (8, 15), (6, 5), (4, 8), (1, 11), (3, 14), (11, 14), (15, 6), (0, 14),
     (5, 6), (12, 9), (2, 12), (13, 9), (9, 12), (7, 5), (10, 15), (14, 8),
     (12, 8), (15, 5), (10, 12), (4, 9), (1, 12), (5, 5), (8, 14), (7, 6),
     (6, 8), (2, 13), (13, 6), (14, 5), (0, 15), (3, 13), (9, 11), (11, 11)]"

definition ripemd160_kl :: "nat \<Rightarrow> u32" where
  "ripemd160_kl j = [0, 0x5A827999, 0x6ED9EBA1, 0x8F1BBCDC, 0xA953FD4E] ! j"

definition ripemd160_kr :: "nat \<Rightarrow> u32" where
  "ripemd160_kr j = [0x50A28BE6, 0x5C4DD124, 0x6D703EF3, 0x7A6D76E9, 0] ! j"

definition ripemd160_Initialize :: "u32 list" where
  "ripemd160_Initialize = [0x67452301, 0xEFCDAB89, 0x98BADCFE, 0x10325476, 0xC3D2E1F0]"

definition ripemd160_Transform :: "u32 list \<Rightarrow> bytes \<Rightarrow> u32 list" where
  "ripemd160_Transform s chunk =
     (let w = map (\<lambda>i. ReadLE32 (drop (4 * i) chunk)) [0..<16];
          l = ripemd160_lines (\<lambda>j. ripemd160_f (j + 1)) ripemd160_kl ripemd160_left 0 w s;
          r = ripemd160_lines (\<lambda>j. ripemd160_f (5 - j)) ripemd160_kr ripemd160_right 0 w s
      in [s ! 1 + l ! 2 + r ! 3, s ! 2 + l ! 3 + r ! 4, s ! 3 + l ! 4 + r ! 0, s ! 4 + l ! 0 + r ! 1, s ! 0 + l ! 1 + r ! 2])"

section \<open>Buffered hashers\<close>

text \<open>The state of a hasher: the chaining words, the partial block and the number of bytes
  written, which only counts modulo 2^64.\<close>

record 'w hasher =
  hstate :: "'w list"
  hbuf :: bytes
  hbytes :: u64

definition memcpy_at :: "bytes \<Rightarrow> nat \<Rightarrow> bytes \<Rightarrow> bytes" where
  "memcpy_at dest off src = take off dest @ src @ drop (off + length src) dest"

function transform_blocks :: "nat \<Rightarrow> ('w list \<Rightarrow> bytes \<Rightarrow> 'w list) \<Rightarrow> 'w hasher \<Rightarrow> bytes \<Rightarrow> 'w hasher \<times> bytes" where
  "transform_blocks B tr h data =
     (if 0 < B \<and> B \<le> length data
      then transform_blocks B tr (h\<lparr>hstate := tr (hstate h) (take B data), hbytes := hbytes h + of_nat B\<rparr>) (drop B data)
      else (h, data))"
  by pat_completeness auto
termination transform_blocks
  by (relation "measure (\<lambda>(_, _, _, data). length data)") auto

declare transform_blocks.simps [simp del]

definition hasher_Write :: "nat \<Rightarrow> ('w list \<Rightarrow> bytes \<Rightarrow> 'w list) \<Rightarrow> bytes \<Rightarrow> 'w hasher \<Rightarrow> 'w hasher" where
  "hasher_Write B tr data h =
     (let bufsize = unat (hbytes h mod of_nat B);
          (h, data, bufsize) =
            (if bufsize \<noteq> 0 \<and> bufsize + length data \<ge> B then
               let buf = memcpy_at (hbuf h) bufsize (take (B - bufsize) data)
               in (h\<lparr>hbuf := buf, hbytes := hbytes h + of_nat (B - bufsize), hstate := tr (hstate h) buf\<rparr>,
                   drop (B - bufsize) data, 0)
             else (h, data, bufsize));
          (h, data) = transform_blocks B tr h data
      in if length data > 0
         then h\<lparr>hbuf := memcpy_at (hbuf h) bufsize data, hbytes := hbytes h + of_nat (length data)\<rparr>
         else h)"

definition CSHA256_new :: "u32 hasher" where
  "CSHA256_new = \<lparr>hstate = sha256_Initialize, hbuf = replicate 64 0, hbytes = 0\<rparr>"

definition CSHA256_Write :: "bytes \<Rightarrow> u32 hasher \<Rightarrow> u32 hasher" where
  "CSHA256_Write = hasher_Write 64 sha256_Transform"

definition CSHA256_Reset :: "u32 hasher \<Rightarrow> u32 hasher" where
  "CSHA256_Reset h = h\<lparr>hbytes := 0, hstate := sha256_Initialize\<rparr>"

definition CSHA256_Finalize :: "u32 hasher \<Rightarrow> bytes \<times> u32 hasher" where
  "CSHA256_Finalize h =
     (let sizedesc = WriteBE64 (push_bit 3 (hbytes h));
          h = CSHA256_Write (0x80 # replicate ((119 - unat (hbytes h mod 64)) mod 64) 0) h;
          h = CSHA256_Write sizedesc h
      in (concat (map WriteBE32 (hstate h)), h))"

definition CSHA512_new :: "u64 hasher" where
  "CSHA512_new = \<lparr>hstate = sha512_Initialize, hbuf = replicate 128 0, hbytes = 0\<rparr>"

definition CSHA512_Write :: "bytes \<Rightarrow> u64 hasher \<Rightarrow> u64 hasher" where
  "CSHA512_Write = hasher_Write 128 sha512_Transform"

definition CSHA512_Reset :: "u64 hasher \<Rightarrow> u64 hasher" where
  "CSHA512_Reset h = h\<lparr>hbytes := 0, hstate := sha512_Initialize\<rparr>"

definition CSHA512_Finalize :: "u64 hasher \<Rightarrow> bytes \<times> u64 hasher" where
  "CSHA512_Finalize h =
     (let sizedesc = replicate 8 0 @ WriteBE64 (push_bit 3 (hbytes h));
          h = CSHA512_Write (0x80 # replicate ((239 - unat (hbytes h mod 128)) mod 128) 0) h;
          h = CSHA512_Write sizedesc h
      in (concat (map WriteBE64 (hstate h)), h))"

definition CSHA1_new :: "u32 hasher" where
  "CSHA1_new = \<lparr>hstate = sha1_Initialize, hbuf = replicate 64 0, hbytes = 0\<rparr>"

definition CSHA1_Write :: "bytes \<Rightarrow> u32 hasher \<Rightarrow> u32 hasher" where
  "CSHA1_Write = hasher_Write 64 sha1_Transform"

definition CSHA1_Reset :: "u32 hasher \<Rightarrow> u32 hasher" where
  "CSHA1_Reset h = h\<lparr>hbytes := 0, hstate := sha1_Initialize\<rparr>"

definition CSHA1_Finalize :: "u32 hasher \<Rightarrow> bytes \<times> u32 hasher" where
  "CSHA1_Finalize h =
     (let sizedesc = WriteBE64 (push_bit 3 (hbytes h));
          h = CSHA1_Write (0x80 # replicate ((119 - unat (hbytes h mod 64)) mod 64) 0) h;
          h = CSHA1_Write sizedesc h
      in (concat (map WriteBE32 (hstate h)), h))"

definition CRIPEMD160_new :: "u32 hasher" where
  "CRIPEMD160_new = \<lparr>hstate = ripemd160_Initialize, hbuf = replicate 64 0, hbytes = 0\<rparr>"

definition CRIPEMD160_Write :: "bytes \<Rightarrow> u32 hasher \<Rightarrow> u32 hasher" where
  "CRIPEMD160_Write = hasher_Write 64 ripemd160_Transform"

definition CRIPEMD160_Reset :: "u32 hasher \<Rightarrow> u32 hasher" where
  "CRIPEMD160_Reset h = h\<lparr>hbytes := 0, hstate := ripemd160_Initialize\<rparr>"

definition CRIPEMD160_Finalize :: "u32 hasher \<Rightarrow> bytes \<times> u32 hasher" where
  "CRIPEMD160_Finalize h =
     (let sizedesc = WriteLE64 (push_bit 3 (hbytes h));
          h = CRIPEMD160_Write (0x80 # replicate ((119 - unat (hbytes h mod 64)) mod 64) 0) h;
          h = CRIPEMD160_Write sizedesc h
      in (concat (map WriteLE32 (hstate h)), h))"

section \<open>Hashes of objects\<close>

definition CHash256_Finalize :: "u32 hasher \<Rightarrow> bytes" where
  "CHash256_Finalize sha =
     (let (buf, sha) = CSHA256_Finalize sha
      in fst (CSHA256_Finalize (CSHA256_Write buf (CSHA256_Reset sha))))"

definition CHash160_Finalize :: "u32 hasher \<Rightarrow> bytes" where
  "CHash160_Finalize sha =
     (let (buf, sha) = CSHA256_Finalize sha
      in fst (CRIPEMD160_Finalize (CRIPEMD160_Write buf CRIPEMD160_new)))"

definition Hash :: "bytes \<Rightarrow> uint256" where
  "Hash p = CHash256_Finalize (CSHA256_Write p CSHA256_new)"

definition Hash_pair :: "bytes \<Rightarrow> bytes \<Rightarrow> uint256" where
  "Hash_pair p1 p2 = CHash256_Finalize (CSHA256_Write p2 (CSHA256_Write p1 CSHA256_new))"

definition Hash160 :: "bytes \<Rightarrow> bytes" where
  "Hash160 p = CHash160_Finalize (CSHA256_Write p CSHA256_new)"

text \<open>A hash writer receives the serialization of an object piece by piece.\<close>

definition SerializeHash :: "bytes list \<Rightarrow> uint256" where
  "SerializeHash pieces = CHash256_Finalize (fold CSHA256_Write pieces CSHA256_new)"

definition GetHash :: "CTransaction \<Rightarrow> uint256" where
  "GetHash tx = SerializeHash [SerializeTransaction False tx]"

definition GetWitnessHash :: "CTransaction \<Rightarrow> uint256" where
  "GetWitnessHash tx = (if \<not> HasWitness tx then GetHash tx else SerializeHash [SerializeTransaction True tx])"

definition block_GetHash :: "'a CBlockHeader_scheme \<Rightarrow> uint256" where
  "block_GetHash h = SerializeHash [Serialize_header h]"

definition GetHashWithoutSign :: "'a CBlockHeaderBase_scheme \<Rightarrow> uint256" where
  "GetHashWithoutSign h = SerializeHash [Serialize_header_base h]"

section \<open>Keyed hashes\<close>

record 'w hmac =
  outer :: "'w hasher"
  inner :: "'w hasher"

definition hmac_rkey :: "nat \<Rightarrow> (bytes \<Rightarrow> bytes) \<Rightarrow> bytes \<Rightarrow> bytes" where
  "hmac_rkey B digest key =
     (if length key \<le> B then key @ replicate (B - length key) 0
      else let d = digest key in d @ replicate (B - length d) 0)"

definition CHMAC_SHA256_new :: "bytes \<Rightarrow> u32 hmac" where
  "CHMAC_SHA256_new key =
     (let rkey = hmac_rkey 64 (\<lambda>k. fst (CSHA256_Finalize (CSHA256_Write k CSHA256_new))) key;
          okey = map (\<lambda>b. b XOR 0x5c) rkey;
          ikey = map (\<lambda>b. b XOR (0x5c XOR 0x36)) okey
      in \<lparr>outer = CSHA256_Write okey CSHA256_new, inner = CSHA256_Write ikey CSHA256_new\<rparr>)"

definition CHMAC_SHA256_Write :: "bytes \<Rightarrow> u32 hmac \<Rightarrow> u32 hmac" where
  "CHMAC_SHA256_Write data m = m\<lparr>inner := CSHA256_Write data (inner m)\<rparr>"

definition CHMAC_SHA256_Finalize :: "u32 hmac \<Rightarrow> bytes" where
  "CHMAC_SHA256_Finalize m = fst (CSHA256_Finalize (CSHA256_Write (fst (CSHA256_Finalize (inner m))) (outer m)))"

definition CHMAC_SHA512_new :: "bytes \<Rightarrow> u64 hmac" where
  "CHMAC_SHA512_new key =
     (let rkey = hmac_rkey 128 (\<lambda>k. fst (CSHA512_Finalize (CSHA512_Write k CSHA512_new))) key;
          okey = map (\<lambda>b. b XOR 0x5c) rkey;
          ikey = map (\<lambda>b. b XOR (0x5c XOR 0x36)) okey
      in \<lparr>outer = CSHA512_Write okey CSHA512_new, inner = CSHA512_Write ikey CSHA512_new\<rparr>)"

definition CHMAC_SHA512_Write :: "bytes \<Rightarrow> u64 hmac \<Rightarrow> u64 hmac" where
  "CHMAC_SHA512_Write data m = m\<lparr>inner := CSHA512_Write data (inner m)\<rparr>"

definition CHMAC_SHA512_Finalize :: "u64 hmac \<Rightarrow> bytes" where
  "CHMAC_SHA512_Finalize m = fst (CSHA512_Finalize (CSHA512_Write (fst (CSHA512_Finalize (inner m))) (outer m)))"

definition BIP32Hash :: "uint256 \<Rightarrow> u32 \<Rightarrow> u8 \<Rightarrow> bytes \<Rightarrow> bytes" where
  "BIP32Hash chainCode nChild header data =
     (let num = [ucast (drop_bit 24 nChild AND 0xff), ucast (drop_bit 16 nChild AND 0xff),
                 ucast (drop_bit 8 nChild AND 0xff), ucast (nChild AND 0xff)]
      in CHMAC_SHA512_Finalize (CHMAC_SHA512_Write num (CHMAC_SHA512_Write data
           (CHMAC_SHA512_Write [header] (CHMAC_SHA512_new chainCode)))))"

section \<open>MurmurHash3\<close>

definition ROTL32 :: "u32 \<Rightarrow> nat \<Rightarrow> u32" where
  "ROTL32 x r = push_bit r x OR drop_bit (32 - r) x"

definition murmur_k1 :: "u32 \<Rightarrow> u32" where
  "murmur_k1 k1 = ROTL32 (k1 * 0xcc9e2d51) 15 * 0x1b873593"

fun murmur_body :: "nat \<Rightarrow> bytes \<Rightarrow> u32 \<Rightarrow> u32" where
  "murmur_body 0 blocks h1 = h1"
| "murmur_body (Suc n) blocks h1 =
     murmur_body n (drop 4 blocks) (ROTL32 (h1 XOR murmur_k1 (ReadLE32 blocks)) 13 * 5 + 0xe6546b64)"

definition murmur_tail :: "bytes \<Rightarrow> u32 \<Rightarrow> u32" where
  "murmur_tail rest h1 =
     (let k1 = (if length rest = 3 then push_bit 16 (ucast (rest ! 2)) else 0);
          k1 = (if length rest \<ge> 2 then k1 XOR push_bit 8 (ucast (rest ! 1)) else k1)
      in if length rest \<ge> 1 then h1 XOR murmur_k1 (k1 XOR ucast (rest ! 0)) else h1)"

definition MurmurHash3 :: "u32 \<Rightarrow> bytes \<Rightarrow> u32" where
  "MurmurHash3 nHashSeed vDataToHash =
     (let nblocks = length vDataToHash div 4;
          h1 = murmur_body nblocks vDataToHash nHashSeed;
          h1 = murmur_tail (drop (nblocks * 4) vDataToHash) h1;
          h1 = h1 XOR of_nat (length vDataToHash);
          h1 = h1 XOR drop_bit 16 h1;
          h1 = h1 * 0x85ebca6b;
          h1 = h1 XOR drop_bit 13 h1;
          h1 = h1 * 0xc2b2ae35
      in h1 XOR drop_bit 16 h1)"

section \<open>Absorbing a message\<close>

text \<open>The chaining value after the full blocks of a message, and the bytes left over.\<close>

function absorb :: "nat \<Rightarrow> ('w list \<Rightarrow> bytes \<Rightarrow> 'w list) \<Rightarrow> 'w list \<Rightarrow> bytes \<Rightarrow> 'w list \<times> bytes" where
  "absorb B tr s m = (if 0 < B \<and> B \<le> length m then absorb B tr (tr s (take B m)) (drop B m) else (s, m))"
  by pat_completeness auto
termination absorb
  by (relation "measure (\<lambda>(_, _, _, m). length m)") auto

declare absorb.simps [simp del]

lemma absorb_short: "length m < B \<Longrightarrow> absorb B tr s m = (s, m)"
  by (subst absorb.simps) simp

lemma absorb_block: "0 < B \<Longrightarrow> length b = B \<Longrightarrow> absorb B tr s (b @ m) = absorb B tr (tr s b) m"
  by (subst absorb.simps) simp

lemma absorb_append: "absorb B tr s m = (s', r) \<Longrightarrow> absorb B tr s (m @ d) = absorb B tr s' (r @ d)"
proof (induction B tr s m rule: absorb.induct)
  case (1 B tr s m)
  show ?case
  proof (cases "0 < B \<and> B \<le> length m")
    case True
    have "absorb B tr s (m @ d) = absorb B tr (tr s (take B m)) (drop B m @ d)"
      using True by (subst absorb.simps) auto
    moreover have "absorb B tr (tr s (take B m)) (drop B m) = (s', r)"
      using 1(2) True by (subst (asm) absorb.simps) simp
    ultimately show ?thesis using 1(1) True by simp
  next
    case False
    then show ?thesis using 1(2) by (subst (asm) absorb.simps) auto
  qed
qed

lemma absorb_rest: "0 < B \<Longrightarrow> absorb B tr s m = (s', r) \<Longrightarrow> length r = length m mod B"
proof (induction B tr s m rule: absorb.induct)
  case (1 B tr s m)
  show ?case
  proof (cases "B \<le> length m")
    case True
    have "absorb B tr (tr s (take B m)) (drop B m) = (s', r)"
      using 1(3) True 1(2) by (subst (asm) absorb.simps) simp
    then have "length r = length (drop B m) mod B" using 1(1,2) True by simp
    then show ?thesis using True by (simp add: le_mod_geq)
  next
    case False
    then show ?thesis using 1(3) by (subst (asm) absorb.simps) auto
  qed
qed

lemma absorb_le: "absorb B tr s m = (s', r) \<Longrightarrow> length r \<le> length m"
proof (induction B tr s m rule: absorb.induct)
  case (1 B tr s m)
  then show ?case by (subst (asm) (2) absorb.simps) (auto split: if_splits)
qed

lemma transform_blocks_absorb:
  "absorb B tr (hstate h) data = (s', r) \<Longrightarrow>
     transform_blocks B tr h data = (h\<lparr>hstate := s', hbytes := hbytes h + of_nat (length data - length r)\<rparr>, r)"
proof (induction B tr h data rule: transform_blocks.induct)
  case (1 B tr h data)
  show ?case
  proof (cases "0 < B \<and> B \<le> length data")
    case True
    let ?h = "h\<lparr>hstate := tr (hstate h) (take B data), hbytes := hbytes h + of_nat B\<rparr>"
    have a: "absorb B tr (hstate ?h) (drop B data) = (s', r)"
      using 1(2) True by (subst (asm) absorb.simps) simp
    have "transform_blocks B tr h data = transform_blocks B tr ?h (drop B data)"
      using True by (subst transform_blocks.simps) simp
    also have "\<dots> = (?h\<lparr>hstate := s', hbytes := hbytes ?h + of_nat (length (drop B data) - length r)\<rparr>, r)"
      using 1(1) True a by simp
    finally have t: "transform_blocks B tr h data =
      (?h\<lparr>hstate := s', hbytes := hbytes ?h + of_nat (length (drop B data) - length r)\<rparr>, r)" .
    have l: "length data - length r = B + (length (drop B data) - length r)"
      using True absorb_le [OF a] by auto
    show ?thesis unfolding t l by (simp add: add.assoc)
  next
    case False
    then show ?thesis using 1(2)
      by (subst transform_blocks.simps, subst (asm) absorb.simps) auto
  qed
qed

text \<open>A hasher state stands for the message written so far.\<close>

definition represents :: "nat \<Rightarrow> ('w list \<Rightarrow> bytes \<Rightarrow> 'w list) \<Rightarrow> 'w list \<Rightarrow> bytes \<Rightarrow> 'w hasher \<Rightarrow> bool" where
  "represents B tr s0 m h \<longleftrightarrow>
     (let (s, r) = absorb B tr s0 m
      in length (hbuf h) = B \<and> hbytes h = of_nat (length m) \<and> hstate h = s \<and> take (length r) (hbuf h) = r)"

lemma take_memcpy_at:
  "off \<le> length dest \<Longrightarrow> take (off + length src) (memcpy_at dest off src) = take off dest @ src"
  by (simp add: memcpy_at_def)

lemma length_memcpy_at:
  "off + length src \<le> length dest \<Longrightarrow> length (memcpy_at dest off src) = length dest"
  by (simp add: memcpy_at_def)

lemma u64_mod_block:
  assumes "B dvd 2 ^ 64" "0 < B" "B < 2 ^ 64"
  shows "unat ((of_nat l :: u64) mod of_nat B) = l mod B"
proof -
  have "unat ((of_nat l :: u64) mod of_nat B) = (l mod 2 ^ 64) mod B"
    using assms by (simp add: unat_mod unat_of_nat take_bit_eq_mod)
  then show ?thesis using assms(1) by (simp only: mod_mod_cancel)
qed

lemma represents_Write:
  assumes B: "B dvd 2 ^ 64" "0 < B" "B < 2 ^ 64" and m: "represents B tr s0 m h"
  shows "represents B tr s0 (m @ d) (hasher_Write B tr d h)"
proof -
  obtain s r where a: "absorb B tr s0 m = (s, r)" by (cases "absorb B tr s0 m")
  have h: "length (hbuf h) = B" "hbytes h = of_nat (length m)" "hstate h = s" "take (length r) (hbuf h) = r"
    using m by (auto simp: represents_def a)
  have r: "length r = length m mod B" using absorb_rest [OF B(2) a] .
  have lr: "length r < B" using r B(2) by simp
  have bs: "unat (hbytes h mod of_nat B) = length r" using u64_mod_block [OF B] by (simp add: h r)
  have app: "absorb B tr s0 (m @ d) = absorb B tr s (r @ d)" using absorb_append [OF a] .
  obtain s' r' where a': "absorb B tr s (r @ d) = (s', r')" by (cases "absorb B tr s (r @ d)")
  consider (full) "r \<noteq> []" "B \<le> length r + length d" | (part) "r \<noteq> []" "length r + length d < B" | (empty) "r = []"
    by linarith
  then show ?thesis
  proof cases
    case full
    let ?b = "take (B - length r) d" and ?d = "drop (B - length r) d"
    have lb: "length r + length ?b = B" using full lr by simp
    have buf: "memcpy_at (hbuf h) (length r) ?b = r @ ?b"
      using take_memcpy_at [of "length r" "hbuf h" ?b] length_memcpy_at [of "length r" ?b "hbuf h"] lb lr
      by (simp add: h)
    have a2: "absorb B tr (tr s (r @ ?b)) ?d = (s', r')"
      using absorb_block [of B "r @ ?b" tr s ?d] lb B(2) a' by simp
    have l2: "length r' \<le> length ?d" using absorb_le [OF a2] .
    have lr': "length r' < B" using absorb_rest [OF B(2) a2] B(2) by simp
    let ?h = "h\<lparr>hbuf := r @ ?b, hbytes := hbytes h + of_nat (B - length r), hstate := tr s (r @ ?b)\<rparr>"
    have t: "transform_blocks B tr ?h ?d = (?h\<lparr>hstate := s', hbytes := hbytes ?h + of_nat (length ?d - length r')\<rparr>, r')"
      by (rule transform_blocks_absorb) (simp add: a2)
    have n: "length m + length d = length m + ((B - length r) + (length ?d - length r') + length r')"
      using l2 full by simp
    have w: "of_nat (length m) + of_nat (B - length r) + of_nat (length ?d - length r') + of_nat (length r') =
        (of_nat (length m) + of_nat (length d) :: u64)"
      unfolding of_nat_add [symmetric] n by (simp only: add.assoc)
    have c: "length r \<noteq> 0 \<and> length r + length d \<ge> B" using full by simp
    have e: "hasher_Write B tr d h = (let h' = ?h\<lparr>hstate := s', hbytes := hbytes ?h + of_nat (length ?d - length r')\<rparr> in
        if length r' > 0 then h'\<lparr>hbuf := memcpy_at (hbuf h') 0 r', hbytes := hbytes h' + of_nat (length r')\<rparr> else h')"
      unfolding hasher_Write_def bs Let_def if_P [OF c] prod.case h(3) buf t ..
    show ?thesis
      using length_memcpy_at [of 0 r' "r @ ?b"] take_memcpy_at [of 0 "r @ ?b" r'] lb lr' w
      by (cases r') (simp_all add: e represents_def app a' h(2) Let_def del: length_drop length_take of_nat_diff)
  next
    case part
    have c: "\<not> (length r \<noteq> 0 \<and> length r + length d \<ge> B)" using part by simp
    have t: "transform_blocks B tr h d = (h, d)"
      using part by (subst transform_blocks.simps) simp
    have e: "hasher_Write B tr d h =
        (if length d > 0 then h\<lparr>hbuf := memcpy_at (hbuf h) (length r) d, hbytes := hbytes h + of_nat (length d)\<rparr> else h)"
      unfolding hasher_Write_def bs Let_def if_not_P [OF c] prod.case t ..
    have "absorb B tr s (r @ d) = (s, r @ d)" using part by (simp add: absorb_short)
    then show ?thesis
      using length_memcpy_at [of "length r" d "hbuf h"] take_memcpy_at [of "length r" "hbuf h" d] part lr
      by (simp add: e represents_def app h Let_def)
  next
    case empty
    have c: "\<not> (length r \<noteq> 0 \<and> length r + length d \<ge> B)" using empty by simp
    have a2: "absorb B tr (hstate h) d = (s', r')" using a' empty h by simp
    have lr': "length r' < B" using absorb_rest [OF B(2) a2] B(2) by simp
    have t: "transform_blocks B tr h d = (h\<lparr>hstate := s', hbytes := hbytes h + of_nat (length d - length r')\<rparr>, r')"
      by (rule transform_blocks_absorb [OF a2])
    have e: "hasher_Write B tr d h = (let h' = h\<lparr>hstate := s', hbytes := hbytes h + of_nat (length d - length r')\<rparr> in
        if length r' > 0 then h'\<lparr>hbuf := memcpy_at (hbuf h') (length r) r', hbytes := hbytes h' + of_nat (length r')\<rparr> else h')"
      unfolding hasher_Write_def bs Let_def if_not_P [OF c] prod.case t ..
    have n: "length d = (length d - length r') + length r'" using absorb_le [OF a2] by simp
    have w: "of_nat (length d - length r') + of_nat (length r') = (of_nat (length d) :: u64)"
      using absorb_le [OF a2] by (simp flip: of_nat_add del: of_nat_diff)
    show ?thesis
      using length_memcpy_at [of 0 r' "hbuf h"] take_memcpy_at [of 0 "hbuf h" r'] lr' w empty
      by (simp add: e represents_def app a' a2 [unfolded h] h Let_def del: of_nat_diff)
  qed
qed

lemma represents_start:
  "0 < B \<Longrightarrow> length (hbuf h) = B \<Longrightarrow> hstate h = s0 \<Longrightarrow> hbytes h = 0 \<Longrightarrow> represents B tr s0 [] h"
  by (simp add: represents_def absorb_short)

lemma represents_buf: "represents B tr s0 m h \<Longrightarrow> length (hbuf h) = B"
  by (auto simp: represents_def split: prod.splits)

lemma represents_state: "represents B tr s0 m h \<Longrightarrow> hstate h = fst (absorb B tr s0 m)"
  by (auto simp: represents_def split: prod.splits)

lemma represents_count: "represents B tr s0 m h \<Longrightarrow> hbytes h = of_nat (length m)"
  by (auto simp: represents_def split: prod.splits)

text \<open>What the users of a hasher rely on: a state stands for the bytes written to it, and
  the chaining value depends on those bytes only.\<close>

locale message_hasher =
  fixes repr :: "bytes \<Rightarrow> 'w hasher \<Rightarrow> bool" and put :: "bytes \<Rightarrow> 'w hasher \<Rightarrow> 'w hasher"
    and reset :: "'w hasher \<Rightarrow> 'w hasher" and start :: "'w hasher" and chain :: "bytes \<Rightarrow> 'w list"
  assumes repr_start: "repr [] start"
    and repr_reset: "repr m h \<Longrightarrow> repr [] (reset h)"
    and repr_put: "repr m h \<Longrightarrow> repr (m @ d) (put d h)"
    and repr_chain: "repr m h \<Longrightarrow> hstate h = chain m"
    and repr_count: "repr m h \<Longrightarrow> hbytes h = of_nat (length m)"
begin

lemma repr_pieces: "repr m h \<Longrightarrow> repr (m @ concat ds) (fold put ds h)"
proof (induction ds arbitrary: m h)
  case (Cons d ds)
  then show ?case using Cons.IH [OF repr_put [OF Cons.prems, of d]] by simp
qed simp

lemma repr_message: "repr (concat ds) (fold put ds start)"
  using repr_pieces [OF repr_start] by simp

lemma chain_put2: "repr m h \<Longrightarrow> hstate (put b (put a h)) = chain (m @ a @ b)"
  using repr_chain [OF repr_put [OF repr_put]] by fastforce

lemma repr_put2: "repr m h \<Longrightarrow> repr (m @ a @ b) (put b (put a h))"
  using repr_put [OF repr_put] by fastforce

end

interpretation sha256: message_hasher "represents 64 sha256_Transform sha256_Initialize"
  CSHA256_Write CSHA256_Reset CSHA256_new "\<lambda>m. fst (absorb 64 sha256_Transform sha256_Initialize m)"
proof unfold_locales
  show "represents 64 sha256_Transform sha256_Initialize (m @ d) (CSHA256_Write d h)"
    if "represents 64 sha256_Transform sha256_Initialize m h" for m d h
    unfolding CSHA256_Write_def by (rule represents_Write [OF _ _ _ that]) simp_all
qed (simp_all add: represents_start represents_buf represents_state represents_count CSHA256_new_def CSHA256_Reset_def)

interpretation sha512: message_hasher "represents 128 sha512_Transform sha512_Initialize"
  CSHA512_Write CSHA512_Reset CSHA512_new "\<lambda>m. fst (absorb 128 sha512_Transform sha512_Initialize m)"
proof unfold_locales
  show "represents 128 sha512_Transform sha512_Initialize (m @ d) (CSHA512_Write d h)"
    if "represents 128 sha512_Transform sha512_Initialize m h" for m d h
    unfolding CSHA512_Write_def by (rule represents_Write [OF _ _ _ that]) simp_all
qed (simp_all add: represents_start represents_buf represents_state represents_count CSHA512_new_def CSHA512_Reset_def)

interpretation sha1: message_hasher "represents 64 sha1_Transform sha1_Initialize"
  CSHA1_Write CSHA1_Reset CSHA1_new "\<lambda>m. fst (absorb 64 sha1_Transform sha1_Initialize m)"
proof unfold_locales
  show "represents 64 sha1_Transform sha1_Initialize (m @ d) (CSHA1_Write d h)"
    if "represents 64 sha1_Transform sha1_Initialize m h" for m d h
    unfolding CSHA1_Write_def by (rule represents_Write [OF _ _ _ that]) simp_all
qed (simp_all add: represents_start represents_buf represents_state represents_count CSHA1_new_def CSHA1_Reset_def)

interpretation ripemd160: message_hasher "represents 64 ripemd160_Transform ripemd160_Initialize"
  CRIPEMD160_Write CRIPEMD160_Reset CRIPEMD160_new "\<lambda>m. fst (absorb 64 ripemd160_Transform ripemd160_Initialize m)"
proof unfold_locales
  show "represents 64 ripemd160_Transform ripemd160_Initialize (m @ d) (CRIPEMD160_Write d h)"
    if "represents 64 ripemd160_Transform ripemd160_Initialize m h" for m d h
    unfolding CRIPEMD160_Write_def by (rule represents_Write [OF _ _ _ that]) simp_all
qed (simp_all add: represents_start represents_buf represents_state represents_count CRIPEMD160_new_def CRIPEMD160_Reset_def)

section \<open>The standards\<close>

text \<open>The reference for the hash functions: the message is padded to whole blocks with a
  one bit, zeros and its length in bits, and the compression function is folded over the
  blocks.\<close>

function chunks :: "nat \<Rightarrow> bytes \<Rightarrow> bytes list" where
  "chunks B m = (if B = 0 \<or> m = [] then [] else take B m # chunks B (drop B m))"
  by pat_completeness auto
termination chunks
  by (relation "measure (\<lambda>(_, m). length m)") auto

declare chunks.simps [simp del]

definition md_pad :: "nat \<Rightarrow> bytes \<Rightarrow> bytes \<Rightarrow> bytes" where
  "md_pad B sz m = m @ 0x80 # replicate (nat ((int B - int (length sz) - 1 - int (length m)) mod int B)) 0 @ sz"

lemma length_md_pad: "0 < B \<Longrightarrow> B dvd length (md_pad B sz m)"
proof -
  assume B: "0 < B"
  let ?z = "int B - int (length sz) - 1 - int (length m)"
  have "int (length (md_pad B sz m)) = int (length m) + 1 + ?z mod int B + int (length sz)"
    using B by (simp add: md_pad_def)
  also have "\<dots> = int B - (?z - ?z mod int B)" by simp
  finally have "int B dvd int (length (md_pad B sz m))"
    by (simp add: minus_mod_eq_mult_div)
  then show ?thesis by simp
qed

lemma absorb_chunks:
  "0 < B \<Longrightarrow> B dvd length m \<Longrightarrow> absorb B tr s m = (foldl tr s (chunks B m), [])"
proof (induction B m arbitrary: s rule: chunks.induct)
  case (1 B m)
  show ?case
  proof (cases "m = []")
    case True
    then show ?thesis using 1 by (simp add: absorb_short chunks.simps)
  next
    case False
    then have B: "B \<le> length m" using 1(3) by (simp add: dvd_imp_le)
    then have "B dvd length (drop B m)" using 1(3) by simp
    then show ?thesis
      using 1(1) [of "tr s (take B m)"] 1(2) B False
      by (subst absorb.simps, subst chunks.simps) simp
  qed
qed

lemma foldl_cong_inv:
  assumes "\<And>s c. P s \<Longrightarrow> c \<in> set cs \<Longrightarrow> f s c = g s c \<and> P (g s c)" "P s"
  shows "foldl f s cs = foldl g s cs"
  using assms by (induction cs arbitrary: s) auto

subsection \<open>The SHA-2 compression function\<close>

text \<open>The functions of the standard, with its rotations, choice and majority, its message
  schedule as a sequence and its working variables shifted by one place every round.\<close>

definition fips_Ch :: "'a::len word \<Rightarrow> 'a word \<Rightarrow> 'a word \<Rightarrow> 'a word" where
  "fips_Ch x y z = (x AND y) XOR (NOT x AND z)"

definition fips_Maj :: "'a::len word \<Rightarrow> 'a word \<Rightarrow> 'a word \<Rightarrow> 'a word" where
  "fips_Maj x y z = (x AND y) XOR (x AND z) XOR (y AND z)"

definition fips256_Sigma0 :: "u32 \<Rightarrow> u32" where
  "fips256_Sigma0 x = word_rotr 2 x XOR word_rotr 13 x XOR word_rotr 22 x"

definition fips256_Sigma1 :: "u32 \<Rightarrow> u32" where
  "fips256_Sigma1 x = word_rotr 6 x XOR word_rotr 11 x XOR word_rotr 25 x"

definition fips256_sigma0 :: "u32 \<Rightarrow> u32" where
  "fips256_sigma0 x = word_rotr 7 x XOR word_rotr 18 x XOR drop_bit 3 x"

definition fips256_sigma1 :: "u32 \<Rightarrow> u32" where
  "fips256_sigma1 x = word_rotr 17 x XOR word_rotr 19 x XOR drop_bit 10 x"

definition fips512_Sigma0 :: "u64 \<Rightarrow> u64" where
  "fips512_Sigma0 x = word_rotr 28 x XOR word_rotr 34 x XOR word_rotr 39 x"

definition fips512_Sigma1 :: "u64 \<Rightarrow> u64" where
  "fips512_Sigma1 x = word_rotr 14 x XOR word_rotr 18 x XOR word_rotr 41 x"

definition fips512_sigma0 :: "u64 \<Rightarrow> u64" where
  "fips512_sigma0 x = word_rotr 1 x XOR word_rotr 8 x XOR drop_bit 7 x"

definition fips512_sigma1 :: "u64 \<Rightarrow> u64" where
  "fips512_sigma1 x = word_rotr 19 x XOR word_rotr 61 x XOR drop_bit 6 x"

definition fips_step :: "('a::len word \<Rightarrow> 'a word) \<Rightarrow> ('a word \<Rightarrow> 'a word) \<Rightarrow> 'a word \<Rightarrow> 'a word \<Rightarrow> 'a word list \<Rightarrow> 'a word list" where
  "fips_step S0 S1 k w v =
     (let a = v ! 0; b = v ! 1; c = v ! 2; d = v ! 3; e = v ! 4; f = v ! 5; g = v ! 6; h = v ! 7;
          T1 = h + S1 e + fips_Ch e f g + k + w;
          T2 = S0 a + fips_Maj a b c
      in [T1 + T2, a, b, c, d + T1, e, f, g])"

fun fips_W :: "('a::len word \<Rightarrow> 'a word) \<Rightarrow> ('a word \<Rightarrow> 'a word) \<Rightarrow> 'a word list \<Rightarrow> nat \<Rightarrow> 'a word" where
  "fips_W s0 s1 M t =
     (if t < 16 then M ! t
      else s1 (fips_W s0 s1 M (t - 2)) + fips_W s0 s1 M (t - 7) + s0 (fips_W s0 s1 M (t - 15)) + fips_W s0 s1 M (t - 16))"

declare fips_W.simps [simp del]

definition fips_compress :: "('a::len word \<Rightarrow> 'a word) \<Rightarrow> ('a word \<Rightarrow> 'a word) \<Rightarrow> ('a word \<Rightarrow> 'a word) \<Rightarrow> ('a word \<Rightarrow> 'a word) \<Rightarrow>
    'a word list \<Rightarrow> 'a word list \<Rightarrow> 'a word list \<Rightarrow> 'a word list" where
  "fips_compress S0 S1 s0 s1 K M H =
     map2 (+) H (fold (\<lambda>t. fips_step S0 S1 (K ! t) (fips_W s0 s1 M t)) [0..<length K] H)"

definition sha256 :: "bytes \<Rightarrow> bytes" where
  "sha256 m = concat (map WriteBE32 (foldl
     (\<lambda>H c. fips_compress fips256_Sigma0 fips256_Sigma1 fips256_sigma0 fips256_sigma1 sha256_K
        (map (\<lambda>i. ReadBE32 (drop (4 * i) c)) [0..<16]) H)
     sha256_Initialize (chunks 64 (md_pad 64 (rev (le_bytes 8 (of_nat (8 * length m) :: u64))) m))))"

definition sha512 :: "bytes \<Rightarrow> bytes" where
  "sha512 m = concat (map WriteBE64 (foldl
     (\<lambda>H c. fips_compress fips512_Sigma0 fips512_Sigma1 fips512_sigma0 fips512_sigma1 sha512_K
        (map (\<lambda>i. ReadBE64 (drop (8 * i) c)) [0..<16]) H)
     sha512_Initialize (chunks 128 (md_pad 128 (rev (le_bytes 16 (of_nat (8 * length m) :: 128 word))) m))))"

lemma rotr_shifts:
  "0 < n \<Longrightarrow> n < LENGTH('a) \<Longrightarrow> k = LENGTH('a) - n \<Longrightarrow> drop_bit n x OR push_bit k x = word_rotr n (x :: 'a::len word)"
  by (intro bit_eqI) (auto simp: bit_word_rotr_iff bit_drop_bit_eq bit_push_bit_iff bit_or_iff mod_if add.commute dest: bit_imp_le_length)

lemma Ch_fips: "Ch = fips_Ch"
  by (intro ext bit_eqI) (auto simp: Ch_def fips_Ch_def bit_and_iff bit_xor_iff bit_not_iff dest: bit_imp_le_length)

lemma Maj_fips: "Maj = fips_Maj"
  by (intro ext bit_eqI) (auto simp: Maj_def fips_Maj_def bit_and_iff bit_xor_iff bit_or_iff)

lemma sha256_functions:
  "sha256_Sigma0 = fips256_Sigma0" "sha256_Sigma1 = fips256_Sigma1"
  "sha256_sigma0 = fips256_sigma0" "sha256_sigma1 = fips256_sigma1"
  by (simp_all add: fun_eq_iff sha256_Sigma0_def sha256_Sigma1_def sha256_sigma0_def sha256_sigma1_def rotr_shifts
    fips256_Sigma0_def fips256_Sigma1_def fips256_sigma0_def fips256_sigma1_def)

lemma sha512_functions:
  "sha512_Sigma0 = fips512_Sigma0" "sha512_Sigma1 = fips512_Sigma1"
  "sha512_sigma0 = fips512_sigma0" "sha512_sigma1 = fips512_sigma1"
  by (simp_all add: fun_eq_iff sha512_Sigma0_def sha512_Sigma1_def sha512_sigma0_def sha512_sigma1_def rotr_shifts
    fips512_Sigma0_def fips512_Sigma1_def fips512_sigma0_def fips512_sigma1_def)

text \<open>The variables of the code in the order in which the n-th line passes them.\<close>

definition rotated8 :: "nat \<Rightarrow> 'a list \<Rightarrow> 'a list" where
  "rotated8 n v = map (\<lambda>i. v ! arg8 n i) [0..<8]"

lemma arg8_mod: "arg8 n i = (i + 7 * (n mod 8)) mod 8"
  unfolding arg8_def by (metis mod_add_right_eq mod_mult_right_eq)

lemma arg8_Suc: "arg8 (Suc n) i = (i + 7 * Suc (n mod 8)) mod 8"
  using arg8_mod [of n "i + 7"] by (simp add: arg8_def add.assoc)

lemma list8: "length v = 8 \<Longrightarrow> \<exists>a b c d e f g h. v = [a, b, c, d, e, f, g, h]"
  by (auto simp: numeral_eq_Suc length_Suc_conv)

lemma sha2_round_fips:
  assumes "length v = 8"
  shows "rotated8 (Suc n) (sha2_round_at S0 S1 n (k + w) v) = fips_step S0 S1 k w (rotated8 n v)"
proof -
  obtain a b c d e f g h where v: "v = [a, b, c, d, e, f, g, h]" using list8 [OF assms] by blast
  have "n mod 8 < 8" by simp
  then consider "n mod 8 = 0" | "n mod 8 = 1" | "n mod 8 = 2" | "n mod 8 = 3"
    | "n mod 8 = 4" | "n mod 8 = 5" | "n mod 8 = 6" | "n mod 8 = 7"
    by linarith
  then show ?thesis
    by cases (simp_all add: v rotated8_def sha2_round_at_def sha2_Round_def fips_step_def arg8_mod [of n] arg8_Suc
      upt_rec [of _ 8] Ch_fips Maj_fips Let_def add.assoc)
qed

lemma length_sha2_round_at: "length (sha2_round_at S0 S1 n kw v) = length v"
  by (simp add: sha2_round_at_def split: prod.splits)

text \<open>The ring of sixteen cells holds the last sixteen words of the schedule.\<close>

definition ring_of :: "(nat \<Rightarrow> 'a) \<Rightarrow> nat \<Rightarrow> 'a list \<Rightarrow> bool" where
  "ring_of W n w \<longleftrightarrow> length w = 16 \<and> (\<forall>m. m < max n 16 \<and> max n 16 \<le> m + 16 \<longrightarrow> w ! (m mod 16) = W m)"

lemma ring_of_start: "length w = 16 \<Longrightarrow> (\<And>i. i < 16 \<Longrightarrow> w ! i = W i) \<Longrightarrow> ring_of W 0 w"
  by (simp add: ring_of_def)

lemma ring_of_low: "ring_of W n w \<Longrightarrow> n < 16 \<Longrightarrow> ring_of W (Suc n) w \<and> w ! (n mod 16) = W n"
  by (simp add: ring_of_def)

lemma ring_of_push:
  assumes "ring_of W n w" "16 \<le> n" "x = W n"
  shows "ring_of W (Suc n) (w[n mod 16 := x])"
  unfolding ring_of_def
proof (intro conjI allI impI)
  show "length (w[n mod 16 := x]) = 16" using assms by (simp add: ring_of_def)
  fix m assume m: "m < max (Suc n) 16 \<and> max (Suc n) 16 \<le> m + 16"
  show "w[n mod 16 := x] ! (m mod 16) = W m"
  proof (cases "m = n")
    case False
    have "m mod 16 \<noteq> n mod 16"
    proof
      assume "m mod 16 = n mod 16"
      then have "16 dvd n - m" using m assms(2) by (simp add: mod_eq_dvd_iff_nat [symmetric])
      then show False using m False assms(2) by (auto dest: dvd_imp_le)
    qed
    then show ?thesis using m False assms by (simp add: ring_of_def)
  qed (use assms in \<open>simp add: ring_of_def\<close>)
qed

lemma ring_of_back:
  assumes "ring_of W n w" "16 \<le> n" "0 < k" "k \<le> 16"
  shows "w ! ((n + (16 - k)) mod 16) = W (n - k)"
proof -
  have "(n + (16 - k)) mod 16 = (n - k) mod 16"
    using assms by (simp add: mod_add_self1 [of 16 "n - k", symmetric] add.commute)
  then show ?thesis using assms by (simp add: ring_of_def)
qed

lemma sha2_schedule_ring:
  assumes "ring_of (fips_W s0 s1 M) n w"
  shows "ring_of (fips_W s0 s1 M) (Suc n) (sha2_schedule s0 s1 n w) \<and>
    sha2_schedule s0 s1 n w ! (n mod 16) = fips_W s0 s1 M n"
proof (cases "n < 16")
  case True
  then show ?thesis using ring_of_low [OF assms] by (simp add: sha2_schedule_def)
next
  case False
  let ?x = "w ! (n mod 16) + (s1 (w ! ((n + 14) mod 16)) + w ! ((n + 9) mod 16) + s0 (w ! ((n + 1) mod 16)))"
  have x: "?x = fips_W s0 s1 M n"
    using ring_of_back [OF assms, of 16] ring_of_back [OF assms, of 2] ring_of_back [OF assms, of 7]
      ring_of_back [OF assms, of 15] False
    by (subst fips_W.simps) (simp add: ac_simps)
  have "length w = 16" using assms by (simp add: ring_of_def)
  then show ?thesis using ring_of_push [OF assms _ x] x False by (simp add: sha2_schedule_def)
qed

lemma sha2_rounds_fips:
  assumes "length v = 8" "ring_of (fips_W s0 s1 M) n w"
  shows "rotated8 (n + length ks) (sha2_rounds S0 S1 s0 s1 ks n w v) =
      fold (\<lambda>t. fips_step S0 S1 (ks ! (t - n)) (fips_W s0 s1 M t)) [n..<n + length ks] (rotated8 n v)
    \<and> length (sha2_rounds S0 S1 s0 s1 ks n w v) = 8"
  using assms
proof (induction ks arbitrary: n w v)
  case (Cons k ks)
  let ?w = "sha2_schedule s0 s1 n w" and ?v = "sha2_round_at S0 S1 n (k + sha2_schedule s0 s1 n w ! (n mod 16)) v"
  note r = sha2_schedule_ring [OF Cons.prems(2)]
  have v: "length ?v = 8" using Cons.prems by (simp add: length_sha2_round_at)
  have f: "fold (\<lambda>t. fips_step S0 S1 (ks ! (t - Suc n)) (fips_W s0 s1 M t)) [Suc n..<n + length (k # ks)] u =
      fold (\<lambda>t. fips_step S0 S1 ((k # ks) ! (t - n)) (fips_W s0 s1 M t)) [Suc n..<n + length (k # ks)] u" for u
    by (rule fold_cong) (auto simp: nth_Cons')
  have u: "[n..<n + length (k # ks)] = n # [Suc n..<n + length (k # ks)]" by (rule upt_conv_Cons) simp
  have l: "n + length (k # ks) = Suc n + length ks" by simp
  have s: "sha2_rounds S0 S1 s0 s1 (k # ks) n w v = sha2_rounds S0 S1 s0 s1 ks (Suc n) ?w ?v" by (simp add: Let_def)
  have h: "rotated8 (Suc n) ?v = fips_step S0 S1 k (fips_W s0 s1 M n) (rotated8 n v)"
    unfolding conjunct2 [OF r] by (rule sha2_round_fips [OF Cons.prems(1)])
  have "fips_step S0 S1 ((k # ks) ! (n - n)) (fips_W s0 s1 M n) (rotated8 n v) = rotated8 (Suc n) ?v" by (simp add: h)
  then show ?case
    using Cons.IH [OF v conjunct1 [OF r], folded l]
    unfolding s u fold_Cons o_apply f by (simp only: simp_thms)
qed simp

lemma rotated8_id: "length v = 8 \<Longrightarrow> n mod 8 = 0 \<Longrightarrow> rotated8 n v = v"
  using list8 [of v] by (auto simp: rotated8_def arg8_mod upt_rec [of _ 8])

lemma length_fips_step: "length (fips_step S0 S1 k w v) = 8"
  by (simp add: fips_step_def Let_def)

lemma length_fips_compress: "length H = 8 \<Longrightarrow> length (fips_compress S0 S1 s0 s1 K M H) = 8"
proof -
  have "length (fold (\<lambda>t. fips_step S0 S1 (K ! t) (fips_W s0 s1 M t)) ts H) = 8" if "length H = 8" for ts H
    using that by (induction ts arbitrary: H) (simp_all add: length_fips_step)
  then show "length H = 8 \<Longrightarrow> length (fips_compress S0 S1 s0 s1 K M H) = 8"
    by (simp add: fips_compress_def)
qed

lemma sha2_rounds_compress:
  assumes "length s = 8" "length M = 16" "length K mod 8 = 0"
  shows "map2 (+) s (sha2_rounds S0 S1 s0 s1 K 0 M s) = fips_compress S0 S1 s0 s1 K M s"
proof -
  have r: "ring_of (fips_W s0 s1 M) 0 M"
    using assms by (intro ring_of_start) (simp_all add: fips_W.simps)
  note f = sha2_rounds_fips [OF assms(1) r, of K S0 S1, unfolded add_0 diff_zero]
  show ?thesis
    using conjunct1 [OF f] unfolding rotated8_id [OF conjunct2 [OF f] assms(3)] rotated8_id [OF assms(1) mod_0]
    by (simp only: fips_compress_def)
qed

subsection \<open>SHA-1 and RIPEMD-160\<close>

definition fips1_f :: "nat \<Rightarrow> u32 \<Rightarrow> u32 \<Rightarrow> u32 \<Rightarrow> u32" where
  "fips1_f t x y z =
     (if t < 20 then fips_Ch x y z else if 40 \<le> t \<and> t < 60 then fips_Maj x y z else x XOR y XOR z)"

definition fips1_step :: "nat \<Rightarrow> u32 \<Rightarrow> u32 list \<Rightarrow> u32 list" where
  "fips1_step t w v =
     (let a = v ! 0; b = v ! 1; c = v ! 2; d = v ! 3; e = v ! 4
      in [word_rotl 5 a + fips1_f t b c d + e + sha1_k t + w, a, word_rotl 30 b, c, d])"

fun fips1_W :: "u32 list \<Rightarrow> nat \<Rightarrow> u32" where
  "fips1_W M t =
     (if t < 16 then M ! t
      else word_rotl 1 (fips1_W M (t - 3) XOR fips1_W M (t - 8) XOR fips1_W M (t - 14) XOR fips1_W M (t - 16)))"

declare fips1_W.simps [simp del]

definition fips1_compress :: "u32 list \<Rightarrow> u32 list \<Rightarrow> u32 list" where
  "fips1_compress M H = map2 (+) H (fold (\<lambda>t. fips1_step t (fips1_W M t)) [0..<80] H)"

definition sha1 :: "bytes \<Rightarrow> bytes" where
  "sha1 m = concat (map WriteBE32 (foldl (\<lambda>H c. fips1_compress (map (\<lambda>i. ReadBE32 (drop (4 * i) c)) [0..<16]) H)
     sha1_Initialize (chunks 64 (md_pad 64 (rev (le_bytes 8 (of_nat (8 * length m) :: u64))) m))))"

definition rmd_step :: "(nat \<Rightarrow> u32 \<Rightarrow> u32 \<Rightarrow> u32 \<Rightarrow> u32) \<Rightarrow> (nat \<Rightarrow> u32) \<Rightarrow> (nat \<times> nat) list \<Rightarrow> u32 list \<Rightarrow> nat \<Rightarrow> u32 list \<Rightarrow> u32 list" where
  "rmd_step f k tab X t v =
     (let a = v ! 0; b = v ! 1; c = v ! 2; d = v ! 3; e = v ! 4; (r, s) = tab ! t
      in [e, word_rotl s (a + f (t div 16) b c d + X ! r + k (t div 16)) + e, b, word_rotl 10 c, d])"

definition rmd_compress :: "u32 list \<Rightarrow> u32 list \<Rightarrow> u32 list" where
  "rmd_compress X h =
     (let l = fold (rmd_step (\<lambda>j. ripemd160_f (j + 1)) ripemd160_kl ripemd160_left X) [0..<80] h;
          r = fold (rmd_step (\<lambda>j. ripemd160_f (5 - j)) ripemd160_kr ripemd160_right X) [0..<80] h
      in [h ! 1 + l ! 2 + r ! 3, h ! 2 + l ! 3 + r ! 4, h ! 3 + l ! 4 + r ! 0, h ! 4 + l ! 0 + r ! 1, h ! 0 + l ! 1 + r ! 2])"

definition rmd160 :: "bytes \<Rightarrow> bytes" where
  "rmd160 m = concat (map WriteLE32 (foldl (\<lambda>H c. rmd_compress (map (\<lambda>i. ReadLE32 (drop (4 * i) c)) [0..<16]) H)
     ripemd160_Initialize (chunks 64 (md_pad 64 (le_bytes 8 (of_nat (8 * length m) :: u64)) m))))"

definition rotated5 :: "nat \<Rightarrow> 'a list \<Rightarrow> 'a list" where
  "rotated5 n v = map (\<lambda>i. v ! arg5 n i) [0..<5]"

lemma rotl_shifts:
  "0 < n \<Longrightarrow> n < LENGTH('a) \<Longrightarrow> k = LENGTH('a) - n \<Longrightarrow> push_bit n x OR drop_bit k x = word_rotl n (x :: 'a::len word)"
proof (intro bit_eqI)
  fix i assume n: "0 < n" "n < LENGTH('a)" "k = LENGTH('a) - n" and "possible_bit TYPE('a word) i"
  then have i: "i < LENGTH('a)" by (simp add: possible_bit_word)
  have "(LENGTH('a) + i - n mod LENGTH('a)) mod LENGTH('a) = (if n \<le> i then i - n else LENGTH('a) + i - n)"
    using n i by (auto simp: mod_if)
  then show "bit (push_bit n x OR drop_bit k x) i = bit (word_rotl n x) i"
    using n i by (auto simp: bit_word_rotl_iff bit_drop_bit_eq bit_push_bit_iff bit_or_iff add.commute dest: bit_imp_le_length)
qed

lemma arg5_mod: "arg5 n i = (i + 4 * (n mod 5)) mod 5"
  unfolding arg5_def by (metis mod_add_right_eq mod_mult_right_eq)

lemma arg5_Suc: "arg5 (Suc n) i = (i + 4 * Suc (n mod 5)) mod 5"
  using arg5_mod [of n "i + 4"] by (simp add: arg5_def add.assoc)

lemma list5: "length v = 5 \<Longrightarrow> \<exists>a b c d e. v = [a, b, c, d, e]"
  by (auto simp: numeral_eq_Suc length_Suc_conv)

lemma mod5_cases:
  obtains "n mod 5 = 0" | "n mod 5 = 1" | "n mod 5 = 2" | "n mod 5 = 3" | "n mod 5 = (4 :: nat)"
  using mod_less_divisor [of 5 n] by linarith

lemma sha1_f_fips: "sha1_f = fips1_f"
  by (intro ext) (simp add: sha1_f_def fips1_f_def Ch_fips [symmetric] Maj_fips [symmetric] Ch_def Maj_def)

lemma sha1_round_fips:
  assumes "length v = 5"
  shows "rotated5 (Suc n) (sha1_round_at n w v) = fips1_step n w (rotated5 n v)"
proof -
  obtain a b c d e where v: "v = [a, b, c, d, e]" using list5 [OF assms] by blast
  show ?thesis
    by (cases n rule: mod5_cases) (simp_all add: v rotated5_def sha1_round_at_def fips1_step_def arg5_mod [of n] arg5_Suc
      upt_rec [of _ 5] sha1_f_fips rotl_shifts Let_def add.commute add.left_commute)
qed

lemma ripemd160_line_rmd:
  assumes "length v = 5" "tab ! n = (x, r)" "0 < r" "r < 32"
  shows "rotated5 (Suc n) (ripemd160_line f k n (X ! x) r v) = rmd_step f k tab X n (rotated5 n v)"
proof -
  obtain a b c d e where v: "v = [a, b, c, d, e]" using list5 [OF assms(1)] by blast
  show ?thesis using assms(3,4)
    by (cases n rule: mod5_cases) (simp_all add: v assms(2) rotated5_def ripemd160_line_def rmd_step_def arg5_mod [of n] arg5_Suc
      upt_rec [of _ 5] ripemd160_rol_def rotl_shifts Let_def)
qed

lemma rotated5_id: "length v = 5 \<Longrightarrow> n mod 5 = 0 \<Longrightarrow> rotated5 n v = v"
  using list5 [of v] by (auto simp: rotated5_def arg5_mod upt_rec [of _ 5])

lemma sha1_left_rotl: "sha1_left x = word_rotl 1 x"
  unfolding sha1_left_def by (rule rotl_shifts) simp_all

lemma sha1_schedule_ring:
  assumes "ring_of (fips1_W M) n w"
  shows "ring_of (fips1_W M) (Suc n) (sha1_schedule n w) \<and> sha1_schedule n w ! (n mod 16) = fips1_W M n"
proof (cases "n < 16")
  case True
  then show ?thesis using ring_of_low [OF assms] by (simp add: sha1_schedule_def)
next
  case False
  let ?x = "sha1_left (w ! (n mod 16) XOR w ! ((n + 13) mod 16) XOR w ! ((n + 8) mod 16) XOR w ! ((n + 2) mod 16))"
  have x: "?x = fips1_W M n"
    using ring_of_back [OF assms, of 16] ring_of_back [OF assms, of 3] ring_of_back [OF assms, of 8]
      ring_of_back [OF assms, of 14] False
    by (subst fips1_W.simps) (simp add: sha1_left_rotl xor.left_commute xor.commute)
  have "length w = 16" using assms by (simp add: ring_of_def)
  then show ?thesis using ring_of_push [OF assms _ x] x False by (simp add: sha1_schedule_def)
qed

lemma sha1_rounds_fips:
  assumes "length v = 5" "ring_of (fips1_W M) n w"
  shows "rotated5 (n + k) (sha1_rounds k n w v) = fold (\<lambda>t. fips1_step t (fips1_W M t)) [n..<n + k] (rotated5 n v)
    \<and> length (sha1_rounds k n w v) = 5"
  using assms
proof (induction k arbitrary: n w v)
  case (Suc k)
  let ?w = "sha1_schedule n w" and ?v = "sha1_round_at n (sha1_schedule n w ! (n mod 16)) v"
  note r = sha1_schedule_ring [OF Suc.prems(2)]
  have v: "length ?v = 5" using Suc.prems by (simp add: sha1_round_at_def Let_def)
  have u: "[n..<n + Suc k] = n # [Suc n..<n + Suc k]" by (rule upt_conv_Cons) simp
  have l: "n + Suc k = Suc n + k" by simp
  have s: "sha1_rounds (Suc k) n w v = sha1_rounds k (Suc n) ?w ?v" by (simp add: Let_def)
  have "fips1_step n (fips1_W M n) (rotated5 n v) = rotated5 (Suc n) ?v"
    unfolding conjunct2 [OF r] by (rule sha1_round_fips [OF Suc.prems(1), symmetric])
  then show ?case
    using Suc.IH [OF v conjunct1 [OF r], folded l]
    unfolding s u fold_Cons o_apply by (simp only: simp_thms)
qed simp

lemma ripemd160_lines_rmd:
  assumes "length v = 5" "\<And>i. i < length xrs \<Longrightarrow> tab ! (n + i) = xrs ! i" "\<forall>(x, r) \<in> set xrs. 0 < r \<and> r < 32"
  shows "rotated5 (n + length xrs) (ripemd160_lines f k xrs n X v) =
      fold (rmd_step f k tab X) [n..<n + length xrs] (rotated5 n v)
    \<and> length (ripemd160_lines f k xrs n X v) = 5"
  using assms
proof (induction xrs arbitrary: n v)
  case (Cons xr xrs)
  obtain x r where xr: "xr = (x, r)" by (cases xr)
  let ?v = "ripemd160_line f k n (X ! x) r v"
  have v: "length ?v = 5" using Cons.prems by (simp add: ripemd160_line_def Let_def)
  have t: "tab ! n = (x, r)" using Cons.prems(2) [of 0] by (simp add: xr)
  have u: "[n..<n + length (xr # xrs)] = n # [Suc n..<n + length (xr # xrs)]" by (rule upt_conv_Cons) simp
  have l: "n + length (xr # xrs) = Suc n + length xrs" by simp
  have s: "ripemd160_lines f k (xr # xrs) n X v = ripemd160_lines f k xrs (Suc n) X ?v" by (simp add: xr)
  have "rmd_step f k tab X n (rotated5 n v) = rotated5 (Suc n) ?v"
    using ripemd160_line_rmd [OF Cons.prems(1) t, of f k X] Cons.prems(3) by (simp add: xr)
  moreover have "tab ! (Suc n + i) = xrs ! i" if "i < length xrs" for i
    using Cons.prems(2) [of "Suc i"] that by simp
  ultimately show ?case
    using Cons.IH [OF v, of "Suc n", folded l] Cons.prems(3)
    unfolding s u fold_Cons o_apply by simp
qed simp

lemma sha1_Transform_fips:
  assumes "length s = 5"
  shows "sha1_Transform s c = fips1_compress (map (\<lambda>i. ReadBE32 (drop (4 * i) c)) [0..<16]) s"
proof -
  let ?M = "map (\<lambda>i. ReadBE32 (drop (4 * i) c)) [0..<16]"
  have r: "ring_of (fips1_W ?M) 0 ?M" by (rule ring_of_start) (simp_all add: fips1_W.simps)
  note f = sha1_rounds_fips [OF assms r, of 80, unfolded add_0]
  have e: "(80 :: nat) mod 5 = 0" by simp
  show ?thesis
    using conjunct1 [OF f] unfolding rotated5_id [OF conjunct2 [OF f] e] rotated5_id [OF assms mod_0]
    by (simp only: fips1_compress_def sha1_Transform_def Let_def)
qed

lemma ripemd160_Transform_rmd:
  assumes "length s = 5"
  shows "ripemd160_Transform s c = rmd_compress (map (\<lambda>i. ReadLE32 (drop (4 * i) c)) [0..<16]) s"
proof -
  have t: "length ripemd160_left = 80" "length ripemd160_right = 80"
    "\<forall>(x, r) \<in> set ripemd160_left. 0 < r \<and> r < 32" "\<forall>(x, r) \<in> set ripemd160_right. 0 < r \<and> r < 32"
    by (simp_all add: ripemd160_left_def ripemd160_right_def)
  have lines: "ripemd160_lines f k tab 0 X s = fold (rmd_step f k tab X) [0..<80] s"
    if "length tab = 80" "\<forall>(x, r) \<in> set tab. 0 < r \<and> r < 32" for f k tab X
    using ripemd160_lines_rmd [OF assms, of tab tab 0 f k X] that
      rotated5_id [of "ripemd160_lines f k tab 0 X s" 80] rotated5_id [OF assms, of 0] by simp
  show ?thesis
    by (simp only: ripemd160_Transform_def rmd_compress_def Let_def lines [OF t(1,3)] lines [OF t(2,4)])
qed

subsection \<open>The hashers compute the standards\<close>

lemma pad64: "(119 - l mod 64) mod 64 = nat ((int 64 - int 8 - 1 - int l) mod int 64)"
proof -
  have "int ((119 - l mod 64) mod 64) = (119 - int (l mod 64)) mod 64"
    using mod_less_divisor [of 64 l] by (simp add: of_nat_diff zmod_int)
  also have "\<dots> = (int 64 - int 8 - 1 - int l) mod int 64"
    using mod_add_self2 [of "55 - int l" 64] by (simp add: zmod_int mod_diff_right_eq)
  finally show ?thesis by linarith
qed

lemma pad128: "(239 - l mod 128) mod 128 = nat ((int 128 - int 16 - 1 - int l) mod int 128)"
proof -
  have "int ((239 - l mod 128) mod 128) = (239 - int (l mod 128)) mod 128"
    using mod_less_divisor [of 128 l] by (simp add: of_nat_diff zmod_int)
  also have "\<dots> = (int 128 - int 16 - 1 - int l) mod int 128"
    using mod_add_self2 [of "111 - int l" 128] by (simp add: zmod_int mod_diff_right_eq)
  finally show ?thesis by linarith
qed

lemma bit_length: "push_bit 3 (of_nat l :: u64) = of_nat (8 * l)"
  by (simp add: push_bit_eq_mult)

lemma absorb_md_pad: "0 < B \<Longrightarrow> fst (absorb B tr s (md_pad B sz m)) = foldl tr s (chunks B (md_pad B sz m))"
  by (simp add: absorb_chunks length_md_pad)

lemma foldl_transform:
  assumes "\<And>s c. length s = k \<Longrightarrow> f s c = g s c" "\<And>s c. length s = k \<Longrightarrow> length (g s c) = k" "length s = k"
  shows "foldl f s cs = foldl g s cs"
  by (rule foldl_cong_inv [where P = "\<lambda>s. length s = k"]) (simp_all add: assms)

lemma sha256_Transform_fips:
  "length s = 8 \<Longrightarrow> sha256_Transform s c =
     fips_compress fips256_Sigma0 fips256_Sigma1 fips256_sigma0 fips256_sigma1 sha256_K (map (\<lambda>i. ReadBE32 (drop (4 * i) c)) [0..<16]) s"
  unfolding sha256_Transform_def Let_def sha256_functions
  by (rule sha2_rounds_compress) (simp_all add: sha256_K_def)

lemma sha512_Transform_fips:
  "length s = 8 \<Longrightarrow> sha512_Transform s c =
     fips_compress fips512_Sigma0 fips512_Sigma1 fips512_sigma0 fips512_sigma1 sha512_K (map (\<lambda>i. ReadBE64 (drop (8 * i) c)) [0..<16]) s"
  unfolding sha512_Transform_def Let_def sha512_functions
  by (rule sha2_rounds_compress) (simp_all add: sha512_K_def)

lemma count64: "hbytes h = of_nat l \<Longrightarrow> unat (hbytes h mod 64) = l mod 64"
  using u64_mod_block [of 64 l] by simp

lemma count128: "hbytes h = of_nat l \<Longrightarrow> unat (hbytes h mod 128) = l mod 128"
  using u64_mod_block [of 128 l] by simp

lemma CSHA256_Finalize_sha256:
  assumes "represents 64 sha256_Transform sha256_Initialize m h"
  shows "fst (CSHA256_Finalize h) = sha256 m \<and> length (hbuf (snd (CSHA256_Finalize h))) = 64"
proof -
  let ?a = "0x80 # replicate ((119 - length m mod 64) mod 64) 0 :: bytes" and ?b = "WriteBE64 (of_nat (8 * length m))"
  have p: "m @ ?a @ ?b = md_pad 64 (rev (le_bytes 8 (of_nat (8 * length m) :: u64))) m"
    unfolding md_pad_def WriteBE64_def length_rev length_le_bytes pad64 by simp
  have n: "hbytes h = of_nat (length m)" using sha256.repr_count [OF assms] .
  have f: "CSHA256_Finalize h = (concat (map WriteBE32 (hstate (CSHA256_Write ?b (CSHA256_Write ?a h)))), CSHA256_Write ?b (CSHA256_Write ?a h))"
    unfolding CSHA256_Finalize_def Let_def count64 [OF n] unfolding n bit_length ..
  have t: "foldl sha256_Transform sha256_Initialize cs = foldl (\<lambda>H c. fips_compress fips256_Sigma0 fips256_Sigma1
      fips256_sigma0 fips256_sigma1 sha256_K (map (\<lambda>i. ReadBE32 (drop (4 * i) c)) [0..<16]) H) sha256_Initialize cs" for cs
    by (rule foldl_transform [where k = 8, OF sha256_Transform_fips length_fips_compress]) (simp_all add: sha256_Initialize_def)
  have "length (hbuf (CSHA256_Write ?b (CSHA256_Write ?a h))) = 64"
    by (rule represents_buf [OF sha256.repr_put2 [OF assms]])
  then show ?thesis
    unfolding f sha256.chain_put2 [OF assms] p sha256_def by (simp add: absorb_md_pad t)
qed

lemma length_fips1_compress: "length H = 5 \<Longrightarrow> length (fips1_compress M H) = 5"
proof -
  have "length (fold (\<lambda>t. fips1_step t (fips1_W M t)) ts H) = 5" if "length H = 5" for ts H
    using that by (induction ts arbitrary: H) (simp_all add: fips1_step_def Let_def)
  then show "length H = 5 \<Longrightarrow> length (fips1_compress M H) = 5" by (simp add: fips1_compress_def)
qed

lemma CSHA1_Finalize_sha1:
  assumes "represents 64 sha1_Transform sha1_Initialize m h"
  shows "fst (CSHA1_Finalize h) = sha1 m"
proof -
  let ?a = "0x80 # replicate ((119 - length m mod 64) mod 64) 0 :: bytes" and ?b = "WriteBE64 (of_nat (8 * length m))"
  have p: "m @ ?a @ ?b = md_pad 64 (?b) m"
    unfolding md_pad_def WriteBE64_def length_rev length_le_bytes pad64 by simp
  have n: "hbytes h = of_nat (length m)" using sha1.repr_count [OF assms] .
  have f: "fst (CSHA1_Finalize h) = concat (map WriteBE32 (hstate (CSHA1_Write ?b (CSHA1_Write ?a h))))"
    unfolding CSHA1_Finalize_def Let_def count64 [OF n] unfolding n bit_length fst_conv ..
  have t: "foldl sha1_Transform sha1_Initialize cs =
      foldl (\<lambda>H c. fips1_compress (map (\<lambda>i. ReadBE32 (drop (4 * i) c)) [0..<16]) H) sha1_Initialize cs" for cs
    by (rule foldl_transform [where k = 5, OF sha1_Transform_fips length_fips1_compress]) (simp_all add: sha1_Initialize_def)
  show ?thesis
    unfolding f sha1.chain_put2 [OF assms] p sha1_def by (simp add: absorb_md_pad t WriteBE64_def)
qed

lemma CRIPEMD160_Finalize_rmd160:
  assumes "represents 64 ripemd160_Transform ripemd160_Initialize m h"
  shows "fst (CRIPEMD160_Finalize h) = rmd160 m"
proof -
  let ?a = "0x80 # replicate ((119 - length m mod 64) mod 64) 0 :: bytes" and ?b = "WriteLE64 (of_nat (8 * length m))"
  have p: "m @ ?a @ ?b = md_pad 64 (?b) m"
    unfolding md_pad_def WriteLE64_def length_rev length_le_bytes pad64 by simp
  have n: "hbytes h = of_nat (length m)" using ripemd160.repr_count [OF assms] .
  have f: "fst (CRIPEMD160_Finalize h) = concat (map WriteLE32 (hstate (CRIPEMD160_Write ?b (CRIPEMD160_Write ?a h))))"
    unfolding CRIPEMD160_Finalize_def Let_def count64 [OF n] unfolding n bit_length fst_conv ..
  have t: "foldl ripemd160_Transform ripemd160_Initialize cs =
      foldl (\<lambda>H c. rmd_compress (map (\<lambda>i. ReadLE32 (drop (4 * i) c)) [0..<16]) H) ripemd160_Initialize cs" for cs
    by (rule foldl_transform [where k = 5, OF ripemd160_Transform_rmd]) (simp_all add: rmd_compress_def Let_def ripemd160_Initialize_def)
  show ?thesis
    unfolding f ripemd160.chain_put2 [OF assms] p rmd160_def by (simp add: absorb_md_pad t WriteLE64_def)
qed

text \<open>The length field of SHA-512 has 128 bits, of which the code writes the lower half.\<close>

lemma le_bytes_widen:
  assumes "l < 2 ^ 64"
  shows "le_bytes 16 (of_nat l :: 128 word) = le_bytes 8 (of_nat l :: u64) @ replicate 8 0"
proof (rule nth_equalityI)
  fix i assume i: "i < length (le_bytes 16 (of_nat l :: 128 word))"
  show "le_bytes 16 (of_nat l :: 128 word) ! i = (le_bytes 8 (of_nat l :: u64) @ replicate 8 0) ! i"
  proof (rule bit_eqI)
    fix j assume "possible_bit TYPE(8 word) j"
    then have j: "j < 8" by (simp add: possible_bit_word)
    have z: "\<not> bit l (8 * i + j)" if "8 \<le> i"
    proof -
      have "(2 :: nat) ^ 64 \<le> 2 ^ (8 * i + j)" using that by (intro power_increasing) auto
      then have "l < 2 ^ (8 * i + j)" using assms by (rule less_le_trans [rotated])
      then show ?thesis by (simp add: bit_iff_odd)
    qed
    show "bit (le_bytes 16 (of_nat l :: 128 word) ! i) j = bit ((le_bytes 8 (of_nat l :: u64) @ replicate 8 0) ! i) j"
      using i j z by (auto simp: nth_append bit_le_bytes bit_of_nat_iff possible_bit_word)
  qed
qed simp

lemma CSHA512_Finalize_sha512:
  assumes "represents 128 sha512_Transform sha512_Initialize m h" and l: "length m < 2 ^ 61"
  shows "fst (CSHA512_Finalize h) = sha512 m"
proof -
  let ?a = "0x80 # replicate ((239 - length m mod 128) mod 128) 0 :: bytes" and ?b = "replicate 8 0 @ WriteBE64 (of_nat (8 * length m))"
  have w: "rev (le_bytes 16 (of_nat (8 * length m) :: 128 word)) = ?b"
    using le_bytes_widen [of "8 * length m"] l by (simp add: WriteBE64_def)
  have p: "m @ ?a @ ?b = md_pad 128 (?b) m"
    unfolding md_pad_def WriteBE64_def length_append length_replicate length_rev length_le_bytes pad128 by simp
  have n: "hbytes h = of_nat (length m)" using sha512.repr_count [OF assms(1)] .
  have f: "fst (CSHA512_Finalize h) = concat (map WriteBE64 (hstate (CSHA512_Write ?b (CSHA512_Write ?a h))))"
    unfolding CSHA512_Finalize_def Let_def count128 [OF n] unfolding n bit_length fst_conv ..
  have t: "foldl sha512_Transform sha512_Initialize cs = foldl (\<lambda>H c. fips_compress fips512_Sigma0 fips512_Sigma1
      fips512_sigma0 fips512_sigma1 sha512_K (map (\<lambda>i. ReadBE64 (drop (8 * i) c)) [0..<16]) H) sha512_Initialize cs" for cs
    by (rule foldl_transform [where k = 8, OF sha512_Transform_fips length_fips_compress]) (simp_all add: sha512_Initialize_def)
  show ?thesis
    unfolding f sha512.chain_put2 [OF assms(1)] p sha512_def w by (simp add: absorb_md_pad t)
qed

lemma length_WriteBE32 [simp]: "length (WriteBE32 x) = 4"
  by (simp add: WriteBE32_def)

lemma sha256_digest: "fst (CSHA256_Finalize (CSHA256_Write m CSHA256_new)) = sha256 m"
  using CSHA256_Finalize_sha256 [OF sha256.repr_message [of "[m]"]] by simp

lemma sha512_digest: "length m < 2 ^ 61 \<Longrightarrow> fst (CSHA512_Finalize (CSHA512_Write m CSHA512_new)) = sha512 m"
  using CSHA512_Finalize_sha512 [OF sha512.repr_message [of "[m]"]] by simp

lemma ripemd160_digest: "fst (CRIPEMD160_Finalize (CRIPEMD160_Write m CRIPEMD160_new)) = rmd160 m"
  using CRIPEMD160_Finalize_rmd160 [OF ripemd160.repr_message [of "[m]"]] by simp

lemma CHash256_sha256:
  assumes "represents 64 sha256_Transform sha256_Initialize m h"
  shows "CHash256_Finalize h = sha256 (sha256 m)"
proof -
  obtain buf sha where f: "CSHA256_Finalize h = (buf, sha)" by (cases "CSHA256_Finalize h")
  have b: "buf = sha256 m" "length (hbuf sha) = 64" using CSHA256_Finalize_sha256 [OF assms] by (simp_all add: f)
  then have "represents 64 sha256_Transform sha256_Initialize [] (CSHA256_Reset sha)"
    by (simp add: represents_start CSHA256_Reset_def)
  then have "represents 64 sha256_Transform sha256_Initialize (sha256 m) (CSHA256_Write buf (CSHA256_Reset sha))"
    using sha256.repr_put b by fastforce
  then show ?thesis using CSHA256_Finalize_sha256 by (simp add: CHash256_Finalize_def f)
qed

lemma SerializeHash_sha256: "SerializeHash pieces = sha256 (sha256 (concat pieces))"
  unfolding SerializeHash_def by (rule CHash256_sha256 [OF sha256.repr_message])

lemma Hash_sha256: "Hash p = sha256 (sha256 p)"
  using SerializeHash_sha256 [of "[p]"] by (simp add: Hash_def SerializeHash_def)

lemma Hash_pair_sha256: "Hash_pair p1 p2 = sha256 (sha256 (p1 @ p2))"
  using SerializeHash_sha256 [of "[p1, p2]"] by (simp add: Hash_pair_def SerializeHash_def)

lemma Hash160_rmd160: "Hash160 p = rmd160 (sha256 p)"
  using sha256_digest [of p] by (auto simp: Hash160_def CHash160_Finalize_def ripemd160_digest split: prod.splits)

lemma length_fold_fips: "length s = k \<Longrightarrow> (\<And>s c. length s = k \<Longrightarrow> length (f s c) = k) \<Longrightarrow> length (foldl f s cs) = k"
  by (induction cs arbitrary: s) simp_all

lemma length_concat_const: "(\<And>x. length (f x) = k) \<Longrightarrow> length (concat (map f xs)) = k * length xs"
  by (induction xs) simp_all

lemma length_sha256 [simp]: "length (sha256 m) = 32"
  unfolding sha256_def
  by (subst length_concat_const [where k = 4])
    (simp_all add: length_fold_fips [where k = 8] length_fips_compress sha256_Initialize_def)

lemma length_Hash [simp]: "length (Hash p) = 32" "length (Hash_pair p1 p2) = 32" "length (SerializeHash ps) = 32"
  by (simp_all add: Hash_sha256 Hash_pair_sha256 SerializeHash_sha256)

lemma length_GetHash [simp]: "length (GetHash tx) = 32"
  by (simp add: GetHash_def)

text \<open>
  C11: Property: whatever the division of a message into calls of \<open>Write\<close>, \<open>CSHA256\<close> returns the
  SHA-256 digest of the message, and \<open>CHash256\<close>, through which every object is hashed, its double
  digest.  The reference is the standard: padding, schedule, rounds with shifted variables.
\<close>

theorem csha256_computes_sha256:
  "fst (CSHA256_Finalize (fold CSHA256_Write pieces CSHA256_new)) = sha256 (concat pieces)
   \<and> SerializeHash pieces = sha256 (sha256 (concat pieces))"
  using CSHA256_Finalize_sha256 [OF sha256.repr_message] SerializeHash_sha256 by blast

text \<open>
  C37: Property: \<open>CSHA512\<close> returns the SHA-512 digest of a message of less than 2^61 bytes, whatever
  its division into calls of \<open>Write\<close>.  The standard's length field has 128 bits, the code's counter 64.
\<close>

theorem csha512_computes_sha512:
  assumes "length (concat pieces) < 2 ^ 61"
  shows "fst (CSHA512_Finalize (fold CSHA512_Write pieces CSHA512_new)) = sha512 (concat pieces)"
  by (rule CSHA512_Finalize_sha512 [OF sha512.repr_message assms])

theorem csha512_computes_sha512_witness:
  "fst (CSHA512_Finalize (fold CSHA512_Write [[0x61], [0x62, 0x63]] CSHA512_new)) = sha512 [0x61, 0x62, 0x63]"
  using csha512_computes_sha512 [of "[[0x61], [0x62, 0x63]]"] by simp


text \<open>HMAC as RFC 2104 defines it, over a hash function of block length B.\<close>

definition rfc2104 :: "nat \<Rightarrow> (bytes \<Rightarrow> bytes) \<Rightarrow> bytes \<Rightarrow> bytes \<Rightarrow> bytes" where
  "rfc2104 B H key text =
     (let k = (if length key > B then H key else key); k0 = k @ replicate (B - length k) 0
      in H (map (\<lambda>b. b XOR 0x5c) k0 @ H (map (\<lambda>b. b XOR 0x36) k0 @ text)))"

lemma hmac_keys:
  "map (\<lambda>b. b XOR (0x5c XOR 0x36)) (map (\<lambda>b. b XOR 0x5c) k) = map (\<lambda>b :: u8. b XOR 0x36) k"
proof -
  have "(b XOR 0x5c) XOR (0x5c XOR 0x36) = (b XOR (0x36 :: u8))" for b
    by (intro bit_eqI) (simp only: bit_xor_iff, blast)
  then show ?thesis by simp
qed

lemma hmac256:
  "CHMAC_SHA256_Finalize (fold CHMAC_SHA256_Write pieces (CHMAC_SHA256_new key)) = rfc2104 64 sha256 key (concat pieces)"
proof -
  let ?k0 = "hmac_rkey 64 sha256 key"
  let ?o = "map (\<lambda>b. b XOR 0x5c) ?k0" and ?i = "map (\<lambda>b. b XOR 0x36) ?k0"
  have new: "CHMAC_SHA256_new key = \<lparr>outer = CSHA256_Write ?o CSHA256_new, inner = CSHA256_Write ?i CSHA256_new\<rparr>"
    unfolding CHMAC_SHA256_new_def Let_def hmac_keys sha256_digest ..
  have fold: "fold CHMAC_SHA256_Write ps m = m\<lparr>inner := fold CSHA256_Write ps (inner m)\<rparr>" for ps m
    by (induction ps arbitrary: m) (simp_all add: CHMAC_SHA256_Write_def)
  have i: "fst (CSHA256_Finalize (fold CSHA256_Write pieces (CSHA256_Write ?i CSHA256_new))) = sha256 (?i @ concat pieces)"
    using CSHA256_Finalize_sha256 [OF sha256.repr_message [of "?i # pieces"]] by simp
  have o: "fst (CSHA256_Finalize (CSHA256_Write x (CSHA256_Write ?o CSHA256_new))) = sha256 (?o @ x)" for x
    using CSHA256_Finalize_sha256 [OF sha256.repr_message [of "[?o, x]"]] by simp
  have k: "?k0 = (let k = (if length key > 64 then sha256 key else key) in k @ replicate (64 - length k) 0)"
    by (simp add: hmac_rkey_def Let_def)
  show ?thesis unfolding fold new CHMAC_SHA256_Finalize_def hmac.simps i o
    unfolding k rfc2104_def Let_def ..
qed

lemma length_sha512 [simp]: "length (sha512 m) = 64"
  unfolding sha512_def
  by (subst length_concat_const [where k = 8])
    (simp_all add: length_fold_fips [where k = 8] length_fips_compress sha512_Initialize_def WriteBE64_def)

lemma hmac512:
  assumes l: "length key < 2 ^ 61" "128 + length (concat pieces) < 2 ^ 61"
  shows "CHMAC_SHA512_Finalize (fold CHMAC_SHA512_Write pieces (CHMAC_SHA512_new key)) = rfc2104 128 sha512 key (concat pieces)"
proof -
  let ?k0 = "hmac_rkey 128 sha512 key"
  let ?o = "map (\<lambda>b. b XOR 0x5c) ?k0" and ?i = "map (\<lambda>b. b XOR 0x36) ?k0"
  have new: "CHMAC_SHA512_new key = \<lparr>outer = CSHA512_Write ?o CSHA512_new, inner = CSHA512_Write ?i CSHA512_new\<rparr>"
    unfolding CHMAC_SHA512_new_def Let_def hmac_keys
    using sha512_digest [OF l(1)] by (simp add: hmac_rkey_def)
  have fold: "fold CHMAC_SHA512_Write ps m = m\<lparr>inner := fold CSHA512_Write ps (inner m)\<rparr>" for ps m
    by (induction ps arbitrary: m) (simp_all add: CHMAC_SHA512_Write_def)
  have k0: "length ?k0 = 128" by (simp add: hmac_rkey_def Let_def)
  have i: "fst (CSHA512_Finalize (fold CSHA512_Write pieces (CSHA512_Write ?i CSHA512_new))) = sha512 (?i @ concat pieces)"
    using CSHA512_Finalize_sha512 [OF sha512.repr_message [of "?i # pieces"]] l(2) by (simp add: k0)
  have o: "fst (CSHA512_Finalize (CSHA512_Write x (CSHA512_Write ?o CSHA512_new))) = sha512 (?o @ x)" if "length x = 64" for x
    using CSHA512_Finalize_sha512 [OF sha512.repr_message [of "[?o, x]"]] that by (simp add: k0)
  have k: "?k0 = (let k = (if length key > 128 then sha512 key else key) in k @ replicate (128 - length k) 0)"
    by (simp add: hmac_rkey_def Let_def)
  show ?thesis unfolding fold new CHMAC_SHA512_Finalize_def hmac.simps i o [OF length_sha512]
    unfolding k rfc2104_def Let_def ..
qed

text \<open>
  C39: Property: the keyed hashes return the HMAC of RFC 2104 whatever the division of the message, and
  the key derivation \<open>BIP32Hash\<close> keys HMAC-SHA512 with the chain code over header, data and the
  child number in big-endian order.
\<close>

theorem hmac_computes_rfc2104:
  assumes "length key < 2 ^ 61" "128 + length (concat pieces) < 2 ^ 61" "length cc < 2 ^ 61" "length data < 2 ^ 60"
  shows "CHMAC_SHA256_Finalize (fold CHMAC_SHA256_Write pieces (CHMAC_SHA256_new key)) = rfc2104 64 sha256 key (concat pieces)
    \<and> CHMAC_SHA512_Finalize (fold CHMAC_SHA512_Write pieces (CHMAC_SHA512_new key)) = rfc2104 128 sha512 key (concat pieces)
    \<and> BIP32Hash cc nChild header data = rfc2104 128 sha512 cc (header # data @ WriteBE32 nChild)"
proof -
  have n: "[ucast (drop_bit 24 nChild AND 0xff), ucast (drop_bit 16 nChild AND 0xff),
      ucast (drop_bit 8 nChild AND 0xff), ucast (nChild AND 0xff)] = WriteBE32 nChild"
  proof -
    have m: "(0xff :: u32) = mask 8" by (simp add: mask_eq_exp_minus_1)
    have "ucast (x AND 0xff) = (ucast x :: u8)" for x :: u32
      unfolding m by (intro bit_eqI) (auto simp: bit_unsigned_iff bit_and_iff bit_mask_iff possible_bit_word)
    then show ?thesis by (simp add: WriteBE32_def le_bytes_def upt_rec)
  qed
  show ?thesis
    using hmac256 hmac512 [OF assms(1,2)] hmac512 [OF assms(3), of "[[header], data, WriteBE32 nChild]"] assms(4)
    by (simp add: BIP32Hash_def n)
qed

theorem hmac_computes_rfc2104_witness:
  "CHMAC_SHA256_Finalize (fold CHMAC_SHA256_Write [[0x61], [0x62]] (CHMAC_SHA256_new [7])) = rfc2104 64 sha256 [7] [0x61, 0x62]
    \<and> CHMAC_SHA512_Finalize (fold CHMAC_SHA512_Write [[0x61], [0x62]] (CHMAC_SHA512_new [7])) = rfc2104 128 sha512 [7] [0x61, 0x62]
    \<and> BIP32Hash (replicate 32 1) 5 0 [9] = rfc2104 128 sha512 (replicate 32 1) (0 # [9] @ WriteBE32 5)"
  using hmac_computes_rfc2104 [of "[7]" "[[0x61], [0x62]]" "replicate 32 1" "[9]" 5 0] by simp

end
