(* ===== verification/Interpreter.thy ===== *)
theory Interpreter
  imports Hashes
begin

text \<open>
  The script interpreter, \<open>src/src/script/interpreter.cpp\<close>.  A stack is a vector of byte strings whose
  top is its last element.  A run of the interpreter ends in one of three ways besides its normal
  result: \<open>Err\<close> is a return of false with the given \<open>ScriptError\<close>, \<open>Throw\<close> a C++ exception, which the
  \<open>catch\<close> of \<open>EvalScript\<close> turns into \<open>SCRIPT_ERR_UNKNOWN_ERROR\<close>, and \<open>Abort\<close> a failed assertion or
  undefined behaviour.  The elliptic curve library is a parameter: \<open>CheckLowS\<close> and \<open>Verify\<close> of
  \<open>CPubKey\<close>.
\<close>

section \<open>Errors and flags\<close>

datatype ScriptError =
    SCRIPT_ERR_OK | SCRIPT_ERR_UNKNOWN_ERROR | SCRIPT_ERR_EVAL_FALSE | SCRIPT_ERR_OP_RETURN
  | SCRIPT_ERR_SCRIPT_SIZE | SCRIPT_ERR_PUSH_SIZE | SCRIPT_ERR_OP_COUNT | SCRIPT_ERR_STACK_SIZE
  | SCRIPT_ERR_SIG_COUNT | SCRIPT_ERR_PUBKEY_COUNT
  | SCRIPT_ERR_VERIFY | SCRIPT_ERR_EQUALVERIFY | SCRIPT_ERR_CHECKMULTISIGVERIFY | SCRIPT_ERR_CHECKSIGVERIFY
  | SCRIPT_ERR_NUMEQUALVERIFY
  | SCRIPT_ERR_BAD_OPCODE | SCRIPT_ERR_DISABLED_OPCODE | SCRIPT_ERR_INVALID_STACK_OPERATION
  | SCRIPT_ERR_INVALID_ALTSTACK_OPERATION | SCRIPT_ERR_UNBALANCED_CONDITIONAL
  | SCRIPT_ERR_NEGATIVE_LOCKTIME | SCRIPT_ERR_UNSATISFIED_LOCKTIME
  | SCRIPT_ERR_SIG_HASHTYPE | SCRIPT_ERR_SIG_DER | SCRIPT_ERR_MINIMALDATA | SCRIPT_ERR_SIG_PUSHONLY
  | SCRIPT_ERR_SIG_HIGH_S | SCRIPT_ERR_SIG_NULLDUMMY | SCRIPT_ERR_PUBKEYTYPE | SCRIPT_ERR_CLEANSTACK
  | SCRIPT_ERR_MINIMALIF | SCRIPT_ERR_SIG_NULLFAIL
  | SCRIPT_ERR_DISCOURAGE_UPGRADABLE_NOPS | SCRIPT_ERR_DISCOURAGE_UPGRADABLE_WITNESS_PROGRAM
  | SCRIPT_ERR_WITNESS_PROGRAM_WRONG_LENGTH | SCRIPT_ERR_WITNESS_PROGRAM_WITNESS_EMPTY
  | SCRIPT_ERR_WITNESS_PROGRAM_MISMATCH | SCRIPT_ERR_WITNESS_MALLEATED | SCRIPT_ERR_WITNESS_MALLEATED_P2SH
  | SCRIPT_ERR_WITNESS_UNEXPECTED | SCRIPT_ERR_WITNESS_PUBKEYTYPE
  | SCRIPT_ERR_OP_CODESEPARATOR | SCRIPT_ERR_SIG_FINDANDDELETE

datatype cxx_exception = Scriptnum_error scriptnum_error | Vector_at | Popstack_empty

datatype stop = Err ScriptError | Throw cxx_exception | Abort

type_synonym 'a run = "stop + 'a"
type_synonym valtype = bytes

datatype SigVersion = BASE | WITNESS_V0

abbreviation (input) SIGHASH_ALL :: int where "SIGHASH_ALL \<equiv> 1"
abbreviation (input) SIGHASH_NONE :: int where "SIGHASH_NONE \<equiv> 2"
abbreviation (input) SIGHASH_SINGLE :: int where "SIGHASH_SINGLE \<equiv> 3"
abbreviation (input) SIGHASH_ANYONECANPAY :: int where "SIGHASH_ANYONECANPAY \<equiv> 0x80"

abbreviation (input) SCRIPT_VERIFY_P2SH :: u32 where "SCRIPT_VERIFY_P2SH \<equiv> 0x1"
abbreviation (input) SCRIPT_VERIFY_STRICTENC :: u32 where "SCRIPT_VERIFY_STRICTENC \<equiv> 0x2"
abbreviation (input) SCRIPT_VERIFY_DERSIG :: u32 where "SCRIPT_VERIFY_DERSIG \<equiv> 0x4"
abbreviation (input) SCRIPT_VERIFY_LOW_S :: u32 where "SCRIPT_VERIFY_LOW_S \<equiv> 0x8"
abbreviation (input) SCRIPT_VERIFY_NULLDUMMY :: u32 where "SCRIPT_VERIFY_NULLDUMMY \<equiv> 0x10"
abbreviation (input) SCRIPT_VERIFY_SIGPUSHONLY :: u32 where "SCRIPT_VERIFY_SIGPUSHONLY \<equiv> 0x20"
abbreviation (input) SCRIPT_VERIFY_MINIMALDATA :: u32 where "SCRIPT_VERIFY_MINIMALDATA \<equiv> 0x40"
abbreviation (input) SCRIPT_VERIFY_DISCOURAGE_UPGRADABLE_NOPS :: u32 where "SCRIPT_VERIFY_DISCOURAGE_UPGRADABLE_NOPS \<equiv> 0x80"
abbreviation (input) SCRIPT_VERIFY_CLEANSTACK :: u32 where "SCRIPT_VERIFY_CLEANSTACK \<equiv> 0x100"
abbreviation (input) SCRIPT_VERIFY_CHECKLOCKTIMEVERIFY :: u32 where "SCRIPT_VERIFY_CHECKLOCKTIMEVERIFY \<equiv> 0x200"
abbreviation (input) SCRIPT_VERIFY_CHECKSEQUENCEVERIFY :: u32 where "SCRIPT_VERIFY_CHECKSEQUENCEVERIFY \<equiv> 0x400"
abbreviation (input) SCRIPT_VERIFY_WITNESS :: u32 where "SCRIPT_VERIFY_WITNESS \<equiv> 0x800"
abbreviation (input) SCRIPT_VERIFY_DISCOURAGE_UPGRADABLE_WITNESS_PROGRAM :: u32 where
  "SCRIPT_VERIFY_DISCOURAGE_UPGRADABLE_WITNESS_PROGRAM \<equiv> 0x1000"
abbreviation (input) SCRIPT_VERIFY_MINIMALIF :: u32 where "SCRIPT_VERIFY_MINIMALIF \<equiv> 0x2000"
abbreviation (input) SCRIPT_VERIFY_NULLFAIL :: u32 where "SCRIPT_VERIFY_NULLFAIL \<equiv> 0x4000"
abbreviation (input) SCRIPT_VERIFY_WITNESS_PUBKEYTYPE :: u32 where "SCRIPT_VERIFY_WITNESS_PUBKEYTYPE \<equiv> 0x8000"
abbreviation (input) SCRIPT_VERIFY_CONST_SCRIPTCODE :: u32 where "SCRIPT_VERIFY_CONST_SCRIPTCODE \<equiv> 0x10000"
abbreviation (input) SCRIPT_OUTPUT_SENDER :: u32 where "SCRIPT_OUTPUT_SENDER \<equiv> 0x20000000"

abbreviation (input) on :: "u32 \<Rightarrow> u32 \<Rightarrow> bool" where "on flags f \<equiv> flags AND f \<noteq> 0"

text \<open>
  A signature checker: the virtual functions of \<open>BaseSignatureChecker\<close>.  \<open>None\<close> is a failed assertion
  or an access out of range in the checker.
\<close>

record signature_checker =
  CheckSig :: "valtype \<Rightarrow> valtype \<Rightarrow> CScript \<Rightarrow> SigVersion \<Rightarrow> bool option"
  CheckLockTime :: "CScriptNum \<Rightarrow> bool option"
  CheckSequence :: "CScriptNum \<Rightarrow> bool option"

definition BaseSignatureChecker :: signature_checker where
  "BaseSignatureChecker =
     \<lparr>CheckSig = \<lambda>sig key code v. Some False, CheckLockTime = \<lambda>n. Some False, CheckSequence = \<lambda>n. Some False\<rparr>"

section \<open>Encodings of keys and signatures\<close>

primrec CastToBool :: "valtype \<Rightarrow> bool" where
  "CastToBool [] = False"
| "CastToBool (b # vch) = (if b \<noteq> 0 then \<not> (vch = [] \<and> b = 0x80) else CastToBool vch)"

definition IsCompressedOrUncompressedPubKey :: "valtype \<Rightarrow> bool" where
  "IsCompressedOrUncompressedPubKey vchPubKey =
     (if length vchPubKey < 33 then False
      else if vchPubKey ! 0 = 0x04 then length vchPubKey = 65
      else if vchPubKey ! 0 = 0x02 \<or> vchPubKey ! 0 = 0x03 then length vchPubKey = 33
      else False)"

definition IsCompressedPubKey :: "valtype \<Rightarrow> bool" where
  "IsCompressedPubKey vchPubKey =
     (if length vchPubKey \<noteq> 33 then False
      else if vchPubKey ! 0 \<noteq> 0x02 \<and> vchPubKey ! 0 \<noteq> 0x03 then False
      else True)"

definition IsValidSignatureEncoding :: "valtype \<Rightarrow> bool \<Rightarrow> bool" where
  "IsValidSignatureEncoding sig haveHashType =
     (if length sig < 9 then False
      else if length sig > 73 then False
      else if sig ! 0 \<noteq> 0x30 then False
      else if unat (sig ! 1) \<noteq> length sig - (if haveHashType then 3 else 2) then False
      else
        (let lenR = unat (sig ! 3)
         in if 5 + lenR \<ge> length sig then False
            else
              (let lenS = unat (sig ! (5 + lenR))
               in if lenR + lenS + (if haveHashType then 7 else 6) \<noteq> length sig then False
                  else if sig ! 2 \<noteq> 0x02 then False
                  else if lenR = 0 then False
                  else if sig ! 4 AND 0x80 \<noteq> 0 then False
                  else if lenR > 1 \<and> sig ! 4 = 0x00 \<and> sig ! 5 AND 0x80 = 0 then False
                  else if sig ! (lenR + 4) \<noteq> 0x02 then False
                  else if lenS = 0 then False
                  else if sig ! (lenR + 6) AND 0x80 \<noteq> 0 then False
                  else if lenS > 1 \<and> sig ! (lenR + 6) = 0x00 \<and> sig ! (lenR + 7) AND 0x80 = 0 then False
                  else True)))"

definition IsLowDERSignature :: "(bytes \<Rightarrow> bool) \<Rightarrow> valtype \<Rightarrow> bool \<Rightarrow> unit run" where
  "IsLowDERSignature CheckLowS vchSig haveHashType =
     (if \<not> IsValidSignatureEncoding vchSig haveHashType then Inl (Err SCRIPT_ERR_SIG_DER)
      else if \<not> CheckLowS (take (length vchSig - (if haveHashType then 1 else 0)) vchSig) then Inl (Err SCRIPT_ERR_SIG_HIGH_S)
      else Inr ())"

definition IsDERSignature :: "valtype \<Rightarrow> bool \<Rightarrow> unit run" where
  "IsDERSignature vchSig haveHashType =
     (if \<not> IsValidSignatureEncoding vchSig haveHashType then Inl (Err SCRIPT_ERR_SIG_DER) else Inr ())"

definition IsDefinedHashtypeSignature :: "valtype \<Rightarrow> bool" where
  "IsDefinedHashtypeSignature vchSig =
     (if vchSig = [] then False
      else
        (let nHashType = last vchSig AND NOT 0x80
         in if nHashType < 1 \<or> nHashType > 3 then False else True))"

definition CheckSignatureEncoding :: "(bytes \<Rightarrow> bool) \<Rightarrow> valtype \<Rightarrow> u32 \<Rightarrow> unit run" where
  "CheckSignatureEncoding CheckLowS vchSig flags =
     (if vchSig = [] then Inr ()
      else if on flags (SCRIPT_VERIFY_DERSIG OR SCRIPT_VERIFY_LOW_S OR SCRIPT_VERIFY_STRICTENC) \<and> \<not> IsValidSignatureEncoding vchSig True
        then Inl (Err SCRIPT_ERR_SIG_DER)
      else
        (case (if on flags SCRIPT_VERIFY_LOW_S then IsLowDERSignature CheckLowS vchSig True else Inr ()) of
           Inl e \<Rightarrow> Inl e
         | Inr _ \<Rightarrow>
             if on flags SCRIPT_VERIFY_STRICTENC \<and> \<not> IsDefinedHashtypeSignature vchSig then Inl (Err SCRIPT_ERR_SIG_HASHTYPE)
             else Inr ()))"

definition CheckPubKeyEncoding :: "valtype \<Rightarrow> u32 \<Rightarrow> SigVersion \<Rightarrow> unit run" where
  "CheckPubKeyEncoding vchPubKey flags sigversion =
     (if on flags SCRIPT_VERIFY_STRICTENC \<and> \<not> IsCompressedOrUncompressedPubKey vchPubKey then Inl (Err SCRIPT_ERR_PUBKEYTYPE)
      else if on flags SCRIPT_VERIFY_WITNESS_PUBKEYTYPE \<and> sigversion = WITNESS_V0 \<and> \<not> IsCompressedPubKey vchPubKey
        then Inl (Err SCRIPT_ERR_WITNESS_PUBKEYTYPE)
      else Inr ())"

definition CheckMinimalPush :: "valtype \<Rightarrow> opcodetype \<Rightarrow> bool run" where
  "CheckMinimalPush data opcode =
     (if \<not> opcode \<le> OP_PUSHDATA4 then Inl Abort
      else if length data = 0 then Inr (opcode = OP_0)
      else if length data = 1 \<and> data ! 0 \<ge> 1 \<and> data ! 0 \<le> 16 then Inr False
      else if length data = 1 \<and> data ! 0 = 0x81 then Inr False
      else if length data \<le> 75 then Inr (unat opcode = length data)
      else if length data \<le> 255 then Inr (opcode = OP_PUSHDATA1)
      else if length data \<le> 65535 then Inr (opcode = OP_PUSHDATA2)
      else Inr True)"

text \<open>
  \<open>FindAndDelete\<close>: occurrences of \<open>b\<close> at instruction boundaries are dropped.  The loops work on the
  rest of the script; \<open>strip_prefixes\<close> is the inner one.
\<close>

function strip_prefixes :: "CScript \<Rightarrow> CScript \<Rightarrow> nat \<times> CScript" where
  "strip_prefixes b pc =
     (if b \<noteq> [] \<and> length pc \<ge> length b \<and> take (length b) pc = b
      then (let (n, rest) = strip_prefixes b (drop (length b) pc) in (n + 1, rest))
      else (0, pc))"
  by pat_completeness auto
termination by (relation "measure (\<lambda>(b, pc). length pc)") (auto simp flip: length_greater_0_conv)

declare strip_prefixes.simps [simp del]

lemma strip_prefixes_le: "strip_prefixes b pc = (n, rest) \<Longrightarrow> length rest \<le> length pc"
proof (induction b pc arbitrary: n rest rule: strip_prefixes.induct)
  case (1 b pc)
  show ?case using 1(2) "1.IH" by (subst (asm) strip_prefixes.simps) (fastforce split: if_splits prod.splits)
qed

function find_and_delete_loop :: "CScript \<Rightarrow> CScript \<Rightarrow> nat \<times> CScript" where
  "find_and_delete_loop b pc =
     (case strip_prefixes b pc of (n, pc2) \<Rightarrow>
        (case GetScriptOp pc2 of None \<Rightarrow> (n, pc2)
         | Some (opcode, vch, pc3) \<Rightarrow>
             (let (m, result) = find_and_delete_loop b pc3
              in (n + m, take (length pc2 - length pc3) pc2 @ result))))"
  by pat_completeness auto
termination
proof (relation "measure (\<lambda>(b, pc). length pc)", goal_cases)
  case 2
  then show ?case by (metis (no_types, lifting) GetScriptOp_less strip_prefixes_le in_measure case_prod_conv order.strict_trans2)
qed simp

declare find_and_delete_loop.simps [simp del]

definition FindAndDelete :: "CScript \<Rightarrow> CScript \<Rightarrow> nat \<times> CScript" where
  "FindAndDelete scr b =
     (if b = [] then (0, scr)
      else (let (nFound, result) = find_and_delete_loop b scr in (nFound, if nFound > 0 then result else scr)))"

section \<open>The stack\<close>

definition stacktop :: "valtype list \<Rightarrow> nat \<Rightarrow> valtype run" where
  "stacktop st i = (if 1 \<le> i \<and> i \<le> length st then Inr (st ! (length st - i)) else Inl (Throw Vector_at))"

definition popstack :: "valtype list \<Rightarrow> valtype list run" where
  "popstack st = (if st = [] then Inl (Throw Popstack_empty) else Inr (butlast st))"

primrec popstacks :: "nat \<Rightarrow> valtype list \<Rightarrow> valtype list run" where
  "popstacks 0 st = Inr st"
| "popstacks (Suc n) st = ebind (popstack st) (popstacks n)"

definition swap_at :: "valtype list \<Rightarrow> nat \<Rightarrow> nat \<Rightarrow> valtype list run" where
  "swap_at st i j =
     ebind (stacktop st i) (\<lambda>a. ebind (stacktop st j) (\<lambda>b. Inr (st[length st - i := b, length st - j := a])))"

text \<open>The iterators \<open>stack.end() - i\<close> of \<open>erase\<close> and \<open>insert\<close>; before the beginning they are undefined.\<close>

definition erase_at :: "valtype list \<Rightarrow> nat \<Rightarrow> nat \<Rightarrow> valtype list run" where
  "erase_at st i j =
     (if j \<le> i \<and> i \<le> length st then Inr (take (length st - i) st @ drop (length st - j) st) else Inl Abort)"

definition insert_at :: "valtype list \<Rightarrow> nat \<Rightarrow> valtype \<Rightarrow> valtype list run" where
  "insert_at st i v =
     (if i \<le> length st then Inr (take (length st - i) st @ v # drop (length st - i) st) else Inl Abort)"

definition need :: "nat \<Rightarrow> valtype list \<Rightarrow> unit run" where
  "need n st = (if length st < n then Inl (Err SCRIPT_ERR_INVALID_STACK_OPERATION) else Inr ())"

definition script_num :: "valtype \<Rightarrow> bool \<Rightarrow> nat \<Rightarrow> CScriptNum run" where
  "script_num vch fRequireMinimal nMaxNumSize =
     (case CScriptNum_vch vch fRequireMinimal nMaxNumSize of Inl e \<Rightarrow> Inl (Throw (Scriptnum_error e)) | Inr n \<Rightarrow> Inr n)"

definition asserted :: "'a option \<Rightarrow> 'a run" where
  "asserted x = (case x of None \<Rightarrow> Inl Abort | Some a \<Rightarrow> Inr a)"

text \<open>Addition and subtraction of script numbers: signed overflow is undefined.\<close>

definition in_int64 :: "int \<Rightarrow> CScriptNum run" where
  "in_int64 v = (if INT64_MIN \<le> v \<and> v \<le> INT64_MAX then Inr v else Inl Abort)"

definition vchFalse :: valtype where "vchFalse = []"
definition vchTrue :: valtype where "vchTrue = [1]"

abbreviation (input) bool_vch :: "bool \<Rightarrow> valtype" where "bool_vch b \<equiv> (if b then vchTrue else vchFalse)"

section \<open>The operations\<close>

record eval_state =
  stack :: "valtype list"
  altstack :: "valtype list"
  vfExec :: "bool list"
  nOpCount :: int
  pbegincodehash :: CScript

definition push :: "valtype \<Rightarrow> eval_state \<Rightarrow> eval_state" where
  "push v s = s\<lparr>stack := stack s @ [v]\<rparr>"

abbreviation (input) fRequireMinimal :: "u32 \<Rightarrow> bool" where "fRequireMinimal flags \<equiv> on flags SCRIPT_VERIFY_MINIMALDATA"

abbreviation (input) nDefaultMaxNumSize :: nat where "nDefaultMaxNumSize \<equiv> 4"

definition num_at :: "u32 \<Rightarrow> nat \<Rightarrow> valtype list \<Rightarrow> nat \<Rightarrow> CScriptNum run" where
  "num_at flags nMaxNumSize st i = ebind (stacktop st i) (\<lambda>v. script_num v (fRequireMinimal flags) nMaxNumSize)"

subsection \<open>Control\<close>

definition op_checklocktime :: "u32 \<Rightarrow> signature_checker \<Rightarrow> eval_state \<Rightarrow> eval_state run" where
  "op_checklocktime flags checker s =
     (if \<not> on flags SCRIPT_VERIFY_CHECKLOCKTIMEVERIFY then Inr s
      else
        ebind (need 1 (stack s)) (\<lambda>_.
        ebind (num_at flags 5 (stack s) 1) (\<lambda>nLockTime.
        if nLockTime < 0 then Inl (Err SCRIPT_ERR_NEGATIVE_LOCKTIME)
        else ebind (asserted (CheckLockTime checker nLockTime)) (\<lambda>ok.
          if \<not> ok then Inl (Err SCRIPT_ERR_UNSATISFIED_LOCKTIME) else Inr s))))"

definition op_checksequence :: "u32 \<Rightarrow> signature_checker \<Rightarrow> eval_state \<Rightarrow> eval_state run" where
  "op_checksequence flags checker s =
     (if \<not> on flags SCRIPT_VERIFY_CHECKSEQUENCEVERIFY then Inr s
      else
        ebind (need 1 (stack s)) (\<lambda>_.
        ebind (num_at flags 5 (stack s) 1) (\<lambda>n.
        if n < 0 then Inl (Err SCRIPT_ERR_NEGATIVE_LOCKTIME)
        else if n AND uint SEQUENCE_LOCKTIME_DISABLE_FLAG \<noteq> 0 then Inr s
        else ebind (asserted (CheckSequence checker n)) (\<lambda>ok.
          if \<not> ok then Inl (Err SCRIPT_ERR_UNSATISFIED_LOCKTIME) else Inr s))))"

definition op_if :: "u32 \<Rightarrow> SigVersion \<Rightarrow> opcodetype \<Rightarrow> bool \<Rightarrow> eval_state \<Rightarrow> eval_state run" where
  "op_if flags sigversion opcode fExec s =
     (if \<not> fExec then Inr (s\<lparr>vfExec := vfExec s @ [False]\<rparr>)
      else if length (stack s) < 1 then Inl (Err SCRIPT_ERR_UNBALANCED_CONDITIONAL)
      else
        ebind (stacktop (stack s) 1) (\<lambda>vch.
        if sigversion = WITNESS_V0 \<and> on flags SCRIPT_VERIFY_MINIMALIF \<and> length vch > 1 then Inl (Err SCRIPT_ERR_MINIMALIF)
        else if sigversion = WITNESS_V0 \<and> on flags SCRIPT_VERIFY_MINIMALIF \<and> length vch = 1 \<and> vch ! 0 \<noteq> 1 then Inl (Err SCRIPT_ERR_MINIMALIF)
        else
          (let fValue = CastToBool vch;
               fValue = (if opcode = OP_NOTIF then \<not> fValue else fValue)
           in ebind (popstack (stack s)) (\<lambda>st. Inr (s\<lparr>stack := st, vfExec := vfExec s @ [fValue]\<rparr>)))))"

definition op_else :: "eval_state \<Rightarrow> eval_state run" where
  "op_else s =
     (if vfExec s = [] then Inl (Err SCRIPT_ERR_UNBALANCED_CONDITIONAL)
      else Inr (s\<lparr>vfExec := butlast (vfExec s) @ [\<not> last (vfExec s)]\<rparr>))"

definition op_endif :: "eval_state \<Rightarrow> eval_state run" where
  "op_endif s =
     (if vfExec s = [] then Inl (Err SCRIPT_ERR_UNBALANCED_CONDITIONAL)
      else Inr (s\<lparr>vfExec := butlast (vfExec s)\<rparr>))"

definition op_verify :: "eval_state \<Rightarrow> eval_state run" where
  "op_verify s =
     ebind (need 1 (stack s)) (\<lambda>_.
     ebind (stacktop (stack s) 1) (\<lambda>v.
     if CastToBool v then ebind (popstack (stack s)) (\<lambda>st. Inr (s\<lparr>stack := st\<rparr>))
     else Inl (Err SCRIPT_ERR_VERIFY)))"

subsection \<open>Stack operations\<close>

definition op_toaltstack :: "eval_state \<Rightarrow> eval_state run" where
  "op_toaltstack s =
     ebind (need 1 (stack s)) (\<lambda>_.
     ebind (stacktop (stack s) 1) (\<lambda>v.
     ebind (popstack (stack s)) (\<lambda>st. Inr (s\<lparr>stack := st, altstack := altstack s @ [v]\<rparr>))))"

definition op_fromaltstack :: "eval_state \<Rightarrow> eval_state run" where
  "op_fromaltstack s =
     (if length (altstack s) < 1 then Inl (Err SCRIPT_ERR_INVALID_ALTSTACK_OPERATION)
      else
        ebind (stacktop (altstack s) 1) (\<lambda>v.
        ebind (popstack (altstack s)) (\<lambda>st. Inr (s\<lparr>stack := stack s @ [v], altstack := st\<rparr>))))"

text \<open>The operations on the main stack alone.\<close>

definition op_2drop :: "valtype list \<Rightarrow> valtype list run" where
  "op_2drop st = ebind (need 2 st) (\<lambda>_. popstacks 2 st)"

definition op_2dup :: "valtype list \<Rightarrow> valtype list run" where
  "op_2dup st =
     ebind (need 2 st) (\<lambda>_.
     ebind (stacktop st 2) (\<lambda>vch1. ebind (stacktop st 1) (\<lambda>vch2. Inr (st @ [vch1, vch2]))))"

definition op_3dup :: "valtype list \<Rightarrow> valtype list run" where
  "op_3dup st =
     ebind (need 3 st) (\<lambda>_.
     ebind (stacktop st 3) (\<lambda>vch1. ebind (stacktop st 2) (\<lambda>vch2. ebind (stacktop st 1) (\<lambda>vch3. Inr (st @ [vch1, vch2, vch3])))))"

definition op_2over :: "valtype list \<Rightarrow> valtype list run" where
  "op_2over st =
     ebind (need 4 st) (\<lambda>_.
     ebind (stacktop st 4) (\<lambda>vch1. ebind (stacktop st 3) (\<lambda>vch2. Inr (st @ [vch1, vch2]))))"

definition op_2rot :: "valtype list \<Rightarrow> valtype list run" where
  "op_2rot st =
     ebind (need 6 st) (\<lambda>_.
     ebind (stacktop st 6) (\<lambda>vch1. ebind (stacktop st 5) (\<lambda>vch2.
     ebind (erase_at st 6 4) (\<lambda>st. Inr (st @ [vch1, vch2])))))"

definition op_2swap :: "valtype list \<Rightarrow> valtype list run" where
  "op_2swap st =
     ebind (need 4 st) (\<lambda>_. ebind (swap_at st 4 2) (\<lambda>st. swap_at st 3 1))"

definition op_ifdup :: "valtype list \<Rightarrow> valtype list run" where
  "op_ifdup st =
     ebind (need 1 st) (\<lambda>_. ebind (stacktop st 1) (\<lambda>vch. Inr (if CastToBool vch then st @ [vch] else st)))"

definition op_depth :: "valtype list \<Rightarrow> valtype list run" where
  "op_depth st = Inr (st @ [CScriptNum_serialize (int (length st))])"

definition op_drop :: "valtype list \<Rightarrow> valtype list run" where
  "op_drop st = ebind (need 1 st) (\<lambda>_. popstack st)"

definition op_dup :: "valtype list \<Rightarrow> valtype list run" where
  "op_dup st = ebind (need 1 st) (\<lambda>_. ebind (stacktop st 1) (\<lambda>vch. Inr (st @ [vch])))"

definition op_nip :: "valtype list \<Rightarrow> valtype list run" where
  "op_nip st = ebind (need 2 st) (\<lambda>_. erase_at st 2 1)"

definition op_over :: "valtype list \<Rightarrow> valtype list run" where
  "op_over st = ebind (need 2 st) (\<lambda>_. ebind (stacktop st 2) (\<lambda>vch. Inr (st @ [vch])))"

definition op_pick_roll :: "u32 \<Rightarrow> opcodetype \<Rightarrow> valtype list \<Rightarrow> valtype list run" where
  "op_pick_roll flags opcode st =
     ebind (need 2 st) (\<lambda>_.
     ebind (num_at flags nDefaultMaxNumSize st 1) (\<lambda>num.
     let n = getint num in
     ebind (popstack st) (\<lambda>st.
     if n < 0 \<or> n \<ge> int (length st) then Inl (Err SCRIPT_ERR_INVALID_STACK_OPERATION)
     else
       ebind (stacktop st (nat n + 1)) (\<lambda>vch.
       ebind (if opcode = OP_ROLL then erase_at st (nat n + 1) (nat n) else Inr st) (\<lambda>st. Inr (st @ [vch]))))))"

definition op_rot :: "valtype list \<Rightarrow> valtype list run" where
  "op_rot st = ebind (need 3 st) (\<lambda>_. ebind (swap_at st 3 2) (\<lambda>st. swap_at st 2 1))"

definition op_swap :: "valtype list \<Rightarrow> valtype list run" where
  "op_swap st = ebind (need 2 st) (\<lambda>_. swap_at st 2 1)"

definition op_tuck :: "valtype list \<Rightarrow> valtype list run" where
  "op_tuck st = ebind (need 2 st) (\<lambda>_. ebind (stacktop st 1) (\<lambda>vch. insert_at st 2 vch))"

definition op_size :: "valtype list \<Rightarrow> valtype list run" where
  "op_size st =
     ebind (need 1 st) (\<lambda>_. ebind (stacktop st 1) (\<lambda>vch. Inr (st @ [CScriptNum_serialize (int (length vch))])))"

definition op_equal :: "opcodetype \<Rightarrow> valtype list \<Rightarrow> valtype list run" where
  "op_equal opcode st =
     ebind (need 2 st) (\<lambda>_.
     ebind (stacktop st 2) (\<lambda>vch1. ebind (stacktop st 1) (\<lambda>vch2.
     let fEqual = (vch1 = vch2) in
     ebind (popstacks 2 st) (\<lambda>st.
     let st = st @ [bool_vch fEqual] in
     if opcode = OP_EQUALVERIFY then (if fEqual then popstack st else Inl (Err SCRIPT_ERR_EQUALVERIFY))
     else Inr st))))"

subsection \<open>Numbers\<close>

definition unary_num :: "opcodetype \<Rightarrow> CScriptNum \<Rightarrow> CScriptNum run" where
  "unary_num opcode num =
     (if opcode = OP_1ADD then asserted (CScriptNum_add_eq num 1)
      else if opcode = OP_1SUB then asserted (CScriptNum_sub_eq num 1)
      else if opcode = OP_NEGATE then asserted (CScriptNum_neg num)
      else if opcode = OP_ABS then (if num < 0 then asserted (CScriptNum_neg num) else Inr num)
      else if opcode = OP_NOT then Inr (of_bool (num = 0))
      else if opcode = OP_0NOTEQUAL then Inr (of_bool (num \<noteq> 0))
      else Inl Abort)"

definition op_unary :: "u32 \<Rightarrow> opcodetype \<Rightarrow> valtype list \<Rightarrow> valtype list run" where
  "op_unary flags opcode st =
     ebind (need 1 st) (\<lambda>_.
     ebind (num_at flags nDefaultMaxNumSize st 1) (\<lambda>num.
     ebind (unary_num opcode num) (\<lambda>num.
     ebind (popstack st) (\<lambda>st. Inr (st @ [CScriptNum_serialize num])))))"

definition binary_num :: "opcodetype \<Rightarrow> CScriptNum \<Rightarrow> CScriptNum \<Rightarrow> CScriptNum run" where
  "binary_num opcode bn1 bn2 =
     (if opcode = OP_ADD then in_int64 (bn1 + bn2)
      else if opcode = OP_SUB then in_int64 (bn1 - bn2)
      else if opcode = OP_BOOLAND then Inr (of_bool (bn1 \<noteq> 0 \<and> bn2 \<noteq> 0))
      else if opcode = OP_BOOLOR then Inr (of_bool (bn1 \<noteq> 0 \<or> bn2 \<noteq> 0))
      else if opcode = OP_NUMEQUAL then Inr (of_bool (bn1 = bn2))
      else if opcode = OP_NUMEQUALVERIFY then Inr (of_bool (bn1 = bn2))
      else if opcode = OP_NUMNOTEQUAL then Inr (of_bool (bn1 \<noteq> bn2))
      else if opcode = OP_LESSTHAN then Inr (of_bool (bn1 < bn2))
      else if opcode = OP_GREATERTHAN then Inr (of_bool (bn1 > bn2))
      else if opcode = OP_LESSTHANOREQUAL then Inr (of_bool (bn1 \<le> bn2))
      else if opcode = OP_GREATERTHANOREQUAL then Inr (of_bool (bn1 \<ge> bn2))
      else if opcode = OP_MIN then Inr (if bn1 < bn2 then bn1 else bn2)
      else if opcode = OP_MAX then Inr (if bn1 > bn2 then bn1 else bn2)
      else Inl Abort)"

definition op_binary :: "u32 \<Rightarrow> opcodetype \<Rightarrow> valtype list \<Rightarrow> valtype list run" where
  "op_binary flags opcode st =
     ebind (need 2 st) (\<lambda>_.
     ebind (num_at flags nDefaultMaxNumSize st 2) (\<lambda>bn1.
     ebind (num_at flags nDefaultMaxNumSize st 1) (\<lambda>bn2.
     ebind (binary_num opcode bn1 bn2) (\<lambda>num.
     ebind (popstacks 2 st) (\<lambda>st.
     let st = st @ [CScriptNum_serialize num] in
     if opcode = OP_NUMEQUALVERIFY then
       ebind (stacktop st 1) (\<lambda>v. if CastToBool v then popstack st else Inl (Err SCRIPT_ERR_NUMEQUALVERIFY))
     else Inr st)))))"

definition op_within :: "u32 \<Rightarrow> valtype list \<Rightarrow> valtype list run" where
  "op_within flags st =
     ebind (need 3 st) (\<lambda>_.
     ebind (num_at flags nDefaultMaxNumSize st 3) (\<lambda>bn1.
     ebind (num_at flags nDefaultMaxNumSize st 2) (\<lambda>bn2.
     ebind (num_at flags nDefaultMaxNumSize st 1) (\<lambda>bn3.
     ebind (popstacks 3 st) (\<lambda>st. Inr (st @ [bool_vch (bn2 \<le> bn1 \<and> bn1 < bn3)]))))))"

subsection \<open>Hashes\<close>

definition hash_of :: "opcodetype \<Rightarrow> valtype \<Rightarrow> valtype" where
  "hash_of opcode vch =
     (if opcode = OP_RIPEMD160 then fst (CRIPEMD160_Finalize (CRIPEMD160_Write vch CRIPEMD160_new))
      else if opcode = OP_SHA1 then fst (CSHA1_Finalize (CSHA1_Write vch CSHA1_new))
      else if opcode = OP_SHA256 then fst (CSHA256_Finalize (CSHA256_Write vch CSHA256_new))
      else if opcode = OP_HASH160 then CHash160_Finalize (CSHA256_Write vch CSHA256_new)
      else CHash256_Finalize (CSHA256_Write vch CSHA256_new))"

definition op_hash :: "opcodetype \<Rightarrow> valtype list \<Rightarrow> valtype list run" where
  "op_hash opcode st =
     ebind (need 1 st) (\<lambda>_.
     ebind (stacktop st 1) (\<lambda>vch.
     ebind (popstack st) (\<lambda>st. Inr (st @ [hash_of opcode vch]))))"

subsection \<open>Signatures\<close>

text \<open>Dropping a signature from the script code before the digest is computed.\<close>

definition drop_signature :: "u32 \<Rightarrow> SigVersion \<Rightarrow> valtype \<Rightarrow> CScript \<Rightarrow> CScript run" where
  "drop_signature flags sigversion vchSig scriptCode =
     (if sigversion = BASE then
        (let (found, scriptCode) = FindAndDelete scriptCode (push_data vchSig)
         in if found > 0 \<and> on flags SCRIPT_VERIFY_CONST_SCRIPTCODE then Inl (Err SCRIPT_ERR_SIG_FINDANDDELETE)
            else Inr scriptCode)
      else Inr scriptCode)"

definition op_checksig :: "(bytes \<Rightarrow> bool) \<Rightarrow> u32 \<Rightarrow> signature_checker \<Rightarrow> SigVersion \<Rightarrow> opcodetype \<Rightarrow> eval_state \<Rightarrow> eval_state run" where
  "op_checksig CheckLowS flags checker sigversion opcode s =
     ebind (need 2 (stack s)) (\<lambda>_.
     ebind (stacktop (stack s) 2) (\<lambda>vchSig.
     ebind (stacktop (stack s) 1) (\<lambda>vchPubKey.
     ebind (drop_signature flags sigversion vchSig (pbegincodehash s)) (\<lambda>scriptCode.
     ebind (CheckSignatureEncoding CheckLowS vchSig flags) (\<lambda>_.
     ebind (CheckPubKeyEncoding vchPubKey flags sigversion) (\<lambda>_.
     ebind (asserted (CheckSig checker vchSig vchPubKey scriptCode sigversion)) (\<lambda>fSuccess.
     if \<not> fSuccess \<and> on flags SCRIPT_VERIFY_NULLFAIL \<and> length vchSig \<noteq> 0 then Inl (Err SCRIPT_ERR_SIG_NULLFAIL)
     else
       ebind (popstacks 2 (stack s)) (\<lambda>st.
       let st = st @ [bool_vch fSuccess] in
       if opcode = OP_CHECKSIGVERIFY then
         (if fSuccess then ebind (popstack st) (\<lambda>st. Inr (s\<lparr>stack := st\<rparr>)) else Inl (Err SCRIPT_ERR_CHECKSIGVERIFY))
       else Inr (s\<lparr>stack := st\<rparr>)))))))))"

text \<open>The loops of \<open>OP_CHECKMULTISIG\<close>: dropping the signatures, matching them with keys, cleaning up.\<close>

primrec drop_signatures :: "u32 \<Rightarrow> SigVersion \<Rightarrow> valtype list \<Rightarrow> nat \<Rightarrow> nat \<Rightarrow> CScript \<Rightarrow> CScript run" where
  "drop_signatures flags sigversion st i 0 scriptCode = Inr scriptCode"
| "drop_signatures flags sigversion st i (Suc n) scriptCode =
     ebind (stacktop st i) (\<lambda>vchSig.
     ebind (drop_signature flags sigversion vchSig scriptCode) (drop_signatures flags sigversion st (i + 1) n))"

function multisig_loop :: "(bytes \<Rightarrow> bool) \<Rightarrow> u32 \<Rightarrow> signature_checker \<Rightarrow> SigVersion \<Rightarrow> CScript \<Rightarrow> valtype list \<Rightarrow>
    nat \<Rightarrow> nat \<Rightarrow> int \<Rightarrow> int \<Rightarrow> bool run" where
  "multisig_loop CheckLowS flags checker sigversion scriptCode st isig ikey nSigsCount nKeysCount =
     (if nSigsCount > 0 then
        ebind (stacktop st isig) (\<lambda>vchSig.
        ebind (stacktop st ikey) (\<lambda>vchPubKey.
        ebind (CheckSignatureEncoding CheckLowS vchSig flags) (\<lambda>_.
        ebind (CheckPubKeyEncoding vchPubKey flags sigversion) (\<lambda>_.
        ebind (asserted (CheckSig checker vchSig vchPubKey scriptCode sigversion)) (\<lambda>fOk.
        let isig = (if fOk then isig + 1 else isig);
            nSigsCount = (if fOk then nSigsCount - 1 else nSigsCount)
        in if nSigsCount > nKeysCount - 1 then Inr False
           else multisig_loop CheckLowS flags checker sigversion scriptCode st isig (ikey + 1) nSigsCount (nKeysCount - 1))))))
      else Inr True)"
  by pat_completeness auto
termination by (relation "measure (\<lambda>(CheckLowS, flags, checker, sigversion, scriptCode, st, isig, ikey, nSigsCount, nKeysCount). nat nKeysCount)") (auto split: if_splits)

declare multisig_loop.simps [simp del]

primrec multisig_cleanup :: "u32 \<Rightarrow> bool \<Rightarrow> nat \<Rightarrow> int \<Rightarrow> valtype list \<Rightarrow> valtype list run" where
  "multisig_cleanup flags fSuccess 0 ikey2 st = Inr st"
| "multisig_cleanup flags fSuccess (Suc n) ikey2 st =
     ebind (if \<not> fSuccess \<and> on flags SCRIPT_VERIFY_NULLFAIL \<and> ikey2 = 0
            then ebind (stacktop st 1) (\<lambda>v. if length v \<noteq> 0 then Inl (Err SCRIPT_ERR_SIG_NULLFAIL) else Inr ())
            else Inr ()) (\<lambda>_.
     ebind (popstack st) (\<lambda>st. multisig_cleanup flags fSuccess n (if ikey2 > 0 then ikey2 - 1 else ikey2) st))"

definition op_checkmultisig :: "(bytes \<Rightarrow> bool) \<Rightarrow> u32 \<Rightarrow> signature_checker \<Rightarrow> SigVersion \<Rightarrow> opcodetype \<Rightarrow> eval_state \<Rightarrow> eval_state run" where
  "op_checkmultisig CheckLowS flags checker sigversion opcode s =
     ebind (need 1 (stack s)) (\<lambda>_.
     ebind (num_at flags nDefaultMaxNumSize (stack s) 1) (\<lambda>num.
     let nKeysCount = getint num in
     if nKeysCount < 0 \<or> nKeysCount > MAX_PUBKEYS_PER_MULTISIG then Inl (Err SCRIPT_ERR_PUBKEY_COUNT)
     else let s = s\<lparr>nOpCount := nOpCount s + nKeysCount\<rparr> in
     if nOpCount s > MAX_OPS_PER_SCRIPT then Inl (Err SCRIPT_ERR_OP_COUNT)
     else let ikey = 2; i = 2 + nat nKeysCount in
     ebind (need i (stack s)) (\<lambda>_.
     ebind (num_at flags nDefaultMaxNumSize (stack s) i) (\<lambda>num.
     let nSigsCount = getint num in
     if nSigsCount < 0 \<or> nSigsCount > nKeysCount then Inl (Err SCRIPT_ERR_SIG_COUNT)
     else let isig = i + 1; i = i + 1 + nat nSigsCount in
     ebind (need i (stack s)) (\<lambda>_.
     ebind (drop_signatures flags sigversion (stack s) isig (nat nSigsCount) (pbegincodehash s)) (\<lambda>scriptCode.
     ebind (multisig_loop CheckLowS flags checker sigversion scriptCode (stack s) isig ikey nSigsCount nKeysCount) (\<lambda>fSuccess.
     ebind (multisig_cleanup flags fSuccess (i - 1) (nKeysCount + 2) (stack s)) (\<lambda>st.
     ebind (need 1 st) (\<lambda>_.
     ebind (stacktop st 1) (\<lambda>dummy.
     if on flags SCRIPT_VERIFY_NULLDUMMY \<and> length dummy \<noteq> 0 then Inl (Err SCRIPT_ERR_SIG_NULLDUMMY)
     else
       ebind (popstack st) (\<lambda>st.
       let st = st @ [bool_vch fSuccess] in
       if opcode = OP_CHECKMULTISIGVERIFY then
         (if fSuccess then ebind (popstack st) (\<lambda>st. Inr (s\<lparr>stack := st\<rparr>)) else Inl (Err SCRIPT_ERR_CHECKMULTISIGVERIFY))
       else Inr (s\<lparr>stack := st\<rparr>))))))))))))"

section \<open>Evaluation\<close>

text \<open>
  The cases of the switch: those that change the main stack alone, and all of them.  \<open>pc\<close> is the script after
  the operation.  The flag of the result is set if the case returns true at once.
\<close>

definition stack_op :: "u32 \<Rightarrow> opcodetype \<Rightarrow> valtype list \<Rightarrow> valtype list run option" where
  "stack_op flags opcode st =
     (if opcode = OP_1NEGATE \<or> OP_1 \<le> opcode \<and> opcode \<le> OP_16
        then Some (Inr (st @ [CScriptNum_serialize (uint opcode - (uint OP_1 - 1))]))
      else if opcode = OP_2DROP then Some (op_2drop st)
      else if opcode = OP_2DUP then Some (op_2dup st)
      else if opcode = OP_3DUP then Some (op_3dup st)
      else if opcode = OP_2OVER then Some (op_2over st)
      else if opcode = OP_2ROT then Some (op_2rot st)
      else if opcode = OP_2SWAP then Some (op_2swap st)
      else if opcode = OP_IFDUP then Some (op_ifdup st)
      else if opcode = OP_DEPTH then Some (op_depth st)
      else if opcode = OP_DROP then Some (op_drop st)
      else if opcode = OP_DUP then Some (op_dup st)
      else if opcode = OP_NIP then Some (op_nip st)
      else if opcode = OP_OVER then Some (op_over st)
      else if opcode = OP_PICK \<or> opcode = OP_ROLL then Some (op_pick_roll flags opcode st)
      else if opcode = OP_ROT then Some (op_rot st)
      else if opcode = OP_SWAP then Some (op_swap st)
      else if opcode = OP_TUCK then Some (op_tuck st)
      else if opcode = OP_SIZE then Some (op_size st)
      else if opcode = OP_EQUAL \<or> opcode = OP_EQUALVERIFY then Some (op_equal opcode st)
      else if opcode = OP_1ADD \<or> opcode = OP_1SUB \<or> opcode = OP_NEGATE \<or> opcode = OP_ABS \<or> opcode = OP_NOT \<or> opcode = OP_0NOTEQUAL
        then Some (op_unary flags opcode st)
      else if opcode = OP_ADD \<or> opcode = OP_SUB \<or> opcode = OP_BOOLAND \<or> opcode = OP_BOOLOR \<or> opcode = OP_NUMEQUAL \<or>
              opcode = OP_NUMEQUALVERIFY \<or> opcode = OP_NUMNOTEQUAL \<or> opcode = OP_LESSTHAN \<or> opcode = OP_GREATERTHAN \<or>
              opcode = OP_LESSTHANOREQUAL \<or> opcode = OP_GREATERTHANOREQUAL \<or> opcode = OP_MIN \<or> opcode = OP_MAX
        then Some (op_binary flags opcode st)
      else if opcode = OP_WITHIN then Some (op_within flags st)
      else if opcode = OP_RIPEMD160 \<or> opcode = OP_SHA1 \<or> opcode = OP_SHA256 \<or> opcode = OP_HASH160 \<or> opcode = OP_HASH256
        then Some (op_hash opcode st)
      else None)"

definition state_op :: "(bytes \<Rightarrow> bool) \<Rightarrow> u32 \<Rightarrow> signature_checker \<Rightarrow> SigVersion \<Rightarrow> opcodetype \<Rightarrow> bool \<Rightarrow> CScript \<Rightarrow>
    eval_state \<Rightarrow> eval_state run" where
  "state_op CheckLowS flags checker sigversion opcode fExec pc s =
     (if opcode = OP_NOP then Inr s
      else if opcode = OP_CHECKLOCKTIMEVERIFY then op_checklocktime flags checker s
      else if opcode = OP_CHECKSEQUENCEVERIFY then op_checksequence flags checker s
      else if opcode = OP_NOP1 \<or> OP_NOP4 \<le> opcode \<and> opcode \<le> OP_NOP10 then
        (if on flags SCRIPT_VERIFY_DISCOURAGE_UPGRADABLE_NOPS then Inl (Err SCRIPT_ERR_DISCOURAGE_UPGRADABLE_NOPS) else Inr s)
      else if opcode = OP_IF \<or> opcode = OP_NOTIF then op_if flags sigversion opcode fExec s
      else if opcode = OP_ELSE then op_else s
      else if opcode = OP_ENDIF then op_endif s
      else if opcode = OP_VERIFY then op_verify s
      else if opcode = OP_RETURN then Inl (Err SCRIPT_ERR_OP_RETURN)
      else if opcode = OP_TOALTSTACK then op_toaltstack s
      else if opcode = OP_FROMALTSTACK then op_fromaltstack s
      else if opcode = OP_CODESEPARATOR then Inr (s\<lparr>pbegincodehash := pc\<rparr>)
      else if opcode = OP_CHECKSIG \<or> opcode = OP_CHECKSIGVERIFY then op_checksig CheckLowS flags checker sigversion opcode s
      else if opcode = OP_CHECKMULTISIG \<or> opcode = OP_CHECKMULTISIGVERIFY then op_checkmultisig CheckLowS flags checker sigversion opcode s
      else if opcode = OP_SENDER then
        (if \<not> on flags SCRIPT_OUTPUT_SENDER then Inl (Err SCRIPT_ERR_BAD_OPCODE) else Inr s)
      else Inl (Err SCRIPT_ERR_BAD_OPCODE))"

definition exec_opcode :: "(bytes \<Rightarrow> bool) \<Rightarrow> u32 \<Rightarrow> signature_checker \<Rightarrow> SigVersion \<Rightarrow> opcodetype \<Rightarrow> bool \<Rightarrow> CScript \<Rightarrow>
    eval_state \<Rightarrow> (bool \<times> eval_state) run" where
  "exec_opcode CheckLowS flags checker sigversion opcode fExec pc s =
     (case stack_op flags opcode (stack s) of
        Some r \<Rightarrow> ebind r (\<lambda>st. Inr (False, s\<lparr>stack := st\<rparr>))
      | None \<Rightarrow>
          if opcode = OP_SPEND then Inr (True, s)
          else if opcode = OP_CREATE \<or> opcode = OP_CALL then Inr (True, push (opcode # pc) s)
          else ebind (state_op CheckLowS flags checker sigversion opcode fExec pc s) (\<lambda>s. Inr (False, s)))"

text \<open>A push, an operation, or nothing in a branch that is not executed.\<close>

definition push_or_exec :: "(bytes \<Rightarrow> bool) \<Rightarrow> u32 \<Rightarrow> signature_checker \<Rightarrow> SigVersion \<Rightarrow> opcodetype \<Rightarrow> valtype \<Rightarrow> CScript \<Rightarrow>
    eval_state \<Rightarrow> (bool \<times> eval_state) run" where
  "push_or_exec CheckLowS flags checker sigversion opcode vchPushValue pc s =
     (let fExec = (\<not> list_ex Not (vfExec s)) in
      if fExec \<and> opcode \<le> OP_PUSHDATA4 then
        ebind (if fRequireMinimal flags then CheckMinimalPush vchPushValue opcode else Inr True) (\<lambda>minimal.
        if \<not> minimal then Inl (Err SCRIPT_ERR_MINIMALDATA) else Inr (False, push vchPushValue s))
      else if fExec \<or> OP_IF \<le> opcode \<and> opcode \<le> OP_ENDIF then exec_opcode CheckLowS flags checker sigversion opcode fExec pc s
      else Inr (False, s))"

definition disabled_opcode :: "opcodetype \<Rightarrow> bool" where
  "disabled_opcode opcode \<longleftrightarrow>
     opcode = OP_CAT \<or> opcode = OP_SUBSTR \<or> opcode = OP_LEFT \<or> opcode = OP_RIGHT \<or> opcode = OP_INVERT \<or> opcode = OP_AND \<or>
     opcode = OP_OR \<or> opcode = OP_XOR \<or> opcode = OP_2MUL \<or> opcode = OP_2DIV \<or> opcode = OP_MUL \<or> opcode = OP_DIV \<or>
     opcode = OP_MOD \<or> opcode = OP_LSHIFT \<or> opcode = OP_RSHIFT"

text \<open>One round of the loop, after the operation has been read.\<close>

definition eval_step :: "(bytes \<Rightarrow> bool) \<Rightarrow> u32 \<Rightarrow> signature_checker \<Rightarrow> SigVersion \<Rightarrow> opcodetype \<Rightarrow> valtype \<Rightarrow> CScript \<Rightarrow>
    eval_state \<Rightarrow> (bool \<times> eval_state) run" where
  "eval_step CheckLowS flags checker sigversion opcode vchPushValue pc s =
     (if length vchPushValue > MAX_SCRIPT_ELEMENT_SIZE then Inl (Err SCRIPT_ERR_PUSH_SIZE)
      else let s = (if opcode > OP_16 then s\<lparr>nOpCount := nOpCount s + 1\<rparr> else s) in
      if opcode > OP_16 \<and> nOpCount s > MAX_OPS_PER_SCRIPT then Inl (Err SCRIPT_ERR_OP_COUNT)
      else if disabled_opcode opcode then Inl (Err SCRIPT_ERR_DISABLED_OPCODE)
      else if opcode = OP_CODESEPARATOR \<and> sigversion = BASE \<and> on flags SCRIPT_VERIFY_CONST_SCRIPTCODE then Inl (Err SCRIPT_ERR_OP_CODESEPARATOR)
      else
        ebind (push_or_exec CheckLowS flags checker sigversion opcode vchPushValue pc s) (\<lambda>(return, s).
        if return then Inr (True, s)
        else if length (stack s) + length (altstack s) > MAX_STACK_SIZE then Inl (Err SCRIPT_ERR_STACK_SIZE)
        else Inr (False, s)))"

function eval_loop :: "(bytes \<Rightarrow> bool) \<Rightarrow> u32 \<Rightarrow> signature_checker \<Rightarrow> SigVersion \<Rightarrow> CScript \<Rightarrow> eval_state \<Rightarrow> (bool \<times> eval_state) run" where
  "eval_loop CheckLowS flags checker sigversion pc s =
     (if pc = [] then Inr (False, s)
      else (case GetScriptOp pc of None \<Rightarrow> Inl (Err SCRIPT_ERR_BAD_OPCODE)
        | Some (opcode, vchPushValue, pc') \<Rightarrow>
            (case eval_step CheckLowS flags checker sigversion opcode vchPushValue pc' s of Inl e \<Rightarrow> Inl e
             | Inr (return, s') \<Rightarrow> if return then Inr (True, s') else eval_loop CheckLowS flags checker sigversion pc' s')))"
  by pat_completeness auto
termination by (relation "measure (\<lambda>(CheckLowS, flags, checker, sigversion, pc, s). length pc)") (auto dest: GetScriptOp_less)

declare eval_loop.simps [simp del]

definition eval_start :: "valtype list \<Rightarrow> CScript \<Rightarrow> eval_state" where
  "eval_start st scr = \<lparr>stack = st, altstack = [], vfExec = [], nOpCount = 0, pbegincodehash = scr\<rparr>"

definition catch_all :: "'a run \<Rightarrow> 'a run" where
  "catch_all r = (case r of Inl (Throw e) \<Rightarrow> Inl (Err SCRIPT_ERR_UNKNOWN_ERROR) | _ \<Rightarrow> r)"

definition EvalScript :: "(bytes \<Rightarrow> bool) \<Rightarrow> valtype list \<Rightarrow> CScript \<Rightarrow> u32 \<Rightarrow> signature_checker \<Rightarrow> SigVersion \<Rightarrow> valtype list run" where
  "EvalScript CheckLowS st scr flags checker sigversion =
     (if length scr > MAX_SCRIPT_SIZE then Inl (Err SCRIPT_ERR_SCRIPT_SIZE)
      else
        ebind (catch_all (eval_loop CheckLowS flags checker sigversion scr (eval_start st scr))) (\<lambda>(return, s).
        if return then Inr (stack s)
        else if vfExec s \<noteq> [] then Inl (Err SCRIPT_ERR_UNBALANCED_CONDITIONAL)
        else Inr (stack s)))"

section \<open>Verification\<close>

definition VerifyWitnessProgram :: "(bytes \<Rightarrow> bool) \<Rightarrow> CScriptWitness \<Rightarrow> int \<Rightarrow> bytes \<Rightarrow> u32 \<Rightarrow> signature_checker \<Rightarrow> unit run" where
  "VerifyWitnessProgram CheckLowS witness witversion program flags checker =
     (if witversion = 0 then
        ebind (if length program = 32 then
                 (if length witness = 0 then Inl (Err SCRIPT_ERR_WITNESS_PROGRAM_WITNESS_EMPTY)
                  else if fst (CSHA256_Finalize (CSHA256_Write (last witness) CSHA256_new)) \<noteq> program
                    then Inl (Err SCRIPT_ERR_WITNESS_PROGRAM_MISMATCH)
                  else Inr (last witness, butlast witness))
               else if length program = 20 then
                 (if length witness \<noteq> 2 then Inl (Err SCRIPT_ERR_WITNESS_PROGRAM_MISMATCH)
                  else Inr ([OP_DUP] @ [OP_HASH160] @ push_data program @ [OP_EQUALVERIFY] @ [OP_CHECKSIG], witness))
               else Inl (Err SCRIPT_ERR_WITNESS_PROGRAM_WRONG_LENGTH)) (\<lambda>(scriptPubKey, st).
        if list_ex (\<lambda>v. length v > MAX_SCRIPT_ELEMENT_SIZE) st then Inl (Err SCRIPT_ERR_PUSH_SIZE)
        else
          ebind (EvalScript CheckLowS st scriptPubKey flags checker WITNESS_V0) (\<lambda>st.
          if length st \<noteq> 1 then Inl (Err SCRIPT_ERR_CLEANSTACK)
          else if \<not> CastToBool (last st) then Inl (Err SCRIPT_ERR_EVAL_FALSE)
          else Inr ()))
      else if on flags SCRIPT_VERIFY_DISCOURAGE_UPGRADABLE_WITNESS_PROGRAM then Inl (Err SCRIPT_ERR_DISCOURAGE_UPGRADABLE_WITNESS_PROGRAM)
      else Inr ())"

text \<open>The evaluation of one script of \<open>VerifyScript\<close> that must leave a true value.\<close>

definition eval_true :: "(bytes \<Rightarrow> bool) \<Rightarrow> valtype list \<Rightarrow> CScript \<Rightarrow> u32 \<Rightarrow> signature_checker \<Rightarrow> valtype list run" where
  "eval_true CheckLowS st scr flags checker =
     ebind (EvalScript CheckLowS st scr flags checker BASE) (\<lambda>st.
     if st = [] then Inl (Err SCRIPT_ERR_EVAL_FALSE)
     else if \<not> CastToBool (last st) then Inl (Err SCRIPT_ERR_EVAL_FALSE)
     else Inr st)"

text \<open>A witness program, bare or in a script hash: the stack it leaves and whether there was one.\<close>

definition witness_part :: "(bytes \<Rightarrow> bool) \<Rightarrow> bool \<Rightarrow> ScriptError \<Rightarrow> CScript \<Rightarrow> CScriptWitness \<Rightarrow> u32 \<Rightarrow> signature_checker \<Rightarrow> valtype list \<Rightarrow>
    (bool \<times> valtype list) run" where
  "witness_part CheckLowS exact malleated scr witness flags checker st =
     (if on flags SCRIPT_VERIFY_WITNESS then
        (case IsWitnessProgram scr of None \<Rightarrow> Inr (False, st)
         | Some (version, program) \<Rightarrow>
             if \<not> exact then Inl (Err malleated)
             else ebind (VerifyWitnessProgram CheckLowS witness version program flags checker) (\<lambda>_. Inr (True, take 1 st)))
      else Inr (False, st))"

definition p2sh_part :: "(bytes \<Rightarrow> bool) \<Rightarrow> CScript \<Rightarrow> CScriptWitness \<Rightarrow> u32 \<Rightarrow> signature_checker \<Rightarrow> valtype list \<Rightarrow> (bool \<times> valtype list) run" where
  "p2sh_part CheckLowS sig witness flags checker stackCopy =
     (if \<not> IsPushOnly sig then Inl (Err SCRIPT_ERR_SIG_PUSHONLY)
      else if stackCopy = [] then Inl Abort
      else
        (let pubKey2 = last stackCopy
         in ebind (popstack stackCopy) (\<lambda>st.
            ebind (eval_true CheckLowS st pubKey2 flags checker) (\<lambda>st.
            witness_part CheckLowS (sig = push_data pubKey2) SCRIPT_ERR_WITNESS_MALLEATED_P2SH pubKey2 witness flags checker st))))"

definition VerifyScript :: "(bytes \<Rightarrow> bool) \<Rightarrow> CScript \<Rightarrow> CScript \<Rightarrow> CScriptWitness \<Rightarrow> u32 \<Rightarrow> signature_checker \<Rightarrow> unit run" where
  "VerifyScript CheckLowS sig spk witness flags checker =
     (if on flags SCRIPT_VERIFY_SIGPUSHONLY \<and> \<not> IsPushOnly sig then Inl (Err SCRIPT_ERR_SIG_PUSHONLY)
      else
        ebind (EvalScript CheckLowS [] sig flags checker BASE) (\<lambda>stackCopy.
        ebind (eval_true CheckLowS stackCopy spk flags checker) (\<lambda>st.
        ebind (witness_part CheckLowS (length sig = 0) SCRIPT_ERR_WITNESS_MALLEATED spk witness flags checker st) (\<lambda>(hadWitness, st).
        ebind (if on flags SCRIPT_VERIFY_P2SH \<and> IsPayToScriptHash spk
               then ebind (p2sh_part CheckLowS sig witness flags checker stackCopy) (\<lambda>(had, st). Inr (hadWitness \<or> had, st))
               else Inr (hadWitness, st)) (\<lambda>(hadWitness, st).
        if on flags SCRIPT_VERIFY_CLEANSTACK \<and> (\<not> on flags SCRIPT_VERIFY_P2SH \<or> \<not> on flags SCRIPT_VERIFY_WITNESS) then Inl Abort
        else if on flags SCRIPT_VERIFY_CLEANSTACK \<and> length st \<noteq> 1 then Inl (Err SCRIPT_ERR_CLEANSTACK)
        else if on flags SCRIPT_VERIFY_WITNESS \<and> \<not> on flags SCRIPT_VERIFY_P2SH then Inl Abort
        else if on flags SCRIPT_VERIFY_WITNESS \<and> \<not> hadWitness \<and> witness \<noteq> [] then Inl (Err SCRIPT_ERR_WITNESS_UNEXPECTED)
        else Inr ())))))"

section \<open>Signature operations of witnesses\<close>

definition WitnessSigOps :: "int \<Rightarrow> bytes \<Rightarrow> CScriptWitness \<Rightarrow> u32" where
  "WitnessSigOps witversion witprogram witness =
     (if witversion = 0 \<and> length witprogram = 20 then 1
      else if witversion = 0 \<and> length witprogram = 32 \<and> length witness > 0 then GetSigOpCount (last witness) True
      else 0)"

text \<open>The data of the last push; \<open>None\<close> if the loop does not advance.\<close>

function last_data :: "CScript \<Rightarrow> bytes \<Rightarrow> bytes option" where
  "last_data pc data =
     (if pc = [] then Some data
      else (case GetScriptOp pc of None \<Rightarrow> None | Some (opcode, data, pc) \<Rightarrow> last_data pc data))"
  by pat_completeness auto
termination by (relation "measure (length \<circ> fst)") (auto dest: GetScriptOp_less)

declare last_data.simps [simp del]

definition CountWitnessSigOps :: "CScript \<Rightarrow> CScript \<Rightarrow> CScriptWitness \<Rightarrow> u32 \<Rightarrow> u32 option" where
  "CountWitnessSigOps sig spk witness flags =
     (if \<not> on flags SCRIPT_VERIFY_WITNESS then Some 0
      else if \<not> on flags SCRIPT_VERIFY_P2SH then None
      else (case IsWitnessProgram spk of Some (version, program) \<Rightarrow> Some (WitnessSigOps version program witness)
        | None \<Rightarrow>
            if IsPayToScriptHash spk \<and> IsPushOnly sig then
              (case last_data sig [] of None \<Rightarrow> None
               | Some data \<Rightarrow>
                   (case IsWitnessProgram data of Some (version, program) \<Rightarrow> Some (WitnessSigOps version program witness)
                    | None \<Rightarrow> Some 0))
            else Some 0))"

section \<open>Weakest preconditions\<close>

text \<open>
  \<open>wp r P\<close>: the run has no fault, that is no failed assertion, no access outside a vector and no pop of an
  empty stack, and a normal result satisfies \<open>P\<close>.
\<close>

named_theorems wp_simps \<open>weakest preconditions of the primitive operations\<close>

definition faulty :: "stop \<Rightarrow> bool" where
  "faulty e \<longleftrightarrow> e = Abort \<or> e = Throw Vector_at \<or> e = Throw Popstack_empty"

definition wp :: "'a run \<Rightarrow> ('a \<Rightarrow> bool) \<Rightarrow> bool" where
  "wp r P = (case r of Inl e \<Rightarrow> \<not> faulty e | Inr a \<Rightarrow> P a)"

lemma wp_Inr [wp_simps]: "wp (Inr a) P \<longleftrightarrow> P a"
  by (simp add: wp_def)

lemma wp_Err [wp_simps]: "wp (Inl (Err e)) P"
  by (simp add: wp_def faulty_def)

lemma wp_Throw [wp_simps]: "wp (Inl (Throw (Scriptnum_error e))) P"
  by (simp add: wp_def faulty_def)

lemma wp_Abort [wp_simps]: "\<not> wp (Inl Abort) P"
  by (simp add: wp_def faulty_def)

lemma wp_ebind [wp_simps]: "wp (ebind r f) P \<longleftrightarrow> wp r (\<lambda>a. wp (f a) P)"
  by (cases r) (simp_all add: wp_def)

lemma wp_if [wp_simps]: "wp (if b then r else r') P \<longleftrightarrow> (b \<longrightarrow> wp r P) \<and> (\<not> b \<longrightarrow> wp r' P)"
  by simp

lemma wp_Let [wp_simps]: "wp (let x = a in f x) P \<longleftrightarrow> wp (f a) P"
  by simp

lemma wp_case_prod [wp_simps]: "wp (case x of (a, b) \<Rightarrow> f a b) P \<longleftrightarrow> (\<forall>a b. x = (a, b) \<longrightarrow> wp (f a b) P)"
  by (cases x) simp

lemma wp_mono: "wp r P \<Longrightarrow> (\<And>a. P a \<Longrightarrow> Q a) \<Longrightarrow> wp r Q"
  by (cases r) (auto simp: wp_def)

lemma wp_conj: "wp r P \<Longrightarrow> wp r Q \<Longrightarrow> wp r (\<lambda>a. P a \<and> Q a)"
  by (cases r) (auto simp: wp_def)

lemma wp_need [wp_simps]: "wp (need n st) P \<longleftrightarrow> (n \<le> length st \<longrightarrow> P ())"
  by (auto simp: need_def wp_simps)

lemma wp_stacktop [wp_simps]: "wp (stacktop st i) P \<longleftrightarrow> 1 \<le> i \<and> i \<le> length st \<and> P (st ! (length st - i))"
  by (auto simp: stacktop_def wp_def faulty_def)

lemma wp_popstack [wp_simps]: "wp (popstack st) P \<longleftrightarrow> 1 \<le> length st \<and> P (take (length st - 1) st)"
  by (auto simp: popstack_def wp_def faulty_def butlast_conv_take Suc_le_eq)

lemma wp_popstacks [wp_simps]: "wp (popstacks n st) P \<longleftrightarrow> n \<le> length st \<and> P (take (length st - n) st)"
proof (induction n arbitrary: st)
  case (Suc n)
  have "take (length st - 1 - n) (take (length st - 1) st) = take (length st - Suc n) st" by simp
  then show ?case using Suc [of "take (length st - 1) st"] by (simp add: wp_simps) linarith
qed (simp add: wp_simps)

lemma wp_swap_at [wp_simps]:
  "wp (swap_at st i j) P \<longleftrightarrow> 1 \<le> i \<and> i \<le> length st \<and> 1 \<le> j \<and> j \<le> length st \<and>
     P (st[length st - i := st ! (length st - j), length st - j := st ! (length st - i)])"
  by (auto simp: swap_at_def wp_simps)

lemma wp_erase_at [wp_simps]:
  "wp (erase_at st i j) P \<longleftrightarrow> j \<le> i \<and> i \<le> length st \<and> P (take (length st - i) st @ drop (length st - j) st)"
  by (auto simp: erase_at_def wp_simps)

lemma wp_insert_at [wp_simps]:
  "wp (insert_at st i v) P \<longleftrightarrow> i \<le> length st \<and> P (take (length st - i) st @ v # drop (length st - i) st)"
  by (auto simp: insert_at_def wp_simps)

lemma wp_asserted [wp_simps]: "wp (asserted x) P \<longleftrightarrow> (\<exists>a. x = Some a \<and> P a)"
  by (cases x) (auto simp: asserted_def wp_simps)

lemma wp_in_int64 [wp_simps]: "wp (in_int64 v) P \<longleftrightarrow> INT64_MIN \<le> v \<and> v \<le> INT64_MAX \<and> P v"
  by (auto simp: in_int64_def wp_simps)

text \<open>A number read from the stack has at most the given number of bytes.\<close>

lemma set_vch_bound:
  assumes "length v \<le> k" "k \<le> 7"
  shows "\<bar>set_vch v\<bar> < 2 ^ (8 * k)"
proof (cases v rule: rev_cases)
  case (snoc bs b)
  have "le_val (bs @ [c]) < 2 ^ (8 * k)" for c
  proof -
    have "(256 :: int) ^ length (bs @ [c]) \<le> 256 ^ k" by (rule power_increasing) (use snoc assms in auto)
    then show ?thesis using le_val_less [of "bs @ [c]"] by (simp add: power_mult)
  qed
  moreover have "length bs \<le> 7" using snoc assms by simp
  ultimately show ?thesis using le_val_nonneg by (simp add: snoc set_vch_eq abs_of_nonneg)
qed (simp add: set_vch_def)

lemma wp_script_num:
  assumes "k \<le> 7" "\<And>n. \<bar>n\<bar> < 2 ^ (8 * k) \<Longrightarrow> P n"
  shows "wp (script_num v m k) P"
  using assms set_vch_bound [of v k]
  by (auto simp: script_num_def CScriptNum_vch_def wp_simps)

lemma wp_num_at:
  assumes "1 \<le> i" "i \<le> length st" "k \<le> 7" "\<And>n. \<bar>n\<bar> < 2 ^ (8 * k) \<Longrightarrow> P n"
  shows "wp (num_at flags k st i) P"
  using assms wp_script_num [of k P] by (simp add: num_at_def wp_simps)

section \<open>The operations have no faults and keep elements small\<close>

text \<open>Elements not longer than the limit for pushed data, or than a length \<open>K\<close> of the elements at the start.\<close>

definition small :: "nat \<Rightarrow> valtype \<Rightarrow> bool" where
  "small K v \<longleftrightarrow> length v \<le> max MAX_SCRIPT_ELEMENT_SIZE K"

lemma length_serialize_loop: "length (serialize_loop a) \<le> k \<longleftrightarrow> uint a < 256 ^ k"
proof (induction a arbitrary: k rule: serialize_loop.induct)
  case (1 a)
  show ?case
  proof (cases "a = 0")
    case True
    then show ?thesis by (simp add: serialize_loop.simps)
  next
    case False
    then have pos: "0 < uint a" by (metis uint64_bound uint_0_iff order_less_le)
    have s: "serialize_loop a = ucast (a AND 0xff) # serialize_loop (drop_bit 8 a)" using False by (subst serialize_loop.simps) simp
    show ?thesis
    proof (cases k)
      case 0
      then show ?thesis using s pos by simp
    next
      case (Suc j)
      have "uint (drop_bit 8 a) = uint a div 256" by (simp add: uint_drop_bit_word)
      then have "length (serialize_loop a) \<le> k \<longleftrightarrow> uint a div 256 < 256 ^ j" using s Suc 1 [OF False, of j] by simp
      also have "\<dots> \<longleftrightarrow> uint a < 256 ^ k" 
        using int_div_lessI [of "uint a" "256 ^ j" 256] int_div_mult_le [of 256 "uint a"] minus_mod_eq_div_mult [of "uint a" 256]
          pos_mod_bound [of 256 "uint a"] unfolding Suc by (auto simp: mult.commute)
      finally show ?thesis .
    qed
  qed
qed

lemma length_CScriptNum_serialize: "length (CScriptNum_serialize n) \<le> 9"
proof -
  have "length (serialize_loop a) \<le> 8" for a using uint64_bound [of a] by (subst length_serialize_loop) simp
  then have "length (serialize_loop a) \<le> 8" "length (serialize_loop a) \<le> 9" "length (serialize_loop a) - 1 \<le> 8" for a
    by (metis (no_types) diff_le_self le_SucI le_trans numeral_nat(7) eval_nat_numeral(3))+
  then show ?thesis by (auto simp: CScriptNum_serialize_def Let_def)
qed

lemma length_digests [simp]: "length (sha1 m) = 20" "length (rmd160 m) = 20"
  unfolding sha1_def rmd160_def
  by (subst length_concat_const [where k = 4],
      simp_all add: length_fold_fips [where k = 5] length_fips1_compress rmd_compress_def Let_def sha1_Initialize_def ripemd160_Initialize_def WriteLE32_def)+

lemma sha1_digest: "fst (CSHA1_Finalize (CSHA1_Write m CSHA1_new)) = sha1 m"
  using CSHA1_Finalize_sha1 [OF sha1.repr_message [of "[m]"]] by simp

lemma hash_of_standard:
  "hash_of opcode v =
     (if opcode = OP_RIPEMD160 then rmd160 v else if opcode = OP_SHA1 then sha1 v else if opcode = OP_SHA256 then sha256 v
      else if opcode = OP_HASH160 then rmd160 (sha256 v) else sha256 (sha256 v))"
  using Hash160_rmd160 [of v] Hash_sha256 [of v]
  by (simp add: hash_of_def ripemd160_digest sha1_digest sha256_digest Hash160_def Hash_def)

lemma small_simps [simp]: "small K []" "small K vchTrue" "small K vchFalse" "small K (CScriptNum_serialize n)" "small K (hash_of opcode v)"
  using length_CScriptNum_serialize [of n] by (simp_all add: small_def vchTrue_def vchFalse_def hash_of_standard le_max_iff_disj)

lemma small_nth: "list_all (small K) st \<Longrightarrow> i < length st \<Longrightarrow> small K (st ! i)"
  by (simp add: list_all_length)

lemma small_take [simp]: "list_all (small K) st \<Longrightarrow> list_all (small K) (take n st)" "list_all (small K) st \<Longrightarrow> list_all (small K) (drop n st)"
  by (auto simp: list_all_iff dest: in_set_takeD in_set_dropD)

lemma small_update [simp]: "list_all (small K) st \<Longrightarrow> small K v \<Longrightarrow> list_all (small K) (st[i := v])"
  by (auto simp: list_all_iff dest!: subsetD [OF set_update_subset_insert])

lemmas small_stack = small_nth list_all_append list.pred_inject

lemma small_stack_ops:
  assumes "list_all (small K) st"
  shows "wp (op_2drop st) (list_all (small K))" "wp (op_2dup st) (list_all (small K))" "wp (op_3dup st) (list_all (small K))"
    "wp (op_2over st) (list_all (small K))" "wp (op_2rot st) (list_all (small K))" "wp (op_2swap st) (list_all (small K))"
    "wp (op_ifdup st) (list_all (small K))" "wp (op_depth st) (list_all (small K))" "wp (op_drop st) (list_all (small K))"
    "wp (op_dup st) (list_all (small K))" "wp (op_nip st) (list_all (small K))" "wp (op_over st) (list_all (small K))"
    "wp (op_rot st) (list_all (small K))" "wp (op_swap st) (list_all (small K))" "wp (op_tuck st) (list_all (small K))"
    "wp (op_size st) (list_all (small K))" "wp (op_equal opcode st) (list_all (small K))" "wp (op_hash opcode st) (list_all (small K))"
  using assms unfolding op_2drop_def op_2dup_def op_3dup_def op_2over_def op_2rot_def op_2swap_def op_ifdup_def op_depth_def op_drop_def
    op_dup_def op_nip_def op_over_def op_rot_def op_swap_def op_tuck_def op_size_def op_equal_def op_hash_def
  by (simp_all add: wp_simps small_stack Let_def)

lemma four_bytes: "\<bar>n\<bar> < 2 ^ (8 * 4) \<Longrightarrow> INT64_MIN < n \<and> n < INT64_MAX"
  by (simp add: INT64_MIN_def INT64_MAX_def) linarith

lemma wp_unary_num: "\<bar>n\<bar> < 2 ^ (8 * 4) \<Longrightarrow> opcode \<in> {OP_1ADD, OP_1SUB, OP_NEGATE, OP_ABS, OP_NOT, OP_0NOTEQUAL} \<Longrightarrow> wp (unary_num opcode n) (\<lambda>_. True)"
  using four_bytes [of n]
  by (auto simp: unary_num_def wp_simps CScriptNum_add_eq_def CScriptNum_sub_eq_def CScriptNum_neg_def)

lemma wp_binary_num:
  assumes "\<bar>a\<bar> < 2 ^ (8 * 4)" "\<bar>b\<bar> < 2 ^ (8 * 4)"
    "opcode \<in> {OP_ADD, OP_SUB, OP_BOOLAND, OP_BOOLOR, OP_NUMEQUAL, OP_NUMEQUALVERIFY, OP_NUMNOTEQUAL, OP_LESSTHAN, OP_GREATERTHAN,
      OP_LESSTHANOREQUAL, OP_GREATERTHANOREQUAL, OP_MIN, OP_MAX}"
  shows "wp (binary_num opcode a b) (\<lambda>_. True)"
proof -
  have r: "INT64_MIN \<le> a + b" "a + b \<le> INT64_MAX" "INT64_MIN \<le> a - b" "a - b \<le> INT64_MAX"
    using assms(1,2) by (auto simp: INT64_MIN_def INT64_MAX_def)
  show ?thesis using assms(3) r by (auto simp: binary_num_def wp_simps)
qed

lemma wp_True: "wp r (\<lambda>_. True) \<Longrightarrow> (\<And>a. P a) \<Longrightarrow> wp r P"
  by (rule wp_mono)

lemma small_pick_roll: "list_all (small K) st \<Longrightarrow> wp (op_pick_roll flags opcode st) (list_all (small K))"
  unfolding op_pick_roll_def wp_ebind wp_need
  by (intro impI wp_num_at) (auto simp: wp_simps small_stack Let_def intro!: small_nth)

lemma small_unary:
  "list_all (small K) st \<Longrightarrow> opcode \<in> {OP_1ADD, OP_1SUB, OP_NEGATE, OP_ABS, OP_NOT, OP_0NOTEQUAL} \<Longrightarrow> wp (op_unary flags opcode st) (list_all (small K))"
  unfolding op_unary_def wp_ebind wp_need
  by (intro impI wp_num_at wp_True [OF wp_unary_num]) (auto simp: wp_simps small_stack)

lemma small_binary:
  "list_all (small K) st \<Longrightarrow> opcode \<in> {OP_ADD, OP_SUB, OP_BOOLAND, OP_BOOLOR, OP_NUMEQUAL, OP_NUMEQUALVERIFY, OP_NUMNOTEQUAL, OP_LESSTHAN, OP_GREATERTHAN,
      OP_LESSTHANOREQUAL, OP_GREATERTHANOREQUAL, OP_MIN, OP_MAX} \<Longrightarrow> wp (op_binary flags opcode st) (list_all (small K))"
  unfolding op_binary_def wp_ebind wp_need
  by (intro impI wp_num_at wp_True [OF wp_binary_num]) (simp_all add: wp_simps small_stack Let_def)

lemma small_within: "list_all (small K) st \<Longrightarrow> wp (op_within flags st) (list_all (small K))"
  unfolding op_within_def wp_ebind wp_need
  by (intro impI wp_num_at) (simp_all add: wp_simps small_stack)

lemma pred_option_if: "(b \<Longrightarrow> pred_option Q x) \<Longrightarrow> pred_option Q y \<Longrightarrow> pred_option Q (if b then x else y)"
  by simp

lemma stack_op_small:
  assumes "list_all (small K) st"
  shows "pred_option (\<lambda>r. wp r (list_all (small K))) (stack_op flags opcode st)"
  unfolding stack_op_def
  by (intro pred_option_if)
    (auto simp: wp_simps small_stack assms intro: small_stack_ops small_pick_roll small_unary small_binary small_within)

definition total_checker :: "signature_checker \<Rightarrow> bool" where
  "total_checker checker \<longleftrightarrow> (\<forall>sig key code v. CheckSig checker sig key code v \<noteq> None) \<and>
     (\<forall>n. CheckLockTime checker n \<noteq> None) \<and> (\<forall>n. CheckSequence checker n \<noteq> None)"

text \<open>The invariant of the loop, and what a state keeps of it before the size check.\<close>

definition elements_ok :: "nat \<Rightarrow> eval_state \<Rightarrow> bool" where
  "elements_ok K s \<longleftrightarrow> list_all (small K) (stack s) \<and> list_all (small K) (altstack s) \<and> nOpCount s \<le> MAX_OPS_PER_SCRIPT"

lemma wp_encoding:
  "(\<And>u. P u) \<Longrightarrow> wp (CheckSignatureEncoding CheckLowS sig flags) P"
  "(\<And>u. P u) \<Longrightarrow> wp (CheckPubKeyEncoding key flags sigversion) P"
  by (auto simp: CheckSignatureEncoding_def CheckPubKeyEncoding_def IsLowDERSignature_def wp_simps split: sum.split)

lemma wp_drop_signature: "(\<And>c. P c) \<Longrightarrow> wp (drop_signature flags sigversion sig code) P"
  by (simp add: drop_signature_def wp_simps Let_def split: prod.split)

lemma wp_drop_signatures: "1 \<le> i \<Longrightarrow> i + n \<le> length st + 1 \<Longrightarrow> (\<And>c. P c) \<Longrightarrow> wp (drop_signatures flags sigversion st i n code) P"
  by (induction n arbitrary: i code) (auto simp: wp_simps intro!: wp_drop_signature)

lemma wp_multisig_loop:
  "total_checker checker \<Longrightarrow> 1 \<le> isig \<Longrightarrow> 1 \<le> ikey \<Longrightarrow> int isig + nSigsCount \<le> int (length st) + 1 \<Longrightarrow>
   int ikey + nKeysCount \<le> int (length st) + 1 \<Longrightarrow> nSigsCount \<le> nKeysCount \<Longrightarrow> (\<And>b. P b) \<Longrightarrow>
   wp (multisig_loop CheckLowS flags checker sigversion code st isig ikey nSigsCount nKeysCount) P"
proof (induction CheckLowS flags checker sigversion code st isig ikey nSigsCount nKeysCount rule: multisig_loop.induct)
  case (1 CheckLowS flags checker sigversion code st isig ikey nSigsCount nKeysCount)
  show ?case
  proof (cases "nSigsCount > 0")
    case True
    have i: "1 \<le> isig" "isig \<le> length st" "1 \<le> ikey" "ikey \<le> length st" using "1.prems" True by linarith+
    obtain fOk where ok: "CheckSig checker (st ! (length st - isig)) (st ! (length st - ikey)) code sigversion = Some fOk"
      using "1.prems"(1) unfolding total_checker_def by blast
    let ?isig = "if fOk then isig + 1 else isig" and ?n = "if fOk then nSigsCount - 1 else nSigsCount"
    have "wp (multisig_loop CheckLowS flags checker sigversion code st ?isig (ikey + 1) ?n (nKeysCount - 1)) P" if n: "\<not> ?n > nKeysCount - 1"
      by (rule "1.IH" [OF True refl refl n]) (use "1.prems" n in auto)
    then show ?thesis
      using True i ok "1.prems"(7)
      by (subst multisig_loop.simps) (auto simp: wp_simps Let_def intro!: wp_encoding)
  next
    case False
    then show ?thesis using 1 by (subst multisig_loop.simps) (simp add: wp_simps)
  qed
qed

lemma wp_multisig_cleanup:
  "n \<le> length st \<Longrightarrow> P (take (length st - n) st) \<Longrightarrow> wp (multisig_cleanup flags fSuccess n ikey2 st) P"
proof (induction n arbitrary: ikey2 st)
  case (Suc n)
  then show ?case by (auto simp: wp_simps intro!: Suc.IH)
qed (simp add: wp_simps)

lemma elements_locktime:
  assumes "total_checker checker" "elements_ok K s"
  shows "wp (op_checklocktime flags checker s) (elements_ok K)" "wp (op_checksequence flags checker s) (elements_ok K)"
  using assms unfolding op_checklocktime_def op_checksequence_def wp_if wp_ebind wp_need
  by (auto intro!: wp_num_at simp: wp_simps total_checker_def)

lemma elements_control:
  assumes "elements_ok K s"
  shows "wp (op_if flags sigversion opcode fExec s) (elements_ok K)" "wp (op_else s) (elements_ok K)" "wp (op_endif s) (elements_ok K)"
    "wp (op_verify s) (elements_ok K)" "wp (op_toaltstack s) (elements_ok K)" "wp (op_fromaltstack s) (elements_ok K)"
  using assms unfolding op_if_def op_else_def op_endif_def op_verify_def op_toaltstack_def op_fromaltstack_def
  by (auto simp: wp_simps Let_def elements_ok_def small_stack Suc_le_eq)

lemma elements_checksig:
  assumes "total_checker checker" "elements_ok K s"
  shows "wp (op_checksig CheckLowS flags checker sigversion opcode s) (elements_ok K)"
proof (cases "2 \<le> length (stack s)")
  case True
  let ?sig = "stack s ! (length (stack s) - 2)" and ?key = "stack s ! (length (stack s) - 1)"
  have "wp (ebind (asserted (CheckSig checker ?sig ?key code sigversion)) (\<lambda>fSuccess.
     if \<not> fSuccess \<and> on flags SCRIPT_VERIFY_NULLFAIL \<and> length ?sig \<noteq> 0 then Inl (Err SCRIPT_ERR_SIG_NULLFAIL)
     else
       ebind (popstacks 2 (stack s)) (\<lambda>st.
       let st = st @ [bool_vch fSuccess] in
       if opcode = OP_CHECKSIGVERIFY then
         (if fSuccess then ebind (popstack st) (\<lambda>st. Inr (s\<lparr>stack := st\<rparr>)) else Inl (Err SCRIPT_ERR_CHECKSIGVERIFY))
       else Inr (s\<lparr>stack := st\<rparr>)))) (elements_ok K)" for code
  proof -
    obtain b where "CheckSig checker ?sig ?key code sigversion = Some b" using assms(1) unfolding total_checker_def by blast
    then show ?thesis using True assms(2) by (simp add: wp_simps Let_def elements_ok_def small_stack)
  qed
  then show ?thesis
    using True unfolding op_checksig_def wp_ebind [of "need _ _"] wp_ebind [of "stacktop _ _"] wp_ebind [of "drop_signature _ _ _ _"]
      wp_ebind [of "CheckSignatureEncoding _ _ _"] wp_ebind [of "CheckPubKeyEncoding _ _ _"] wp_need wp_stacktop
    by (auto intro!: wp_drop_signature wp_encoding)
qed (simp add: op_checksig_def wp_simps)

lemma elements_multisig_tail:
  assumes ck: "total_checker checker" and s: "elements_ok K s" and n: "0 \<le> ns" "ns \<le> nk" and l: "2 + nat nk + 1 + nat ns \<le> length (stack s)"
  shows "wp (ebind (multisig_loop CheckLowS flags checker sigversion code (stack s) (2 + nat nk + 1) 2 ns nk) (\<lambda>fSuccess.
     ebind (multisig_cleanup flags fSuccess (2 + nat nk + 1 + nat ns - 1) (nk + 2) (stack s)) (\<lambda>st.
     ebind (need 1 st) (\<lambda>_.
     ebind (stacktop st 1) (\<lambda>dummy.
     if on flags SCRIPT_VERIFY_NULLDUMMY \<and> length dummy \<noteq> 0 then Inl (Err SCRIPT_ERR_SIG_NULLDUMMY)
     else
       ebind (popstack st) (\<lambda>st.
       let st = st @ [bool_vch fSuccess] in
       if opcode = OP_CHECKMULTISIGVERIFY then
         (if fSuccess then ebind (popstack st) (\<lambda>st. Inr (s\<lparr>stack := st\<rparr>)) else Inl (Err SCRIPT_ERR_CHECKMULTISIGVERIFY))
       else Inr (s\<lparr>stack := st\<rparr>))))))) (elements_ok K)"
  unfolding wp_ebind [of "multisig_loop _ _ _ _ _ _ _ _ _ _"] wp_ebind [of "multisig_cleanup _ _ _ _ _"]
proof (rule wp_multisig_loop [OF ck], goal_cases)
  case (6 fSuccess)
  show ?case
    by (rule wp_multisig_cleanup) (use l s in \<open>simp_all add: wp_simps Let_def elements_ok_def small_stack\<close>)
qed (use n l in linarith)+

lemma elements_checkmultisig:
  assumes ck: "total_checker checker" and s: "elements_ok K s"
  shows "wp (op_checkmultisig CheckLowS flags checker sigversion opcode s) (elements_ok K)"
proof -
  define s1 where "s1 n = s\<lparr>nOpCount := nOpCount s + n\<rparr>" for n
  have st: "stack (s1 n) = stack s" "pbegincodehash (s1 n) = pbegincodehash s" for n by (simp_all add: s1_def)
  have ok: "elements_ok K (s1 n)" if "\<not> nOpCount (s1 n) > MAX_OPS_PER_SCRIPT" for n using that s by (simp add: elements_ok_def s1_def)
  show ?thesis
    unfolding op_checkmultisig_def Let_def s1_def [symmetric] st wp_ebind [of "need _ _"] wp_ebind [of "num_at _ _ _ _"] wp_ebind [of "drop_signatures _ _ _ _ _ _"]
      wp_need wp_if
  proof (intro impI wp_num_at conjI wp_Err wp_drop_signatures, goal_cases)
    case (9 n m c)
    then show ?case using elements_multisig_tail [OF ck ok, of "getint n" "getint m" "getint n", unfolded st Let_def] by simp
  qed simp_all
qed

lemma state_op_ok:
  assumes ck: "total_checker checker" and s: "elements_ok K s"
  shows "wp (state_op CheckLowS flags checker sigversion opcode fExec pc s) (elements_ok K)"
proof -
  have "elements_ok K (s\<lparr>pbegincodehash := pc\<rparr>)" using s by (simp add: elements_ok_def)
  then show ?thesis
    using s elements_locktime [OF ck s] elements_control [OF s] elements_checksig [OF ck s] elements_checkmultisig [OF ck s]
    unfolding state_op_def by (simp add: wp_Err wp_Inr)
qed

lemma exec_opcode_ok:
  assumes ck: "total_checker checker" and s: "elements_ok K s"
  shows "wp (exec_opcode CheckLowS flags checker sigversion opcode fExec pc s)
     (\<lambda>(return, s'). if return then s' = s \<or> s' = push (opcode # pc) s else elements_ok K s')"
proof (cases "stack_op flags opcode (stack s)")
  case None
  show ?thesis
    unfolding exec_opcode_def None option.case wp_if wp_ebind wp_Inr by (intro conjI impI wp_mono [OF state_op_ok [OF ck s]]) simp_all
next
  case (Some r)
  have "wp r (list_all (small K))" using stack_op_small [of K "stack s" flags opcode] s Some by (simp add: elements_ok_def)
  then show ?thesis
    unfolding exec_opcode_def Some option.case wp_ebind wp_Inr by (rule wp_mono) (use s in \<open>simp add: elements_ok_def\<close>)
qed

lemma push_or_exec_ok:
  assumes ck: "total_checker checker" and s: "elements_ok K s" and v: "small K v"
  shows "wp (push_or_exec CheckLowS flags checker sigversion opcode v pc s)
     (\<lambda>(return, s'). if return then s' = s \<or> s' = push (opcode # pc) s else elements_ok K s')"
proof -
  have "wp (if fRequireMinimal flags then CheckMinimalPush v opcode else Inr True) (\<lambda>_. True)" if "opcode \<le> OP_PUSHDATA4"
    using that by (simp add: wp_simps CheckMinimalPush_def)
  moreover have "elements_ok K (push v s)" using s v by (simp add: elements_ok_def push_def)
  ultimately show ?thesis
    unfolding push_or_exec_def Let_def wp_if wp_ebind
    by (intro conjI impI exec_opcode_ok [OF ck s]) (auto intro: wp_True simp: wp_simps s)
qed

definition loop_inv :: "nat \<Rightarrow> nat \<Rightarrow> eval_state \<Rightarrow> bool" where
  "loop_inv M K s \<longleftrightarrow> elements_ok K s \<and> length (stack s) + length (altstack s) \<le> max MAX_STACK_SIZE M"

lemma eval_step_ok:
  assumes ck: "total_checker checker" and s: "elements_ok K s"
  shows "wp (eval_step CheckLowS flags checker sigversion opcode v pc s)
     (\<lambda>(return, s'). if return then \<exists>n. n \<le> MAX_OPS_PER_SCRIPT \<and> (s' = s\<lparr>nOpCount := n\<rparr> \<or> s' = push (opcode # pc) (s\<lparr>nOpCount := n\<rparr>))
        else loop_inv M K s')"
proof -
  define s1 where "s1 = (if opcode > OP_16 then s\<lparr>nOpCount := nOpCount s + 1\<rparr> else s)"
  have s1: "s1 = s\<lparr>nOpCount := nOpCount s1\<rparr>" by (simp add: s1_def)
  have e: "elements_ok K s1" if "\<not> (opcode > OP_16 \<and> nOpCount s1 > MAX_OPS_PER_SCRIPT)" using that s by (auto simp: elements_ok_def s1_def)
  show ?thesis
  proof (cases "length v > MAX_SCRIPT_ELEMENT_SIZE \<or> opcode > OP_16 \<and> nOpCount s1 > MAX_OPS_PER_SCRIPT")
    case True
    then show ?thesis by (auto simp: eval_step_def s1_def wp_Err Let_def)
  next
    case False
    have v: "small K v" using False by (simp add: small_def le_max_iff_disj)
    have "wp (push_or_exec CheckLowS flags checker sigversion opcode v pc s1)
       (\<lambda>(return, s'). if return then s' = s1 \<or> s' = push (opcode # pc) s1 else elements_ok K s')"
      using push_or_exec_ok [OF ck e v] False by blast
    moreover have "nOpCount s1 \<le> MAX_OPS_PER_SCRIPT" using e False by (auto simp: elements_ok_def)
    ultimately have "wp (push_or_exec CheckLowS flags checker sigversion opcode v pc s1) (\<lambda>(return, s'). 
        if return then \<exists>n. n \<le> MAX_OPS_PER_SCRIPT \<and> (s' = s\<lparr>nOpCount := n\<rparr> \<or> s' = push (opcode # pc) (s\<lparr>nOpCount := n\<rparr>)) else elements_ok K s')"
      using s1 by (elim wp_mono) (auto split: if_splits)
    then show ?thesis
      unfolding eval_step_def Let_def s1_def [symmetric] wp_if wp_ebind
      by (intro conjI impI wp_Err) (erule wp_mono, auto simp: wp_simps loop_inv_def split: if_splits)
  qed
qed

definition final_stack :: "nat \<Rightarrow> nat \<Rightarrow> nat \<Rightarrow> valtype list \<Rightarrow> bool" where
  "final_stack L M K st \<longleftrightarrow> (\<exists>st0 rest. st = st0 @ rest \<and> list_all (small K) st0 \<and> length st0 \<le> max MAX_STACK_SIZE M \<and>
     (rest = [] \<or> (\<exists>v. rest = [v] \<and> length v \<le> L)))"

lemma final_stackI: "list_all (small K) st \<Longrightarrow> length st \<le> max MAX_STACK_SIZE M \<Longrightarrow> final_stack L M K st"
  unfolding final_stack_def by (intro exI [of _ st] exI [of _ "[]"]) simp

lemma final_stack_push: "list_all (small K) st \<Longrightarrow> length st \<le> max MAX_STACK_SIZE M \<Longrightarrow> length v \<le> L \<Longrightarrow> final_stack L M K (st @ [v])"
  unfolding final_stack_def by (intro exI [of _ st] exI [of _ "[v]"]) simp

lemma eval_loop_ok:
  "total_checker checker \<Longrightarrow> loop_inv M K s \<Longrightarrow> length pc \<le> L \<Longrightarrow>
   wp (eval_loop CheckLowS flags checker sigversion pc s) (\<lambda>(return, s'). final_stack L M K (stack s'))"
proof (induction CheckLowS flags checker sigversion pc s rule: eval_loop.induct)
  case (1 CheckLowS flags checker sigversion pc s)
  have s: "elements_ok K s" "length (stack s) \<le> max MAX_STACK_SIZE M" using "1.prems"(2) by (auto simp: loop_inv_def)
  show ?case
  proof (cases "pc = []")
    case True
    have "final_stack L M K (stack s)" using s by (intro final_stackI) (auto simp: elements_ok_def)
    then show ?thesis using True by (subst eval_loop.simps) (simp add: wp_simps)
  next
    case False
    show ?thesis
    proof (cases "GetScriptOp pc")
      case None
      then show ?thesis using False by (subst eval_loop.simps) (simp add: wp_simps)
    next
      case (Some x)
      obtain opcode v pc' where x: "x = (opcode, v, pc')" by (cases x)
      have l: "length pc' < length pc" using GetScriptOp_less Some x by blast
      let ?r = "eval_step CheckLowS flags checker sigversion opcode v pc' s"
      have st: "wp ?r (\<lambda>(return, s'). if return then \<exists>n. n \<le> MAX_OPS_PER_SCRIPT \<and> (s' = s\<lparr>nOpCount := n\<rparr> \<or> s' = push (opcode # pc') (s\<lparr>nOpCount := n\<rparr>))
        else loop_inv M K s')" by (rule eval_step_ok [OF "1.prems"(1) s(1)])
      have e: "eval_loop CheckLowS flags checker sigversion pc s = (case ?r of Inl e \<Rightarrow> Inl e
          | Inr (return, s') \<Rightarrow> if return then Inr (True, s') else eval_loop CheckLowS flags checker sigversion pc' s')"
        using False Some x by (subst eval_loop.simps) simp
      show ?thesis
      proof (cases ?r)
        case (Inl a)
        then show ?thesis using st e by (simp add: wp_def)
      next
        case (Inr y)
        obtain return s' where y: "y = (return, s')" by (cases y)
        show ?thesis
        proof (cases return)
          case True
          then obtain n where "s' = s\<lparr>nOpCount := n\<rparr> \<or> s' = push (opcode # pc') (s\<lparr>nOpCount := n\<rparr>)"
            using st Inr y by (auto simp: wp_def)
          moreover have "length (opcode # pc') \<le> L" using l "1.prems"(3) by simp
          then have "final_stack L M K (stack s @ [opcode # pc'])" using s by (intro final_stack_push) (simp_all add: elements_ok_def)
          ultimately have "final_stack L M K (stack s')"
            using s by (auto simp: push_def elements_ok_def intro: final_stackI)
          then show ?thesis using e Inr y True by (simp add: wp_simps)
        next
          case False
          then have "loop_inv M K s'" using st Inr y by (simp add: wp_def)
          then show ?thesis using "1.IH" [OF \<open>pc \<noteq> []\<close> Some x [symmetric] refl Inr y [symmetric]] e Inr y False "1.prems" l by simp
        qed
      qed
    qed
  qed
qed

lemma EvalScript_ok:
  assumes "total_checker checker" "list_all (small K) st" "length st \<le> max MAX_STACK_SIZE M"
  shows "wp (eval_loop CheckLowS flags checker sigversion scr (eval_start st scr)) (\<lambda>_. True)"
    and "wp (EvalScript CheckLowS st scr flags checker sigversion) (final_stack MAX_SCRIPT_SIZE M K)"
proof -
  have i: "loop_inv M K (eval_start st scr)" using assms by (simp add: loop_inv_def elements_ok_def eval_start_def)
  have l: "wp (eval_loop CheckLowS flags checker sigversion scr (eval_start st scr)) (\<lambda>(return, s'). final_stack L M K (stack s'))"
    if "length scr \<le> L" for L by (rule eval_loop_ok [OF assms(1) i that])
  show "wp (eval_loop CheckLowS flags checker sigversion scr (eval_start st scr)) (\<lambda>_. True)"
    by (rule wp_mono [OF l [OF order.refl]]) simp
  show "wp (EvalScript CheckLowS st scr flags checker sigversion) (final_stack MAX_SCRIPT_SIZE M K)"
  proof (cases "length scr > MAX_SCRIPT_SIZE")
    case False
    have "wp (catch_all (eval_loop CheckLowS flags checker sigversion scr (eval_start st scr))) (\<lambda>(return, s'). final_stack MAX_SCRIPT_SIZE M K (stack s'))"
      using l [of MAX_SCRIPT_SIZE] False by (auto simp: wp_def catch_all_def faulty_def split: sum.splits stop.splits)
    then show ?thesis
      using False unfolding EvalScript_def by (auto simp: wp_ebind elim!: wp_mono) (auto simp: wp_simps)
  qed (simp add: EvalScript_def wp_simps)
qed

section \<open>No faults\<close>

lemma eval_sound:
  assumes "total_checker checker"
  shows "wp (eval_loop CheckLowS flags checker sigversion scr (eval_start st scr)) (\<lambda>_. True)"
    and "wp (EvalScript CheckLowS st scr flags checker sigversion) (\<lambda>_. True)"
proof -
  define K where "K = sum_list (map length st)"
  have K: "list_all (small K) st" by (auto simp: list_all_iff small_def K_def le_max_iff_disj intro: member_le_sum_list)
  have M: "length st \<le> max MAX_STACK_SIZE (length st)" by simp
  show "wp (eval_loop CheckLowS flags checker sigversion scr (eval_start st scr)) (\<lambda>_. True)"
    by (rule EvalScript_ok(1) [OF assms K M])
  show "wp (EvalScript CheckLowS st scr flags checker sigversion) (\<lambda>_. True)"
    by (rule wp_mono [OF EvalScript_ok(2) [OF assms K M]]) simp
qed

lemma EvalScript_no_throw: "EvalScript CheckLowS st scr flags checker sigversion \<noteq> Inl (Throw e)"
  by (auto simp: EvalScript_def catch_all_def ebind_def split: sum.splits stop.splits prod.splits if_splits)

text \<open>The script of a script hash needs an element on the stack.\<close>

lemma p2sh_needs_element:
  assumes "IsPayToScriptHash scr"
  shows "\<exists>e. EvalScript CheckLowS [] scr flags checker sigversion = Inl e"
proof -
  obtain rest where scr: "scr = OP_HASH160 # rest" "length scr = 23" using assms by (cases scr) (auto simp: IsPayToScriptHash_def)
  have g: "GetScriptOp scr = Some (OP_HASH160, [], rest)" unfolding scr(1) GetScriptOp_def by simp
  have "eval_step CheckLowS flags checker sigversion OP_HASH160 [] rest (eval_start [] scr) = Inl (Err SCRIPT_ERR_INVALID_STACK_OPERATION)"
    by (simp add: eval_step_def eval_start_def disabled_opcode_def push_or_exec_def exec_opcode_def stack_op_def op_hash_def need_def)
  then have "eval_loop CheckLowS flags checker sigversion scr (eval_start [] scr) = Inl (Err SCRIPT_ERR_INVALID_STACK_OPERATION)"
    using scr(2) by (subst eval_loop.simps) (auto simp: g)
  then show ?thesis using scr(2) by (simp add: EvalScript_def catch_all_def)
qed

lemma wp_eval_true:
  assumes "total_checker checker" "\<And>st'. EvalScript CheckLowS st scr flags checker BASE = Inr st' \<Longrightarrow> st' \<noteq> [] \<Longrightarrow> P st'"
  shows "wp (eval_true CheckLowS st scr flags checker) P"
  using eval_sound(2) [OF assms(1), of CheckLowS st scr flags BASE] assms(2)
  by (cases "EvalScript CheckLowS st scr flags checker BASE") (auto simp: eval_true_def wp_def faulty_def)

lemma wp_VerifyWitnessProgram:
  assumes "total_checker checker"
  shows "wp (VerifyWitnessProgram CheckLowS witness version program flags checker) (\<lambda>_. True)"
proof -
  have "wp (EvalScript CheckLowS st scr flags checker WITNESS_V0) (\<lambda>st. True)" for st scr by (rule eval_sound [OF assms])
  then show ?thesis
    unfolding VerifyWitnessProgram_def by (auto simp: wp_simps intro!: wp_True)
qed

lemma wp_witness_part:
  assumes "total_checker checker"
  shows "wp (witness_part CheckLowS exact e scr witness flags checker st) (\<lambda>_. True)"
  unfolding witness_part_def
  by (auto simp: wp_simps split: option.split intro!: wp_VerifyWitnessProgram [OF assms])

lemma wp_VerifyScript:
  assumes ck: "total_checker checker" and f: "on flags SCRIPT_VERIFY_CLEANSTACK \<Longrightarrow> on flags SCRIPT_VERIFY_WITNESS"
    "on flags SCRIPT_VERIFY_WITNESS \<Longrightarrow> on flags SCRIPT_VERIFY_P2SH"
  shows "wp (VerifyScript CheckLowS sig spk witness flags checker) (\<lambda>_. True)"
proof -
  have e: "wp (EvalScript CheckLowS st scr flags checker BASE) P" if "\<And>st'. EvalScript CheckLowS st scr flags checker BASE = Inr st' \<Longrightarrow> P st'" for st scr P
    using eval_sound(2) [OF ck, of CheckLowS st scr flags BASE] that by (auto simp: wp_def split: sum.splits)
  have p: "wp (p2sh_part CheckLowS sig witness flags checker st) (\<lambda>_. True)" if "st \<noteq> []" for st
    using that by (auto simp: p2sh_part_def wp_simps Let_def Suc_le_eq intro!: wp_eval_true [OF ck] wp_witness_part [OF ck])
  show ?thesis
  proof (cases "on flags SCRIPT_VERIFY_SIGPUSHONLY \<and> \<not> IsPushOnly sig")
    case False
    show ?thesis
      unfolding VerifyScript_def if_not_P [OF False] wp_ebind
    proof (rule e, rule wp_eval_true [OF ck], rule wp_True [OF wp_witness_part [OF ck]], goal_cases)
      case (1 st st' x)
      have "IsPayToScriptHash spk \<Longrightarrow> st \<noteq> []" using p2sh_needs_element [of spk CheckLowS flags checker BASE] 1(2) by auto
      then have b: "wp (if on flags SCRIPT_VERIFY_P2SH \<and> IsPayToScriptHash spk
          then ebind (p2sh_part CheckLowS sig witness flags checker st) (\<lambda>(had, st). Inr (fst x \<or> had, st)) else Inr (fst x, snd x)) (\<lambda>_. True)"
        using p [of st] by (auto simp: wp_ebind wp_Inr elim!: wp_mono)
      show ?case
        using f unfolding wp_ebind case_prod_beta [where p = x] by (intro wp_True [OF b]) (auto simp: wp_Inr wp_Err split: prod.split)
    qed
  qed (simp add: VerifyScript_def wp_simps)
qed

section \<open>Paying to the hash of a key\<close>

definition p2pkh :: "bytes \<Rightarrow> CScript" where
  "p2pkh h = [OP_DUP, OP_HASH160, 0x14] @ h @ [OP_EQUALVERIFY, OP_CHECKSIG]"

lemma eval_loop_step:
  assumes "GetScriptOp pc = Some (opcode, v, pc')"
  shows "eval_loop CheckLowS flags checker sigversion pc s =
     ebind (eval_step CheckLowS flags checker sigversion opcode v pc' s)
       (\<lambda>(return, s'). if return then Inr (True, s') else eval_loop CheckLowS flags checker sigversion pc' s')"
proof -
  have "pc \<noteq> []" using assms by (auto simp: GetScriptOp_def)
  then show ?thesis using assms by (subst eval_loop.simps) (simp add: ebind_def split: sum.split)
qed

lemma eval_loop_Nil [simp]: "eval_loop CheckLowS flags checker sigversion [] s = Inr (False, s)"
  by (subst eval_loop.simps) simp

lemma get_opcode: "\<not> opcode \<le> OP_PUSHDATA4 \<Longrightarrow> GetScriptOp (opcode # pc) = Some (opcode, [], pc)"
  by (simp add: GetScriptOp_def)

lemma get_push: "0 < length d \<Longrightarrow> length d < 0x4c \<Longrightarrow> GetScriptOp (of_nat (length d) # d @ pc) = Some (of_nat (length d), d, pc)"
proof -
  assume d: "0 < length d" "length d < 0x4c"
  have u: "unat (of_nat (length d) :: u8) = length d" using d by (simp add: unat_of_nat take_bit_nat_eq_self)
  then have "(of_nat (length d) :: u8) < OP_PUSHDATA1" "(of_nat (length d) :: u8) \<le> OP_PUSHDATA4" using d by (simp_all add: word_less_nat_alt word_le_nat_alt)
  then show ?thesis using u by (simp add: GetScriptOp_def)
qed

text \<open>Running operations one after the other, on a state with an empty alternative stack.\<close>

lemma eval_step_op:
  assumes "\<not> opcode \<le> OP_16" "\<not> disabled_opcode opcode" "opcode \<noteq> OP_CODESEPARATOR" "vfExec s = []" "altstack s = []"
    "nOpCount s < MAX_OPS_PER_SCRIPT"
  shows "eval_step CheckLowS flags checker sigversion opcode [] pc s =
     ebind (exec_opcode CheckLowS flags checker sigversion opcode True pc (s\<lparr>nOpCount := nOpCount s + 1\<rparr>)) (\<lambda>(return, s).
        if return then Inr (True, s)
        else if length (stack s) + length (altstack s) > MAX_STACK_SIZE then Inl (Err SCRIPT_ERR_STACK_SIZE)
        else Inr (False, s))"
proof -
  have "\<not> opcode \<le> OP_PUSHDATA4" using assms(1) order_trans [of opcode OP_PUSHDATA4 OP_16] by auto
  moreover have "OP_16 < opcode" using assms(1) by (simp add: not_le)
  ultimately show ?thesis using assms by (simp add: eval_step_def push_or_exec_def Let_def)
qed

lemma eval_step_push:
  assumes "1 < length d" "length d < 0x4c" "vfExec s = []" "length (stack s) + length (altstack s) < MAX_STACK_SIZE"
  shows "eval_step CheckLowS flags checker sigversion (of_nat (length d)) d pc s = Inr (False, push d s)"
proof -
  have u: "unat (of_nat (length d) :: u8) = length d" using assms by (simp add: unat_of_nat take_bit_nat_eq_self)
  then have o: "(of_nat (length d) :: u8) \<le> OP_PUSHDATA4" "\<not> (of_nat (length d) :: u8) > OP_16" using assms by (simp_all add: word_less_nat_alt word_le_nat_alt)
  have n: "\<not> disabled_opcode (of_nat (length d))" "(of_nat (length d) :: u8) \<noteq> OP_CODESEPARATOR"
    using o(2) by (auto simp: disabled_opcode_def)
  have m: "CheckMinimalPush d (of_nat (length d)) = Inr True" using assms o(1) u by (simp add: CheckMinimalPush_def)
  have l: "length (stack (push d s)) + length (altstack (push d s)) \<le> MAX_STACK_SIZE" using assms by (simp add: push_def)
  show ?thesis using assms o n m l by (simp add: eval_step_def push_or_exec_def Let_def)
qed

text \<open>The five operations of the script, on a stack that ends with a signature and a key.\<close>

lemma stack_end [simp]:
  "stacktop (st @ [a]) (Suc 0) = Inr a" "stacktop (st @ [a, b]) (Suc 0) = Inr b" "stacktop (st @ [a, b]) 2 = Inr a" "popstack (st @ [a]) = Inr st"
  by (simp_all add: stacktop_def popstack_def nth_append)

lemma popstacks_end [simp]: "popstacks 2 (st @ [a, b]) = Inr st"
proof -
  have "popstack (st @ [a, b]) = Inr (st @ [a])" using stack_end(4) [of "st @ [a]" b] by simp
  then show ?thesis by (simp add: numeral_2_eq_2)
qed

lemma exec_dup: "exec_opcode CheckLowS flags checker sigversion OP_DUP True pc (s\<lparr>stack := st @ [a]\<rparr>) = Inr (False, s\<lparr>stack := st @ [a, a]\<rparr>)"
  by (simp add: exec_opcode_def stack_op_def op_dup_def need_def)

lemma exec_hash160:
  "exec_opcode CheckLowS flags checker sigversion OP_HASH160 True pc (s\<lparr>stack := st @ [a]\<rparr>) = Inr (False, s\<lparr>stack := st @ [rmd160 (sha256 a)]\<rparr>)"
  by (simp add: exec_opcode_def stack_op_def op_hash_def need_def hash_of_standard)

lemma exec_equalverify:
  "exec_opcode CheckLowS flags checker sigversion OP_EQUALVERIFY True pc (s\<lparr>stack := st @ [a, b]\<rparr>) =
     (if a = b then Inr (False, s\<lparr>stack := st\<rparr>) else Inl (Err SCRIPT_ERR_EQUALVERIFY))"
  by (simp add: exec_opcode_def stack_op_def op_equal_def need_def Let_def)

lemma exec_checksig:
  "exec_opcode CheckLowS flags checker sigversion OP_CHECKSIG True pc (s\<lparr>stack := st @ [sig, key]\<rparr>) =
     ebind (drop_signature flags sigversion sig (pbegincodehash s)) (\<lambda>scriptCode.
     ebind (CheckSignatureEncoding CheckLowS sig flags) (\<lambda>_.
     ebind (CheckPubKeyEncoding key flags sigversion) (\<lambda>_.
     ebind (asserted (CheckSig checker sig key scriptCode sigversion)) (\<lambda>fSuccess.
     if \<not> fSuccess \<and> on flags SCRIPT_VERIFY_NULLFAIL \<and> length sig \<noteq> 0 then Inl (Err SCRIPT_ERR_SIG_NULLFAIL)
     else Inr (False, s\<lparr>stack := st @ [bool_vch fSuccess]\<rparr>)))))"
  by (simp add: exec_opcode_def stack_op_def state_op_def op_checksig_def need_def Let_def ebind_def split: sum.split)

text \<open>A state of a script without branches.\<close>

definition eval_at :: "valtype list \<Rightarrow> int \<Rightarrow> CScript \<Rightarrow> eval_state" where
  "eval_at st n scr = (eval_start st scr)\<lparr>nOpCount := n\<rparr>"

lemma eval_at_simps [simp]:
  "stack (eval_at st n scr) = st" "altstack (eval_at st n scr) = []" "vfExec (eval_at st n scr) = []" "nOpCount (eval_at st n scr) = n"
  "pbegincodehash (eval_at st n scr) = scr" "(eval_at st n scr)\<lparr>nOpCount := m\<rparr> = eval_at st m scr" "(eval_at st n scr)\<lparr>stack := st'\<rparr> = eval_at st' n scr"
  by (simp_all add: eval_at_def eval_start_def)

lemma eval_loop_opcode:
  assumes "\<not> opcode \<le> OP_16" "\<not> disabled_opcode opcode" "opcode \<noteq> OP_CODESEPARATOR" "n < MAX_OPS_PER_SCRIPT"
    and "exec_opcode CheckLowS flags checker sigversion opcode True pc (eval_at st (n + 1) scr) = r"
  shows "eval_loop CheckLowS flags checker sigversion (opcode # pc) (eval_at st n scr) =
     ebind (ebind r (\<lambda>(return, s). if return then Inr (True, s)
        else if length (stack s) + length (altstack s) > MAX_STACK_SIZE then Inl (Err SCRIPT_ERR_STACK_SIZE)
        else Inr (False, s))) (\<lambda>(return, s'). if return then Inr (True, s') else eval_loop CheckLowS flags checker sigversion pc s')"
proof -
  have "\<not> opcode \<le> OP_PUSHDATA4" using assms(1) order_trans [of opcode OP_PUSHDATA4 OP_16] by auto
  then show ?thesis using assms by (simp add: eval_loop_step get_opcode eval_step_op)
qed

definition no_throw :: "'a run \<Rightarrow> bool" where
  "no_throw r \<longleftrightarrow> (\<forall>e. r \<noteq> Inl (Throw e))"

lemma catch_all_no_throw: "no_throw r \<Longrightarrow> catch_all r = r"
  by (auto simp: catch_all_def no_throw_def split: sum.split stop.split)

lemma no_throw_ebind: "no_throw r \<Longrightarrow> (\<And>a. no_throw (f a)) \<Longrightarrow> no_throw (ebind r f)"
  by (cases r) (auto simp: no_throw_def)

lemma no_throw_checks:
  "no_throw (drop_signature flags sigversion sig code)" "no_throw (CheckSignatureEncoding CheckLowS sig flags)"
  "no_throw (CheckPubKeyEncoding key flags sigversion)" "no_throw (asserted x)"
  by (auto simp: no_throw_def drop_signature_def CheckSignatureEncoding_def CheckPubKeyEncoding_def IsLowDERSignature_def asserted_def
      split: prod.splits sum.splits option.splits if_splits)

lemma ebind_assoc: "ebind (ebind r f) g = ebind r (\<lambda>a. ebind (f a) g)"
  by (cases r) simp_all

lemma eval_loop_push:
  assumes "1 < length d" "length d < 0x4c" "length st < MAX_STACK_SIZE"
  shows "eval_loop CheckLowS flags checker sigversion (of_nat (length d) # d @ pc) (eval_at st n scr) =
     eval_loop CheckLowS flags checker sigversion pc (eval_at (st @ [d]) n scr)"
proof -
  have g: "GetScriptOp (of_nat (length d) # d @ pc) = Some (of_nat (length d), d, pc)" by (rule get_push) (use assms in auto)
  show ?thesis
    unfolding eval_loop_step [OF g] by (subst eval_step_push) (use assms in \<open>simp_all add: push_def\<close>)
qed

lemma p2pkh_eval:
  assumes "length h = 20"
  shows "EvalScript CheckLowS [sig, key] (p2pkh h) flags checker sigversion =
    (if rmd160 (sha256 key) \<noteq> h then Inl (Err SCRIPT_ERR_EQUALVERIFY)
     else
       ebind (drop_signature flags sigversion sig (p2pkh h)) (\<lambda>scriptCode.
       ebind (CheckSignatureEncoding CheckLowS sig flags) (\<lambda>_.
       ebind (CheckPubKeyEncoding key flags sigversion) (\<lambda>_.
       ebind (asserted (CheckSig checker sig key scriptCode sigversion)) (\<lambda>fSuccess.
       if \<not> fSuccess \<and> on flags SCRIPT_VERIFY_NULLFAIL \<and> length sig \<noteq> 0 then Inl (Err SCRIPT_ERR_SIG_NULLFAIL)
       else Inr [bool_vch fSuccess])))))"
proof -
  let ?L = "eval_loop CheckLowS flags checker sigversion"
  let ?hash = "rmd160 (sha256 key)" and ?scr = "p2pkh h"
  have dup: "?L (OP_DUP # pc) (eval_at [sig, key] 0 ?scr) = ?L pc (eval_at [sig, key, key] 1 ?scr)" for pc
    using exec_dup [where s = "eval_at [] 1 ?scr" and st = "[sig]" and a = key]
    by (subst eval_loop_opcode [OF _ _ _ _ refl]) (simp_all add: disabled_opcode_def)
  have hash: "?L (OP_HASH160 # pc) (eval_at [sig, key, key] 1 ?scr) = ?L pc (eval_at [sig, key, ?hash] 2 ?scr)" for pc
    using exec_hash160 [where s = "eval_at [] 2 ?scr" and st = "[sig, key]" and a = key]
    by (subst eval_loop_opcode [OF _ _ _ _ refl]) (simp_all add: disabled_opcode_def)
  have push: "?L (0x14 # h @ pc) (eval_at [sig, key, ?hash] 2 ?scr) = ?L pc (eval_at [sig, key, ?hash, h] 2 ?scr)" for pc
    using eval_loop_push [of h "[sig, key, ?hash]" CheckLowS flags checker sigversion pc 2 ?scr] assms by simp
  have eq: "?L (OP_EQUALVERIFY # pc) (eval_at [sig, key, ?hash, h] 2 ?scr) =
      (if ?hash = h then ?L pc (eval_at [sig, key] 3 ?scr) else Inl (Err SCRIPT_ERR_EQUALVERIFY))" for pc
    using exec_equalverify [where s = "eval_at [] 3 ?scr" and st = "[sig, key]" and a = ?hash and b = h]
    by (subst eval_loop_opcode [OF _ _ _ _ refl]) (simp_all add: disabled_opcode_def)
  have cs: "?L [OP_CHECKSIG] (eval_at [sig, key] 3 ?scr) =
       ebind (drop_signature flags sigversion sig (p2pkh h)) (\<lambda>scriptCode.
       ebind (CheckSignatureEncoding CheckLowS sig flags) (\<lambda>_.
       ebind (CheckPubKeyEncoding key flags sigversion) (\<lambda>_.
       ebind (asserted (CheckSig checker sig key scriptCode sigversion)) (\<lambda>fSuccess.
       if \<not> fSuccess \<and> on flags SCRIPT_VERIFY_NULLFAIL \<and> length sig \<noteq> 0 then Inl (Err SCRIPT_ERR_SIG_NULLFAIL)
       else Inr (False, eval_at [bool_vch fSuccess] 4 ?scr)))))"
    using exec_checksig [where s = "eval_at [] 4 ?scr" and st = "[]" and sig = sig and key = key]
    by (subst eval_loop_opcode [OF _ _ _ _ refl]) (simp_all add: disabled_opcode_def ebind_def split: sum.split)
  have "?L ?scr (eval_at [sig, key] 0 ?scr) = (if ?hash = h then ?L [OP_CHECKSIG] (eval_at [sig, key] 3 ?scr) else Inl (Err SCRIPT_ERR_EQUALVERIFY))"
    unfolding p2pkh_def [of h] append_Cons append_Nil dup [unfolded p2pkh_def append_Cons append_Nil] hash [unfolded p2pkh_def append_Cons append_Nil]
      push [unfolded p2pkh_def append_Cons append_Nil] eq [unfolded p2pkh_def append_Cons append_Nil] ..
  moreover have "length ?scr \<le> MAX_SCRIPT_SIZE" using assms by (simp add: p2pkh_def)
  moreover have "eval_start [sig, key] ?scr = eval_at [sig, key] 0 ?scr" by (simp add: eval_at_def eval_start_def)
  moreover have "no_throw (?L [OP_CHECKSIG] (eval_at [sig, key] 3 ?scr))"
    unfolding cs by (intro no_throw_ebind no_throw_checks) (simp add: no_throw_def)
  ultimately have "EvalScript CheckLowS [sig, key] ?scr flags checker sigversion =
      (if ?hash \<noteq> h then Inl (Err SCRIPT_ERR_EQUALVERIFY)
       else ebind (?L [OP_CHECKSIG] (eval_at [sig, key] 3 ?scr)) (\<lambda>(return, s).
         if return then Inr (stack s) else if vfExec s \<noteq> [] then Inl (Err SCRIPT_ERR_UNBALANCED_CONDITIONAL) else Inr (stack s)))"
    unfolding EvalScript_def by (simp add: catch_all_no_throw) (simp add: catch_all_def)
  then show ?thesis
    unfolding cs by (simp add: ebind_assoc if_distrib [where f = "\<lambda>r. ebind r _"] cong: if_cong)
qed

lemma push_data_short: "length d < 0x4c \<Longrightarrow> push_data d = of_nat (length d) # d"
  by (simp add: push_data_def)

lemma strip_none: "b \<noteq> [] \<Longrightarrow> take (length b) pc \<noteq> b \<Longrightarrow> strip_prefixes b pc = (0, pc)"
  by (subst strip_prefixes.simps) simp

lemma fad_opcode: "b = x # bs \<Longrightarrow> x \<noteq> opcode \<Longrightarrow> \<not> opcode \<le> OP_PUSHDATA4 \<Longrightarrow>
   find_and_delete_loop b (opcode # pc) = (let (m, result) = find_and_delete_loop b pc in (m, opcode # result))"
  by (subst find_and_delete_loop.simps) (auto simp: strip_none get_opcode Let_def split: prod.split)

lemma fad_Nil: "b \<noteq> [] \<Longrightarrow> find_and_delete_loop b [] = (0, [])"
  by (subst find_and_delete_loop.simps) (simp add: strip_none GetScriptOp_def)

lemma p2pkh_not_deleted:
  assumes "length h = 20" "sig \<noteq> h" "1 < length sig" "length sig < 0x4c"
  shows "FindAndDelete (p2pkh h) (push_data sig) = (0, p2pkh h)"
proof -
  let ?b = "(of_nat (length sig) :: u8) # sig"
  have u: "unat (of_nat (length sig) :: u8) = length sig" using assms by (simp add: unat_of_nat take_bit_nat_eq_self)
  have n: "(of_nat (length sig) :: u8) \<noteq> x" if "0x4c \<le> unat x" for x using u assms(4) that by auto
  have c: "find_and_delete_loop ?b [OP_CHECKSIG] = (0, [OP_CHECKSIG])"
    by (subst fad_opcode) (auto simp: fad_Nil intro!: n)
  have e: "find_and_delete_loop ?b [OP_EQUALVERIFY, OP_CHECKSIG] = (0, [OP_EQUALVERIFY, OP_CHECKSIG])"
    by (subst fad_opcode) (auto simp: c intro!: n)
  have nh: "take (length ?b) (0x14 # h @ [OP_EQUALVERIFY, OP_CHECKSIG]) \<noteq> ?b"
  proof
    assume "take (length ?b) (0x14 # h @ [OP_EQUALVERIFY, OP_CHECKSIG]) = ?b"
    then have "(0x14 :: u8) = of_nat (length sig)" and t: "take (length sig) (h @ [OP_EQUALVERIFY, OP_CHECKSIG]) = sig" by simp_all
    then have "length sig = unat (0x14 :: u8)" using u by simp
    then have "length sig = 20" by simp
    then show False using t assms by simp
  qed
  have g: "GetScriptOp (0x14 # h @ [OP_EQUALVERIFY, OP_CHECKSIG]) = Some (0x14, h, [OP_EQUALVERIFY, OP_CHECKSIG])"
    using get_push [of h "[OP_EQUALVERIFY, OP_CHECKSIG]"] assms(1) by simp
  have h: "find_and_delete_loop ?b (0x14 # h @ [OP_EQUALVERIFY, OP_CHECKSIG]) = (0, 0x14 # h @ [OP_EQUALVERIFY, OP_CHECKSIG])"
    using strip_none [OF _ nh] g e by (subst find_and_delete_loop.simps) simp
  have "find_and_delete_loop ?b (p2pkh h) = (0, p2pkh h)"
    unfolding p2pkh_def append_Cons append_Nil by (subst fad_opcode, (auto intro!: n)[3], subst fad_opcode) (auto simp: h intro!: n)
  then show ?thesis using assms by (simp add: FindAndDelete_def push_data_short)
qed

lemma CastToBool_bool [simp]: "CastToBool vchTrue" "\<not> CastToBool vchFalse"
  by (simp_all add: vchTrue_def vchFalse_def)

lemma IsPushOnly_push: "0 < length d \<Longrightarrow> length d < 0x4c \<Longrightarrow> IsPushOnly (push_data d @ pc) \<longleftrightarrow> IsPushOnly pc"
proof -
  assume d: "0 < length d" "length d < 0x4c"
  have "\<not> (of_nat (length d) :: u8) > OP_16" using d by (simp add: word_less_nat_alt unat_of_nat take_bit_nat_eq_self)
  moreover have "GetScriptOp (push_data d @ pc) = Some (of_nat (length d), d, pc)" using get_push [OF d] d(2) by (simp add: push_data_short)
  moreover have "push_data d @ pc \<noteq> []" using d(2) by (simp add: push_data_short)
  ultimately show ?thesis by (subst IsPushOnly.simps) auto
qed

lemma eval_scriptSig:
  assumes "1 < length sig" "length sig < 0x4c" "1 < length key" "length key < 0x4c"
  shows "EvalScript CheckLowS [] (push_data sig @ push_data key) flags checker BASE = Inr [sig, key]"
proof -
  let ?scr = "push_data sig @ push_data key"
  have scr: "?scr = of_nat (length sig) # sig @ (of_nat (length key) # key @ [])" using assms by (simp add: push_data_short)
  have "eval_loop CheckLowS flags checker BASE ?scr (eval_at [] 0 ?scr) =
      eval_loop CheckLowS flags checker BASE (of_nat (length key) # key @ []) (eval_at ([] @ [sig]) 0 ?scr)"
    by (subst (1) scr, rule eval_loop_push) (use assms in simp_all)
  also have "\<dots> = eval_loop CheckLowS flags checker BASE [] (eval_at (([] @ [sig]) @ [key]) 0 ?scr)"
    by (rule eval_loop_push) (use assms in simp_all)
  finally have "eval_loop CheckLowS flags checker BASE ?scr (eval_start [] ?scr) = Inr (False, eval_at [sig, key] 0 ?scr)"
    by (simp add: eval_at_def eval_start_def)
  moreover have "length ?scr \<le> MAX_SCRIPT_SIZE" using scr assms by simp
  ultimately show ?thesis by (simp add: EvalScript_def catch_all_def)
qed

text \<open>The condition under which a signature and a key open a script, in either version.\<close>

definition opens :: "(bytes \<Rightarrow> bool) \<Rightarrow> u32 \<Rightarrow> signature_checker \<Rightarrow> SigVersion \<Rightarrow> CScript \<Rightarrow> bytes \<Rightarrow> valtype \<Rightarrow> valtype \<Rightarrow> bool" where
  "opens CheckLowS flags checker sigversion code h sig key \<longleftrightarrow>
     rmd160 (sha256 key) = h \<and> CheckSignatureEncoding CheckLowS sig flags = Inr () \<and> CheckPubKeyEncoding key flags sigversion = Inr () \<and>
     CheckSig checker sig key code sigversion = Some True"

lemma p2pkh_result:
  assumes "length h = 20" "drop_signature flags sigversion sig (p2pkh h) = Inr (p2pkh h)"
  shows "EvalScript CheckLowS [sig, key] (p2pkh h) flags checker sigversion = Inr [vchTrue] \<longleftrightarrow>
      opens CheckLowS flags checker sigversion (p2pkh h) h sig key"
    and "EvalScript CheckLowS [sig, key] (p2pkh h) flags checker sigversion = Inr st \<Longrightarrow> st = [vchTrue] \<or> st = [vchFalse]"
proof -
  note e = p2pkh_eval [OF assms(1), of CheckLowS sig key flags checker sigversion]
  show "EvalScript CheckLowS [sig, key] (p2pkh h) flags checker sigversion = Inr [vchTrue] \<longleftrightarrow>
      opens CheckLowS flags checker sigversion (p2pkh h) h sig key"
    unfolding e assms(2) opens_def
    by (auto simp: ebind_def asserted_def vchTrue_def vchFalse_def split: sum.splits option.splits if_splits)
  show "EvalScript CheckLowS [sig, key] (p2pkh h) flags checker sigversion = Inr st \<Longrightarrow> st = [vchTrue] \<or> st = [vchFalse]"
    unfolding e assms(2) by (auto simp: ebind_def split: sum.splits if_splits)
qed

lemma verify_p2pkh:
  assumes h: "length h = 20" and sig: "1 < length sig" "length sig < 0x4c" "sig \<noteq> h" and key: "1 < length key" "length key < 0x4c"
    and f: "on flags SCRIPT_VERIFY_CLEANSTACK \<Longrightarrow> on flags SCRIPT_VERIFY_WITNESS" "on flags SCRIPT_VERIFY_WITNESS \<Longrightarrow> on flags SCRIPT_VERIFY_P2SH"
  shows "VerifyScript CheckLowS (push_data sig @ push_data key) (p2pkh h) [] flags checker = Inr () \<longleftrightarrow>
    opens CheckLowS flags checker BASE (p2pkh h) h sig key"
proof -
  have d: "drop_signature flags BASE sig (p2pkh h) = Inr (p2pkh h)"
    using p2pkh_not_deleted [OF h sig(3,1,2)] by (simp add: drop_signature_def)
  have o: "IsPushOnly (push_data sig @ push_data key)"
  proof -
    have "0 < length sig" "0 < length key" using sig key by linarith+
    then show ?thesis using IsPushOnly_push [of sig "push_data key"] IsPushOnly_push [of key "[]"] sig key by (simp add: IsPushOnly.simps [of "[]"])
  qed
  have w: "IsWitnessProgram (p2pkh h) = None" "\<not> IsPayToScriptHash (p2pkh h)"
    using h by (simp_all add: IsWitnessProgram_def IsPayToScriptHash_def p2pkh_def)
  note r = p2pkh_result [OF h d, of CheckLowS key checker]
  show ?thesis
  proof (cases "EvalScript CheckLowS [sig, key] (p2pkh h) flags checker BASE")
    case (Inl e)
    then show ?thesis using r(1) o eval_scriptSig [OF sig(1,2) key] by (auto simp: VerifyScript_def eval_true_def)
  next
    case (Inr st)
    then consider "st = [vchTrue]" | "st = [vchFalse]" using r(2) by blast
    then show ?thesis
    proof cases
      case 1
      then show ?thesis using Inr r(1) o w eval_scriptSig [OF sig(1,2) key] f
        by (auto simp: VerifyScript_def eval_true_def witness_part_def)
    next
      case 2
      then have "\<not> opens CheckLowS flags checker BASE (p2pkh h) h sig key" using Inr r(1) by (auto simp: vchTrue_def vchFalse_def)
      then show ?thesis using 2 Inr o eval_scriptSig [OF sig(1,2) key] by (simp add: VerifyScript_def eval_true_def)
    qed
  qed
qed

text \<open>The witness program of a key hash: evaluating it leaves the hash.\<close>

definition p2wpkh :: "bytes \<Rightarrow> CScript" where
  "p2wpkh h = [OP_0, 0x14] @ h"

lemma eval_p2wpkh:
  assumes "length h = 20"
  shows "EvalScript CheckLowS [] (p2wpkh h) flags checker BASE = Inr [[], h]"
proof -
  let ?scr = "p2wpkh h"
  have g: "GetScriptOp ?scr = Some (OP_0, [], of_nat (length h) # h @ [])" using assms by (simp add: p2wpkh_def GetScriptOp_def)
  have "eval_step CheckLowS flags checker BASE OP_0 [] pc (eval_at [] 0 ?scr) = Inr (False, eval_at [[]] 0 ?scr)" for pc
    by (simp add: eval_step_def push_or_exec_def CheckMinimalPush_def disabled_opcode_def push_def)
  then have "eval_loop CheckLowS flags checker BASE ?scr (eval_at [] 0 ?scr) =
      eval_loop CheckLowS flags checker BASE (of_nat (length h) # h @ []) (eval_at [[]] 0 ?scr)"
    using g by (simp add: eval_loop_step)
  also have "\<dots> = eval_loop CheckLowS flags checker BASE [] (eval_at ([[]] @ [h]) 0 ?scr)"
    by (rule eval_loop_push) (use assms in simp_all)
  finally have "eval_loop CheckLowS flags checker BASE ?scr (eval_start [] ?scr) = Inr (False, eval_at [[], h] 0 ?scr)"
    by (simp add: eval_at_def eval_start_def)
  moreover have "length ?scr \<le> MAX_SCRIPT_SIZE" using assms by (simp add: p2wpkh_def)
  ultimately show ?thesis by (simp add: EvalScript_def catch_all_def)
qed

lemma verify_p2wpkh:
  assumes h: "length h = 20" "CastToBool h" and small: "length sig \<le> MAX_SCRIPT_ELEMENT_SIZE" "length key \<le> MAX_SCRIPT_ELEMENT_SIZE"
    and f: "on flags SCRIPT_VERIFY_WITNESS" "on flags SCRIPT_VERIFY_P2SH"
  shows "VerifyScript CheckLowS [] (p2wpkh h) [sig, key] flags checker = Inr () \<longleftrightarrow>
    opens CheckLowS flags checker WITNESS_V0 (p2pkh h) h sig key"
proof -
  have d: "drop_signature flags WITNESS_V0 sig (p2pkh h) = Inr (p2pkh h)" by (simp add: drop_signature_def)
  have o: "IsPushOnly []" by (simp add: IsPushOnly.simps)
  have w: "IsWitnessProgram (p2wpkh h) = Some (0, h)" "\<not> IsPayToScriptHash (p2wpkh h)"
    using h by (simp_all add: IsWitnessProgram_def IsPayToScriptHash_def p2wpkh_def DecodeOP_N_def)
  have e: "EvalScript CheckLowS [] [] flags checker BASE = Inr []" by (simp add: EvalScript_def eval_start_def catch_all_def)
  have p: "[OP_DUP] @ [OP_HASH160] @ push_data h @ [OP_EQUALVERIFY] @ [OP_CHECKSIG] = p2pkh h"
    using h(1) by (simp add: p2pkh_def push_data_short)
  have v: "VerifyWitnessProgram CheckLowS [sig, key] 0 h flags checker = Inr () \<longleftrightarrow> opens CheckLowS flags checker WITNESS_V0 (p2pkh h) h sig key"
    using p2pkh_result [OF h(1) d, of CheckLowS key checker] h(1) small
    by (cases "EvalScript CheckLowS [sig, key] (p2pkh h) flags checker WITNESS_V0")
      (auto simp: VerifyWitnessProgram_def p [simplified] vchTrue_def vchFalse_def)
  show ?thesis
    using v w o e h f eval_p2wpkh [OF h(1), of CheckLowS flags checker]
    by (cases "VerifyWitnessProgram CheckLowS [sig, key] 0 h flags checker")
      (auto simp: VerifyScript_def eval_true_def witness_part_def)
qed

section \<open>Signatures are DER\<close>

definition der_integer :: "bytes \<Rightarrow> bool" where
  "der_integer r \<longleftrightarrow> r \<noteq> [] \<and> r ! 0 AND 0x80 = 0 \<and> (length r > 1 \<and> r ! 0 = 0 \<longrightarrow> r ! 1 AND 0x80 \<noteq> 0)"

definition der_signature :: "bytes \<Rightarrow> bytes \<Rightarrow> bytes" where
  "der_signature R S = [0x30, of_nat (4 + length R + length S), 0x02, of_nat (length R)] @ R @ [0x02, of_nat (length S)] @ S"

lemma take4: "4 \<le> length xs \<Longrightarrow> take 4 xs = [xs ! 0, xs ! 1, xs ! 2, xs ! 3]"
  by (rule nth_equalityI) (auto simp: less_Suc_eq numeral_eq_Suc nth_Cons split: nat.split)

lemma take2: "2 \<le> length xs \<Longrightarrow> take 2 xs = [xs ! 0, xs ! 1]"
  by (rule nth_equalityI) (auto simp: less_Suc_eq numeral_eq_Suc nth_Cons split: nat.split)

lemma unat_byte: "n < 256 \<Longrightarrow> unat (of_nat n :: u8) = n"
  by (simp add: unat_of_nat take_bit_nat_eq_self)

lemma valid_signature_parts:
  assumes "IsValidSignatureEncoding sig b"
  shows "\<exists>R S rest. sig = der_signature R S @ rest \<and> length rest = (if b then 1 else 0) \<and> der_integer R \<and> der_integer S"
proof -
  define lenR where "lenR = unat (sig ! 3)"
  define lenS where "lenS = unat (sig ! (5 + lenR))"
  have v: "9 \<le> length sig" "length sig \<le> 73" "sig ! 0 = 0x30" "unat (sig ! 1) = length sig - (if b then 3 else 2)"
    "lenR + lenS + (if b then 7 else 6) = length sig" "sig ! 2 = 0x02" "lenR \<noteq> 0" "sig ! 4 AND 0x80 = 0"
    "lenR > 1 \<and> sig ! 4 = 0x00 \<longrightarrow> sig ! 5 AND 0x80 \<noteq> 0" "sig ! (lenR + 4) = 0x02" "lenS \<noteq> 0" "sig ! (lenR + 6) AND 0x80 = 0"
    "lenS > 1 \<and> sig ! (lenR + 6) = 0x00 \<longrightarrow> sig ! (lenR + 7) AND 0x80 \<noteq> 0"
    using assms unfolding IsValidSignatureEncoding_def Let_def lenR_def lenS_def by (simp_all split: if_split_asm)
  define R where "R = take lenR (drop 4 sig)"
  define S where "S = take lenS (drop (6 + lenR) sig)"
  define rest where "rest = drop (6 + lenR + lenS) sig"
  have len: "length R = lenR" "length S = lenS" "length rest = (if b then 1 else 0)" using v(5) by (auto simp: R_def S_def rest_def min_def split: if_splits)
  have "sig = take 4 sig @ R @ take 2 (drop (4 + lenR) sig) @ S @ rest"
  proof -
    have c: "drop a sig = take n (drop a sig) @ drop (a + n) sig" for a n using append_take_drop_id [of n "drop a sig"] by (simp add: add.commute)
    have "sig = take 4 sig @ drop 4 sig" by simp
    also have "drop 4 sig = R @ drop (4 + lenR) sig" unfolding R_def by (rule c)
    also have "drop (4 + lenR) sig = take 2 (drop (4 + lenR) sig) @ drop (6 + lenR) sig" using c [of "4 + lenR" 2] by (simp add: add.commute)
    also have "drop (6 + lenR) sig = S @ rest" unfolding S_def rest_def by (rule c)
    finally show ?thesis .
  qed
  moreover have "take 4 sig = [0x30, of_nat (4 + length R + length S), 0x02, of_nat (length R)]"
  proof -
    have "unat (sig ! 1) = 4 + length R + length S" using v(4,5) len by (auto split: if_splits)
    then have "sig ! 1 = of_nat (4 + length R + length S)" 
      using len v(2,5) by (intro word_unat_eq_iff [THEN iffD2]) (simp only: unat_byte)
    moreover have "sig ! 3 = of_nat (length R)" using len lenR_def by simp
    ultimately show ?thesis using take4 [of sig] v(1,3,6) by simp
  qed
  moreover have "take 2 (drop (4 + lenR) sig) = [0x02, of_nat (length S)]"
  proof -
    have "2 \<le> length (drop (4 + lenR) sig)" using v(5) by (auto split: if_splits)
    then show ?thesis using take2 [of "drop (4 + lenR) sig"] v(5,10) len lenS_def by (simp add: add.commute)
  qed
  ultimately have "sig = der_signature R S @ rest" by (simp add: der_signature_def)
  moreover have "der_integer R" "der_integer S"
    using v len by (auto simp: der_integer_def R_def S_def add.commute split: if_splits)
  ultimately show ?thesis using len(3) by blast
qed

lemma parts_valid_signature:
  assumes "sig = der_signature R S @ rest" "length rest = (if b then 1 else 0)" "der_integer R" "der_integer S" "9 \<le> length sig" "length sig \<le> 73"
  shows "IsValidSignatureEncoding sig b"
proof -
  have l: "length sig = 6 + length R + length S + length rest" by (simp add: assms(1) der_signature_def)
  have u: "unat (of_nat (length R) :: u8) = length R" "unat (of_nat (length S) :: u8) = length S"
    "unat (of_nat (4 + length R + length S) :: u8) = 4 + length R + length S"
    using l assms(6) by (simp_all only: unat_byte)
  have n: "sig ! 0 = 0x30" "sig ! 1 = of_nat (4 + length R + length S)" "sig ! 2 = 0x02" "sig ! 3 = of_nat (length R)"
    "sig ! (length R + 4) = 0x02" "sig ! (5 + length R) = of_nat (length S)" by (simp_all add: assms(1) der_signature_def nth_append)
  have R: "sig ! (4 + i) = R ! i" if "i < length R" for i using that by (simp add: assms(1) der_signature_def nth_append)
  have S: "sig ! (length R + (6 + i)) = S ! i" if "i < length S" for i using that by (simp add: assms(1) der_signature_def nth_append)
  have d: "length R \<noteq> 0" "length S \<noteq> 0" "sig ! 4 AND 0x80 = 0" "sig ! (length R + 6) AND 0x80 = 0"
    "length R > 1 \<and> sig ! 4 = 0 \<longrightarrow> sig ! 5 AND 0x80 \<noteq> 0" "length S > 1 \<and> sig ! (length R + 6) = 0 \<longrightarrow> sig ! (length R + 7) AND 0x80 \<noteq> 0"
    using assms(3,4) R [of 0] R [of 1] S [of 0] S [of 1] by (auto simp: der_integer_def)
  show ?thesis
    unfolding IsValidSignatureEncoding_def Let_def n u using d l assms(2,5,6) u(3) by (simp split: if_split_asm)
qed

section \<open>Properties of the interpreter\<close>



text \<open>
  C18: Property: the resources of a script are bounded.  From a stack within the limits, a successful evaluation
  leaves at most one element more than \<open>MAX_STACK_SIZE\<close>, all but the last within \<open>MAX_SCRIPT_ELEMENT_SIZE\<close>; the
  last may be the rest of the script that \<open>OP_CREATE\<close> and \<open>OP_CALL\<close> push, which has at most \<open>MAX_SCRIPT_SIZE\<close> bytes.
\<close>

theorem script_resources_bounded:
  assumes "total_checker checker" "length st \<le> MAX_STACK_SIZE" "\<forall>v \<in> set st. length v \<le> MAX_SCRIPT_ELEMENT_SIZE"
    and "EvalScript CheckLowS st scr flags checker sigversion = Inr st'"
  shows "length st' \<le> MAX_STACK_SIZE + 1 \<and> (\<forall>v \<in> set (butlast st'). length v \<le> MAX_SCRIPT_ELEMENT_SIZE) \<and>
    (\<forall>v \<in> set st'. length v \<le> MAX_SCRIPT_SIZE)"
proof -
  have "list_all (small 0) st" using assms(3) by (simp add: list_all_iff small_def)
  then have "final_stack MAX_SCRIPT_SIZE 0 0 st'"
    using EvalScript_ok(2) [OF assms(1), of 0 st 0 CheckLowS scr flags sigversion] assms(2,4) by (simp add: wp_def)
  then obtain st0 rest where r: "st' = st0 @ rest" "length st0 \<le> MAX_STACK_SIZE" "rest = [] \<or> (\<exists>v. rest = [v] \<and> length v \<le> MAX_SCRIPT_SIZE)"
    and small: "\<forall>v \<in> set st0. length v \<le> MAX_SCRIPT_ELEMENT_SIZE"
    by (auto simp: final_stack_def list_all_iff small_def)
  have "\<forall>v \<in> set st0. length v \<le> MAX_SCRIPT_SIZE" using small by fastforce
  then show ?thesis using r small by (auto simp: butlast_append dest: in_set_butlastD)
qed

theorem script_resources_bounded_witness:
  "\<exists>st'. EvalScript (\<lambda>_. True) [] [OP_CREATE, 7] 0 BaseSignatureChecker BASE = Inr st' \<and> length st' = 1 \<and>
     (\<forall>v \<in> set st'. length v \<le> MAX_SCRIPT_SIZE)"
proof -
  have t: "total_checker BaseSignatureChecker" by (simp add: total_checker_def BaseSignatureChecker_def)
  have "eval_loop (\<lambda>_. True) 0 BaseSignatureChecker BASE [OP_CREATE, 7] (eval_start [] [OP_CREATE, 7]) =
      Inr (True, (eval_start [[OP_CREATE, 7]] [OP_CREATE, 7])\<lparr>nOpCount := 1\<rparr>)"
    by (subst eval_loop.simps) (simp add: GetScriptOp_def eval_step_def eval_start_def disabled_opcode_def push_or_exec_def exec_opcode_def stack_op_def push_def)
  then have e: "EvalScript (\<lambda>_. True) [] [OP_CREATE, 7] 0 BaseSignatureChecker BASE = Inr [[OP_CREATE, 7]]"
    by (simp add: EvalScript_def catch_all_def eval_start_def)
  show ?thesis using script_resources_bounded [OF t _ _ e] e by auto
qed

text \<open>
  C7: Property: a payment to the hash of a key is spent exactly with that key and a signature.  A script with a
  signature and a key is accepted against a key hash, as an input script or as a witness, exactly if the key
  has this hash, both encodings are allowed by the flags and the checker accepts the signature for the
  script of the output.
\<close>

theorem key_hash_payment_spent_by_key:
  assumes "length h = 20" "1 < length sig" "length sig < 0x4c" "sig \<noteq> h" "1 < length key" "length key < 0x4c"
    and "on flags SCRIPT_VERIFY_WITNESS" "on flags SCRIPT_VERIFY_P2SH"
  shows "(VerifyScript CheckLowS (push_data sig @ push_data key) (p2pkh h) [] flags checker = Inr () \<longleftrightarrow>
      opens CheckLowS flags checker BASE (p2pkh h) h sig key) \<and>
    (CastToBool h \<longrightarrow> (VerifyScript CheckLowS [] (p2wpkh h) [sig, key] flags checker = Inr () \<longleftrightarrow>
      opens CheckLowS flags checker WITNESS_V0 (p2pkh h) h sig key))"
proof -
  have "VerifyScript CheckLowS (push_data sig @ push_data key) (p2pkh h) [] flags checker = Inr () \<longleftrightarrow>
      opens CheckLowS flags checker BASE (p2pkh h) h sig key"
    by (rule verify_p2pkh) (use assms in simp_all)
  moreover have "VerifyScript CheckLowS [] (p2wpkh h) [sig, key] flags checker = Inr () \<longleftrightarrow>
      opens CheckLowS flags checker WITNESS_V0 (p2pkh h) h sig key" if "CastToBool h"
    by (rule verify_p2wpkh) (use assms that in simp_all)
  ultimately show ?thesis by blast
qed

theorem key_hash_payment_spent_by_key_witness:
  "VerifyScript (\<lambda>_. True) (push_data (replicate 9 1) @ push_data (replicate 33 2)) (p2pkh (rmd160 (sha256 (replicate 33 2)))) [] 0x801
     (BaseSignatureChecker\<lparr>CheckSig := \<lambda>sig key code v. Some (key = replicate 33 2)\<rparr>) = Inr ()"
proof -
  let ?h = "rmd160 (sha256 (replicate 33 2))" and ?sig = "replicate 9 1 :: valtype" and ?key = "replicate 33 2 :: valtype"
    and ?c = "BaseSignatureChecker\<lparr>CheckSig := \<lambda>sig key code v. Some (key = replicate 33 2)\<rparr>"
  have "?sig \<noteq> ?h"
  proof
    assume "?sig = ?h"
    then have "length ?sig = length ?h" by (rule arg_cong)
    then show False by simp
  qed
  moreover have "opens (\<lambda>_. True) 0x801 ?c BASE (p2pkh ?h) ?h ?sig ?key"
    by (simp add: opens_def CheckSignatureEncoding_def CheckPubKeyEncoding_def)
  ultimately show ?thesis using key_hash_payment_spent_by_key [where h = ?h and sig = ?sig and key = ?key and flags = "0x801" and CheckLowS = "\<lambda>_. True" and checker = ?c] by simp
qed

text \<open>
  C14: Property: the check of signature encodings accepts exactly strict DER.  \<open>IsValidSignatureEncoding\<close>, which
  tests bytes at computed positions, holds exactly of the encodings of two positive integers without superfluous
  leading zeros, followed by the hash type if there is one, of at least nine and at most 73 bytes.
\<close>

theorem signature_encoding_is_strict_DER:
  "IsValidSignatureEncoding sig haveHashType \<longleftrightarrow>
     (\<exists>R S rest. sig = der_signature R S @ rest \<and> length rest = (if haveHashType then 1 else 0) \<and> der_integer R \<and> der_integer S \<and>
        9 \<le> length sig \<and> length sig \<le> 73)"
proof
  assume v: "IsValidSignatureEncoding sig haveHashType"
  then have "9 \<le> length sig" "length sig \<le> 73" by (simp_all add: IsValidSignatureEncoding_def split: if_split_asm)
  then show "\<exists>R S rest. sig = der_signature R S @ rest \<and> length rest = (if haveHashType then 1 else 0) \<and> der_integer R \<and> der_integer S \<and>
        9 \<le> length sig \<and> length sig \<le> 73" using valid_signature_parts [OF v] by blast
qed (use parts_valid_signature in blast)

end
