(* ===== verification/SigHash.thy ===== *)
theory SigHash
  imports Interpreter
begin

text \<open>
  Signature hashes and the signature checkers of transactions, the second half of
  \<open>script/interpreter.cpp\<close>: the legacy digest with its in-place serializer, the digest of witness
  programs (version 0), the digest that the sender of a contract output signs, the data computed in advance for
  a transaction, and the checkers of inputs and of outputs.  The old digest of \<open>test/sighash_tests.cpp\<close>, which copies
  the transaction and edits it, is the reference for the legacy one.

  Verification of an ECDSA signature (libsecp256k1) is the parameter \<open>Verify\<close>, with the bytes of the
  key, the digest and the signature.  \<open>None\<close> is a failed assertion or an access out of range.
\<close>

unbundle bit_operations_syntax

section \<open>The legacy digest\<close>

abbreviation (input) fAnyoneCanPay :: "int \<Rightarrow> bool" where "fAnyoneCanPay nHashType \<equiv> nHashType AND SIGHASH_ANYONECANPAY \<noteq> 0"
abbreviation (input) fHashSingle :: "int \<Rightarrow> bool" where "fHashSingle nHashType \<equiv> nHashType AND 0x1f = SIGHASH_SINGLE"
abbreviation (input) fHashNone :: "int \<Rightarrow> bool" where "fHashNone nHashType \<equiv> nHashType AND 0x1f = SIGHASH_NONE"

text \<open>Where the iterator stands after \<open>GetScriptOp\<close> has returned false: behind the opcode and a complete length.\<close>

definition GetScriptOp_failed :: "bytes \<Rightarrow> bytes" where
  "GetScriptOp_failed pc = (case pc of [] \<Rightarrow> [] | opcode # pc \<Rightarrow>
     if opcode < OP_PUSHDATA1 then pc
     else if opcode = OP_PUSHDATA1 then (if length pc < 1 then pc else drop 1 pc)
     else if opcode = OP_PUSHDATA2 then (if length pc < 2 then pc else drop 2 pc)
     else (if length pc < 4 then pc else drop 4 pc))"

function count_separators :: "CScript \<Rightarrow> u32 \<Rightarrow> u32" where
  "count_separators it nCodeSeparators = (case GetScriptOp it of None \<Rightarrow> nCodeSeparators
     | Some (opcode, vch, it') \<Rightarrow>
         count_separators it' (if opcode = OP_CODESEPARATOR then nCodeSeparators + 1 else nCodeSeparators))"
  by pat_completeness auto
termination by (relation "measure (\<lambda>(it, n). length it)") (auto dest: GetScriptOp_less)

function write_chunks :: "CScript \<Rightarrow> CScript \<Rightarrow> bytes" where
  "write_chunks itBegin it = (case GetScriptOp it of
       None \<Rightarrow> (if itBegin \<noteq> [] then take (length itBegin - length (GetScriptOp_failed it)) itBegin else [])
     | Some (opcode, vch, it') \<Rightarrow>
         if opcode = OP_CODESEPARATOR then take (length itBegin - length it' - 1) itBegin @ write_chunks it' it'
         else write_chunks itBegin it')"
  by pat_completeness auto
termination by (relation "measure (\<lambda>(b, it). length it)") (auto dest: GetScriptOp_less)

declare count_separators.simps [simp del] write_chunks.simps [simp del]

definition SerializeScriptCode :: "CScript \<Rightarrow> bytes" where
  "SerializeScriptCode scriptCode =
     WriteCompactSize (of_nat (length scriptCode) - ucast (count_separators scriptCode 0)) @ write_chunks scriptCode scriptCode"

definition SerializeInput :: "CScript \<Rightarrow> CTransaction \<Rightarrow> u32 \<Rightarrow> int \<Rightarrow> u32 \<Rightarrow> bytes" where
  "SerializeInput scriptCode txTo nIn nHashType nInput =
     (let nInput = (if fAnyoneCanPay nHashType then nIn else nInput); txin = vin txTo ! unat nInput in
      Serialize_outpoint (prevout txin) @
      (if nInput \<noteq> nIn then Serialize_bytes [] else SerializeScriptCode scriptCode) @
      (if nInput \<noteq> nIn \<and> (fHashSingle nHashType \<or> fHashNone nHashType) then Serialize_int32 0 else ser_writedata32 (nSequence txin)))"

definition SerializeOutput :: "CTransaction \<Rightarrow> u32 \<Rightarrow> int \<Rightarrow> u32 \<Rightarrow> bytes" where
  "SerializeOutput txTo nIn nHashType nOutput =
     (if fHashSingle nHashType \<and> nOutput \<noteq> nIn then Serialize_txout CTxOut_null else Serialize_txout (vout txTo ! unat nOutput))"

text \<open>The loops count in 32 bits, as the code does.\<close>

definition SerializeSignature :: "CScript \<Rightarrow> CTransaction \<Rightarrow> u32 \<Rightarrow> int \<Rightarrow> bytes" where
  "SerializeSignature scriptCode txTo nIn nHashType =
     (let nInputs = (if fAnyoneCanPay nHashType then 1 else of_nat (length (vin txTo)) :: u32);
          nOutputs = (if fHashNone nHashType then 0 else if fHashSingle nHashType then nIn + 1 else of_nat (length (vout txTo)) :: u32)
      in Serialize_int32 (nVersion txTo) @
         WriteCompactSize (ucast nInputs) @
         concat (map (\<lambda>nInput. SerializeInput scriptCode txTo nIn nHashType (of_nat nInput)) [0..<unat nInputs]) @
         WriteCompactSize (ucast nOutputs) @
         concat (map (\<lambda>nOutput. SerializeOutput txTo nIn nHashType (of_nat nOutput)) [0..<unat nOutputs]) @
         ser_writedata32 (nLockTime txTo))"

section \<open>Parts of the digests that are computed in advance\<close>

definition GetPrevoutHash :: "CTransaction \<Rightarrow> uint256" where
  "GetPrevoutHash txTo = SerializeHash (map (\<lambda>txin. Serialize_outpoint (prevout txin)) (vin txTo))"

definition GetSequenceHash :: "CTransaction \<Rightarrow> uint256" where
  "GetSequenceHash txTo = SerializeHash (map (\<lambda>txin. ser_writedata32 (nSequence txin)) (vin txTo))"

definition GetFirstPrevoutHash :: "CTransaction \<Rightarrow> uint256" where
  "GetFirstPrevoutHash txTo = SerializeHash [Serialize_outpoint (prevout (vin txTo ! 0))]"

definition GetFirstSequenceHash :: "CTransaction \<Rightarrow> uint256" where
  "GetFirstSequenceHash txTo = SerializeHash [ser_writedata32 (nSequence (vin txTo ! 0))]"

definition GetOutputsHash :: "CTransaction \<Rightarrow> uint256" where
  "GetOutputsHash txTo = SerializeHash (map Serialize_txout (vout txTo))"

definition GetOutputWithoutSenderSig :: "CTxOut \<Rightarrow> CTxOut option" where
  "GetOutputWithoutSenderSig output =
     (case WithoutSenderSig (scriptPubKey output) of Inl e \<Rightarrow> None
      | Inr scr \<Rightarrow> Some \<lparr>nValue = nValue output, scriptPubKey = scr\<rparr>)"

primrec opsender_pieces :: "CTxOut list \<Rightarrow> bytes list option" where
  "opsender_pieces [] = Some []"
| "opsender_pieces (txout # outs) =
     (case (if HasOpSender (scriptPubKey txout) then GetOutputWithoutSenderSig txout else Some txout) of None \<Rightarrow> None
      | Some out' \<Rightarrow> map_option ((#) (Serialize_txout out')) (opsender_pieces outs))"

definition GetOutputsOpSenderHash :: "CTransaction \<Rightarrow> uint256 option" where
  "GetOutputsOpSenderHash txTo = map_option SerializeHash (opsender_pieces (vout txTo))"

record PrecomputedTransactionData =
  hashPrevouts :: uint256
  hashSequence :: uint256
  hashOutputs :: uint256
  hashOutputsOpSender :: uint256
  ready :: bool

definition PrecomputedTransactionData_of :: "CTransaction \<Rightarrow> PrecomputedTransactionData option" where
  "PrecomputedTransactionData_of txTo =
     (let cache = \<lparr>hashPrevouts = uint256_null, hashSequence = uint256_null, hashOutputs = uint256_null,
                   hashOutputsOpSender = uint256_null, ready = False\<rparr> in
      if HasWitness txTo \<or> tx_HasOpSender txTo then
        let cache = cache\<lparr>hashPrevouts := GetPrevoutHash txTo, hashSequence := GetSequenceHash txTo, hashOutputs := GetOutputsHash txTo\<rparr> in
        (case (if tx_HasOpSender txTo then GetOutputsOpSenderHash txTo else Some (hashOutputsOpSender cache)) of None \<Rightarrow> None
         | Some h \<Rightarrow> Some (cache\<lparr>hashOutputsOpSender := h, ready := True\<rparr>))
      else Some cache)"

abbreviation (input) cacheready :: "PrecomputedTransactionData option \<Rightarrow> bool" where
  "cacheready cache \<equiv> cache \<noteq> None \<and> ready (the cache)"

section \<open>The digests\<close>

definition SignatureHashOutput ::
    "CScript \<Rightarrow> CTransaction \<Rightarrow> u32 \<Rightarrow> int \<Rightarrow> int \<Rightarrow> SigVersion \<Rightarrow> PrecomputedTransactionData option \<Rightarrow> uint256 option" where
  "SignatureHashOutput scriptCode txTo nOut nHashType amount sigversion cache =
     (if \<not> unat nOut < length (vout txTo) then None
      else if fAnyoneCanPay nHashType \<and> \<not> 0 < length (vin txTo) then None
      else
        let hPrevouts = (if fAnyoneCanPay nHashType then GetFirstPrevoutHash txTo
                         else if cacheready cache then hashPrevouts (the cache) else GetPrevoutHash txTo);
            hSequence = (if fAnyoneCanPay nHashType then GetFirstSequenceHash txTo
                         else if \<not> fHashSingle nHashType \<and> \<not> fHashNone nHashType then
                           (if cacheready cache then hashSequence (the cache) else GetSequenceHash txTo)
                         else uint256_null)
        in Option.bind (GetOutputWithoutSenderSig (vout txTo ! unat nOut)) (\<lambda>txout.
           Option.bind (if \<not> fHashSingle nHashType \<and> \<not> fHashNone nHashType then
                          (if cacheready cache then Some (hashOutputsOpSender (the cache)) else GetOutputsOpSenderHash txTo)
                        else if fHashSingle nHashType \<and> unat nOut < length (vout txTo) then Some (SerializeHash [Serialize_txout txout])
                        else Some uint256_null) (\<lambda>hOutputs.
           Some (SerializeHash
             [Serialize_int32 (nVersion txTo), Serialize_uint256 hPrevouts, Serialize_uint256 hSequence,
              Serialize_txout txout, Serialize_bytes scriptCode, Serialize_int64 amount,
              Serialize_uint256 hOutputs, ser_writedata32 (nLockTime txTo), Serialize_int32 nHashType]))))"

text \<open>The digest of witness programs.\<close>

definition SignatureHash_witness ::
    "CScript \<Rightarrow> CTransaction \<Rightarrow> u32 \<Rightarrow> int \<Rightarrow> int \<Rightarrow> PrecomputedTransactionData option \<Rightarrow> uint256" where
  "SignatureHash_witness scriptCode txTo nIn nHashType amount cache =
     (let hPrevouts = (if \<not> fAnyoneCanPay nHashType then
                         (if cacheready cache then hashPrevouts (the cache) else GetPrevoutHash txTo) else uint256_null);
          hSequence = (if \<not> fAnyoneCanPay nHashType \<and> \<not> fHashSingle nHashType \<and> \<not> fHashNone nHashType then
                         (if cacheready cache then hashSequence (the cache) else GetSequenceHash txTo) else uint256_null);
          hOutputs = (if \<not> fHashSingle nHashType \<and> \<not> fHashNone nHashType then
                        (if cacheready cache then hashOutputs (the cache) else GetOutputsHash txTo)
                      else if fHashSingle nHashType \<and> unat nIn < length (vout txTo) then
                        SerializeHash [Serialize_txout (vout txTo ! unat nIn)]
                      else uint256_null)
      in SerializeHash
           [Serialize_int32 (nVersion txTo), Serialize_uint256 hPrevouts, Serialize_uint256 hSequence,
            Serialize_outpoint (prevout (vin txTo ! unat nIn)), Serialize_bytes scriptCode, Serialize_int64 amount,
            ser_writedata32 (nSequence (vin txTo ! unat nIn)), Serialize_uint256 hOutputs,
            ser_writedata32 (nLockTime txTo), Serialize_int32 nHashType])"

definition uint256_one :: uint256 where
  "uint256_one = 1 # replicate 31 0"

definition SignatureHash ::
    "CScript \<Rightarrow> CTransaction \<Rightarrow> u32 \<Rightarrow> int \<Rightarrow> int \<Rightarrow> SigVersion \<Rightarrow> PrecomputedTransactionData option \<Rightarrow> uint256 option" where
  "SignatureHash scriptCode txTo nIn nHashType amount sigversion cache =
     (if \<not> unat nIn < length (vin txTo) then None
      else if sigversion = WITNESS_V0 then Some (SignatureHash_witness scriptCode txTo nIn nHashType amount cache)
      else if fHashSingle nHashType \<and> unat nIn \<ge> length (vout txTo) then Some uint256_one
      else Some (SerializeHash [SerializeSignature scriptCode txTo nIn nHashType, Serialize_int32 nHashType]))"

section \<open>The signature checkers\<close>

definition GetLen :: "u8 \<Rightarrow> nat" where
  "GetLen chHeader = (if chHeader = 2 \<or> chHeader = 3 then 33 else if chHeader = 4 \<or> chHeader = 6 \<or> chHeader = 7 then 65 else 0)"

text \<open>A key keeps its bytes, or only the header that marks it as invalid.\<close>

definition CPubKey :: "bytes \<Rightarrow> bytes" where
  "CPubKey v = (let len = (if v = [] then 0 else GetLen (hd v)) in if len \<noteq> 0 \<and> len = length v then v else [0xff])"

definition pubkey_IsValid :: "bytes \<Rightarrow> bool" where
  "pubkey_IsValid pubkey = (GetLen (hd pubkey) > 0)"

definition tx_CheckSig :: "(bytes \<Rightarrow> uint256 \<Rightarrow> bytes \<Rightarrow> bool) \<Rightarrow> CTransaction \<Rightarrow> u32 \<Rightarrow> int \<Rightarrow> PrecomputedTransactionData option \<Rightarrow>
    valtype \<Rightarrow> valtype \<Rightarrow> CScript \<Rightarrow> SigVersion \<Rightarrow> bool option" where
  "tx_CheckSig Verify txTo nIn amount txdata vchSigIn vchPubKey scriptCode sigversion =
     (if \<not> pubkey_IsValid (CPubKey vchPubKey) then Some False
      else if vchSigIn = [] then Some False
      else map_option (\<lambda>sighash. Verify (CPubKey vchPubKey) sighash (butlast vchSigIn))
             (SignatureHash scriptCode txTo nIn (uint (last vchSigIn)) amount sigversion txdata))"

definition tx_CheckLockTime :: "CTransaction \<Rightarrow> u32 \<Rightarrow> CScriptNum \<Rightarrow> bool option" where
  "tx_CheckLockTime txTo nIn n =
     (if \<not> ((nLockTime txTo < LOCKTIME_THRESHOLD \<and> n < uint LOCKTIME_THRESHOLD) \<or>
             (nLockTime txTo \<ge> LOCKTIME_THRESHOLD \<and> n \<ge> uint LOCKTIME_THRESHOLD)) then Some False
      else if n > uint (nLockTime txTo) then Some False
      else if \<not> unat nIn < length (vin txTo) then None
      else if SEQUENCE_FINAL = nSequence (vin txTo ! unat nIn) then Some False
      else Some True)"

definition tx_CheckSequence :: "CTransaction \<Rightarrow> u32 \<Rightarrow> CScriptNum \<Rightarrow> bool option" where
  "tx_CheckSequence txTo nIn n =
     (if \<not> unat nIn < length (vin txTo) then None
      else let txToSequence = uint (nSequence (vin txTo ! unat nIn)) in
        if (of_int (nVersion txTo) :: u32) < 2 then Some False
        else if txToSequence AND uint SEQUENCE_LOCKTIME_DISABLE_FLAG \<noteq> 0 then Some False
        else let nLockTimeMask = uint (SEQUENCE_LOCKTIME_TYPE_FLAG OR SEQUENCE_LOCKTIME_MASK);
                 txToSequenceMasked = txToSequence AND nLockTimeMask;
                 nSequenceMasked = n AND nLockTimeMask;
                 flag = uint SEQUENCE_LOCKTIME_TYPE_FLAG in
          if \<not> ((txToSequenceMasked < flag \<and> nSequenceMasked < flag) \<or> (txToSequenceMasked \<ge> flag \<and> nSequenceMasked \<ge> flag)) then Some False
          else if nSequenceMasked > txToSequenceMasked then Some False
          else Some True)"

definition TransactionSignatureChecker ::
    "(bytes \<Rightarrow> uint256 \<Rightarrow> bytes \<Rightarrow> bool) \<Rightarrow> CTransaction \<Rightarrow> u32 \<Rightarrow> int \<Rightarrow> PrecomputedTransactionData option \<Rightarrow> signature_checker" where
  "TransactionSignatureChecker Verify txTo nIn amount txdata =
     \<lparr>CheckSig = tx_CheckSig Verify txTo nIn amount txdata, CheckLockTime = tx_CheckLockTime txTo nIn, CheckSequence = tx_CheckSequence txTo nIn\<rparr>"

definition out_CheckSig :: "(bytes \<Rightarrow> uint256 \<Rightarrow> bytes \<Rightarrow> bool) \<Rightarrow> CTransaction \<Rightarrow> u32 \<Rightarrow> int \<Rightarrow> PrecomputedTransactionData option \<Rightarrow>
    valtype \<Rightarrow> valtype \<Rightarrow> CScript \<Rightarrow> SigVersion \<Rightarrow> bool option" where
  "out_CheckSig Verify txTo nOut amount txdata vchSigIn vchPubKey scriptCode sigversion =
     (if \<not> pubkey_IsValid (CPubKey vchPubKey) then Some False
      else if vchSigIn = [] then Some False
      else map_option (\<lambda>sighash. Verify (CPubKey vchPubKey) sighash (butlast vchSigIn))
             (SignatureHashOutput scriptCode txTo nOut (uint (last vchSigIn)) amount sigversion txdata))"

definition TransactionSignatureOutputChecker ::
    "(bytes \<Rightarrow> uint256 \<Rightarrow> bytes \<Rightarrow> bool) \<Rightarrow> CTransaction \<Rightarrow> u32 \<Rightarrow> int \<Rightarrow> PrecomputedTransactionData option \<Rightarrow> signature_checker" where
  "TransactionSignatureOutputChecker Verify txTo nOut amount txdata =
     BaseSignatureChecker\<lparr>CheckSig := out_CheckSig Verify txTo nOut amount txdata\<rparr>"

section \<open>The old digest\<close>

text \<open>
  The test suite's reference: copy the transaction, remove the separators from the script, blank what the hash type
  does not cover, and hash the ordinary serialization without witness.
\<close>

definition free_sequences :: "nat \<Rightarrow> CTxIn list \<Rightarrow> CTxIn list" where
  "free_sequences n ins = map (\<lambda>(i, txin). if i \<noteq> n then txin\<lparr>nSequence := 0\<rparr> else txin) (enumerate 0 ins)"

definition SignatureHashOld :: "CScript \<Rightarrow> CTransaction \<Rightarrow> u32 \<Rightarrow> int \<Rightarrow> uint256" where
  "SignatureHashOld scriptCode txTo nIn nHashType =
     (let n = unat nIn in
      if n \<ge> length (vin txTo) then uint256_one
      else
        let scriptCode = snd (FindAndDelete scriptCode [OP_CODESEPARATOR]);
            ins = map (\<lambda>txin. txin\<lparr>scriptSig := []\<rparr>) (vin txTo);
            ins = ins[n := (ins ! n)\<lparr>scriptSig := scriptCode\<rparr>]
        in if \<not> fHashNone nHashType \<and> fHashSingle nHashType \<and> n \<ge> length (vout txTo) then uint256_one
        else
          let (ins, outs) =
                (if fHashNone nHashType then (free_sequences n ins, [])
                 else if fHashSingle nHashType then (free_sequences n ins, map (\<lambda>out. CTxOut_null) (take n (vout txTo)) @ [vout txTo ! n])
                 else (ins, vout txTo));
              ins = (if fAnyoneCanPay nHashType then take 1 (ins[0 := ins ! n]) else ins)
          in SerializeHash [SerializeTransaction False (txTo\<lparr>vin := ins, vout := outs\<rparr>), Serialize_int32 nHashType])"

section \<open>Digests exist\<close>

lemma UpdateSenderSig_total: "UpdateSenderSig scr sig \<noteq> Inl e"
  by (auto simp: UpdateSenderSig_def ReplaceParam_def Let_def split: option.splits)

lemma GetOutputWithoutSenderSig_total: "GetOutputWithoutSenderSig out \<noteq> None"
  using UpdateSenderSig_total by (auto simp: GetOutputWithoutSenderSig_def WithoutSenderSig_def split: sum.splits option.splits)

lemma opsender_pieces_total: "opsender_pieces outs \<noteq> None"
  by (induction outs) (simp_all add: GetOutputWithoutSenderSig_total split: option.splits del: not_None_eq)

lemma PrecomputedTransactionData_of_total: "PrecomputedTransactionData_of tx \<noteq> None"
  by (simp add: PrecomputedTransactionData_of_def GetOutputsOpSenderHash_def Let_def opsender_pieces_total split: option.splits del: not_None_eq)

text \<open>The checker of an input that exists answers every question.\<close>

lemma TransactionSignatureChecker_total:
  "unat nIn < length (vin tx) \<Longrightarrow> total_checker (TransactionSignatureChecker Verify tx nIn amount txdata)"
  by (simp add: total_checker_def TransactionSignatureChecker_def tx_CheckSig_def SignatureHash_def tx_CheckLockTime_def
      tx_CheckSequence_def Let_def del: not_None_eq)

lemma TransactionSignatureOutputChecker_total:
  "unat nOut < length (vout tx) \<Longrightarrow> vin tx \<noteq> [] \<Longrightarrow> total_checker (TransactionSignatureOutputChecker Verify tx nOut amount txdata)"
  by (simp add: total_checker_def TransactionSignatureOutputChecker_def BaseSignatureChecker_def out_CheckSig_def
      SignatureHashOutput_def Let_def GetOutputsOpSenderHash_def bind_eq_None_conv GetOutputWithoutSenderSig_total opsender_pieces_total
      split: if_splits del: not_None_eq)

lemma VerifyScript_transaction_returns:
  assumes "unat nIn < length (vin tx)" "on flags SCRIPT_VERIFY_CLEANSTACK \<longrightarrow> on flags SCRIPT_VERIFY_WITNESS"
    "on flags SCRIPT_VERIFY_WITNESS \<longrightarrow> on flags SCRIPT_VERIFY_P2SH"
  shows "VerifyScript CheckLowS sig spk witness flags (TransactionSignatureChecker Verify tx nIn amount txdata) \<noteq> Inl Abort"
proof -
  have "wp (VerifyScript CheckLowS sig spk witness flags (TransactionSignatureChecker Verify tx nIn amount txdata)) (\<lambda>_. True)"
    by (rule wp_VerifyScript) (use assms TransactionSignatureChecker_total in auto)
  then show ?thesis by (auto simp: wp_def faulty_def)
qed

section \<open>The legacy digest and its reference\<close>

text \<open>Scripts whose operations can be read to the end.\<close>

function readable :: "CScript \<Rightarrow> bool" where
  "readable pc \<longleftrightarrow> pc = [] \<or> (case GetScriptOp pc of None \<Rightarrow> False | Some (opcode, vch, pc') \<Rightarrow> readable pc')"
  by pat_completeness auto
termination by (relation "measure length") (auto dest: GetScriptOp_less)

text \<open>A script without the separators among its operations.\<close>

function strip_separators :: "CScript \<Rightarrow> CScript" where
  "strip_separators pc = (case GetScriptOp pc of None \<Rightarrow> pc
     | Some (opcode, vch, pc') \<Rightarrow> (if opcode = OP_CODESEPARATOR then [] else take (length pc - length pc') pc) @ strip_separators pc')"
  by pat_completeness auto
termination by (relation "measure length") (auto dest: GetScriptOp_less)

declare readable.simps [simp del] strip_separators.simps [simp del]

lemma GetScriptOp_take_drop:
  assumes "GetScriptOp pc = Some (opcode, vch, pc')"
  shows "take (length pc - length pc') pc @ pc' = pc"
proof (cases pc)
  case (Cons x xs)
  with assms have "\<exists>k. pc' = drop k xs" by (auto simp: GetScriptOp_def split: if_splits intro: exI [of _ 0])
  then obtain k where "pc' = drop (Suc k) pc" using Cons by auto
  then show ?thesis by (cases "Suc k \<le> length pc") simp_all
qed (use assms in \<open>simp add: GetScriptOp_Nil\<close>)

lemma GetScriptOp_hd: "GetScriptOp pc = Some (opcode, vch, pc') \<Longrightarrow> pc \<noteq> [] \<and> hd pc = opcode"
  by (auto simp: GetScriptOp_def split: list.splits if_splits)

lemma GetScriptOp_separator:
  "GetScriptOp (OP_CODESEPARATOR # pc) = Some (OP_CODESEPARATOR, [], pc)"
  by (simp add: GetScriptOp_def)

lemma GetScriptOp_eq_separator:
  "GetScriptOp pc = Some (OP_CODESEPARATOR, vch, pc') \<Longrightarrow> pc = OP_CODESEPARATOR # pc'"
  using GetScriptOp_hd [of pc OP_CODESEPARATOR vch pc'] by (cases pc) (auto simp: GetScriptOp_separator)

lemma strip_separators_Nil [simp]: "strip_separators [] = []"
  by (simp add: strip_separators.simps GetScriptOp_Nil)

lemma strip_separators_separator [simp]: "strip_separators (OP_CODESEPARATOR # pc) = strip_separators pc"
  by (subst strip_separators.simps) (simp add: GetScriptOp_separator)

lemma write_chunks_strip:
  "readable it \<Longrightarrow> write_chunks (pre @ it) it = pre @ strip_separators it"
proof (induction it arbitrary: pre rule: readable.induct)
  case (1 it)
  show ?case
  proof (cases "it = []")
    case True
    then show ?thesis by (simp add: write_chunks.simps [of pre] GetScriptOp_Nil GetScriptOp_failed_def)
  next
    case False
    with 1(2) obtain opcode vch it' where g: "GetScriptOp it = Some (opcode, vch, it')" and r: "readable it'"
      by (subst (asm) readable.simps) (auto split: option.splits)
    note IH = "1.IH" [OF g refl refl r]
    show ?thesis
    proof (cases "opcode = OP_CODESEPARATOR")
      case True
      with g have it: "it = OP_CODESEPARATOR # it'" by (auto dest: GetScriptOp_eq_separator)
      have "write_chunks it' it' = strip_separators it'" using IH [of "[]"] by simp
      with it show ?thesis by (subst write_chunks.simps) (simp add: GetScriptOp_separator)
    next
      case False
      let ?u = "take (length it - length it') it"
      have it: "it = ?u @ it'" using GetScriptOp_take_drop [OF g] by simp
      have "write_chunks (pre @ it) it = write_chunks (pre @ it) it'" using g False by (subst write_chunks.simps) simp
      also have "\<dots> = write_chunks ((pre @ ?u) @ it') it'" using it by simp
      also have "\<dots> = pre @ ?u @ strip_separators it'" unfolding IH by simp
      also have "?u @ strip_separators it' = strip_separators it" using g False by (subst (2) strip_separators.simps) simp
      finally show ?thesis .
    qed
  qed
qed

text \<open>The number of separators, as both routines count them.\<close>

function separators :: "CScript \<Rightarrow> nat" where
  "separators pc = (case GetScriptOp pc of None \<Rightarrow> 0
     | Some (opcode, vch, pc') \<Rightarrow> (if opcode = OP_CODESEPARATOR then 1 else 0) + separators pc')"
  by pat_completeness auto
termination by (relation "measure length") (auto dest: GetScriptOp_less)

declare separators.simps [simp del]

lemma separators_separator [simp]: "separators (OP_CODESEPARATOR # pc) = Suc (separators pc)"
  by (subst separators.simps) (simp add: GetScriptOp_separator)

lemma count_separators_eq: "count_separators it n = n + of_nat (separators it)"
proof (induction it n rule: count_separators.induct)
  case (1 it n)
  then show ?case
    by (subst count_separators.simps, subst separators.simps) (auto split: option.splits)
qed

lemma length_strip_separators: "length (strip_separators pc) + separators pc = length pc"
proof (induction pc rule: separators.induct)
  case (1 pc)
  show ?case
  proof (cases "GetScriptOp pc")
    case None
    then show ?thesis by (simp add: strip_separators.simps [of pc] separators.simps [of pc])
  next
    case (Some x)
    then obtain opcode vch pc' where g: "GetScriptOp pc = Some (opcode, vch, pc')" by (cases x) auto
    note IH = 1 [OF g refl refl]
    show ?thesis
    proof (cases "opcode = OP_CODESEPARATOR")
      case True
      with g have "pc = OP_CODESEPARATOR # pc'" by (auto dest: GetScriptOp_eq_separator)
      with IH show ?thesis by simp
    next
      case False
      with g IH GetScriptOp_less [OF g] show ?thesis by (simp add: strip_separators.simps [of pc] separators.simps [of pc])
    qed
  qed
qed

lemma strip_separators_none: "separators pc = 0 \<Longrightarrow> strip_separators pc = pc"
proof (induction pc rule: separators.induct)
  case (1 pc)
  show ?case
  proof (cases "GetScriptOp pc")
    case None
    then show ?thesis by (simp add: strip_separators.simps [of pc])
  next
    case (Some x)
    then obtain opcode vch pc' where g: "GetScriptOp pc = Some (opcode, vch, pc')" by (cases x) auto
    with 1(2) have "opcode \<noteq> OP_CODESEPARATOR" "separators pc' = 0" by (simp_all add: separators.simps [of pc] split: if_splits)
    with "1.IH" [OF g refl refl] g GetScriptOp_take_drop [OF g] show ?thesis by (simp add: strip_separators.simps [of pc])
  qed
qed

lemma find_and_delete_separators:
  "find_and_delete_loop [OP_CODESEPARATOR] pc = (separators pc, strip_separators pc)"
proof (induction "length pc" arbitrary: pc rule: less_induct)
  case less
  show ?case
  proof (cases "pc \<noteq> [] \<and> hd pc = OP_CODESEPARATOR")
    case True
    then obtain pc' where pc: "pc = OP_CODESEPARATOR # pc'" by (cases pc) auto
    have "strip_prefixes [OP_CODESEPARATOR] pc = (let (n, rest) = strip_prefixes [OP_CODESEPARATOR] pc' in (n + 1, rest))"
      unfolding pc by (subst strip_prefixes.simps) simp
    then have "find_and_delete_loop [OP_CODESEPARATOR] pc =
        (let (n, result) = find_and_delete_loop [OP_CODESEPARATOR] pc' in (n + 1, result))"
      by (simp add: find_and_delete_loop.simps [of _ pc] find_and_delete_loop.simps [of _ pc'] split: prod.splits option.splits)
    with less [of pc'] pc show ?thesis by simp
  next
    case False
    then have s: "strip_prefixes [OP_CODESEPARATOR] pc = (0, pc)"
      by (subst strip_prefixes.simps) (cases pc; simp)
    show ?thesis
    proof (cases "GetScriptOp pc")
      case None
      with s show ?thesis
        by (simp add: find_and_delete_loop.simps [of _ pc] strip_separators.simps [of pc] separators.simps [of pc])
    next
      case (Some x)
      then obtain opcode vch pc' where g: "GetScriptOp pc = Some (opcode, vch, pc')" by (cases x) auto
      then have "opcode \<noteq> OP_CODESEPARATOR" using False GetScriptOp_hd by blast
      with s g less [OF GetScriptOp_less [OF g]] show ?thesis
        by (simp add: find_and_delete_loop.simps [of _ pc] strip_separators.simps [of pc] separators.simps [of pc])
    qed
  qed
qed

lemma FindAndDelete_separators: "snd (FindAndDelete scr [OP_CODESEPARATOR]) = strip_separators scr"
  by (simp add: FindAndDelete_def find_and_delete_separators strip_separators_none)

lemma SerializeScriptCode_strip:
  assumes "readable code" "length code < 2 ^ 32"
  shows "SerializeScriptCode code = Serialize_bytes (strip_separators code)"
proof -
  have n: "separators code < 2 ^ 32" "length (strip_separators code) = length code - separators code" "separators code \<le> length code"
    using length_strip_separators [of code] assms(2) by linarith+
  have "ucast (of_nat (separators code) :: u32) = (of_nat (separators code) :: u64)"
    using n(1) by (simp add: unsigned_of_nat take_bit_nat_eq_self)
  then have "(of_nat (length code) :: u64) - ucast (count_separators code 0) = of_nat (length (strip_separators code))"
    unfolding count_separators_eq n(2) using n(3) by (simp add: of_nat_diff)
  moreover have "write_chunks code code = strip_separators code"
    using write_chunks_strip [OF assms(1), of "[]"] by simp
  ultimately show ?thesis unfolding SerializeScriptCode_def Serialize_bytes_def by simp
qed

text \<open>The inputs and outputs of the edited copy, position by position.\<close>

definition old_input :: "CScript \<Rightarrow> CTransaction \<Rightarrow> nat \<Rightarrow> int \<Rightarrow> nat \<Rightarrow> CTxIn" where
  "old_input code tx n nHashType k =
     (let txin = (vin tx ! k)\<lparr>scriptSig := if k = n then strip_separators code else []\<rparr> in
      if k \<noteq> n \<and> (fHashSingle nHashType \<or> fHashNone nHashType) then txin\<lparr>nSequence := 0\<rparr> else txin)"

lemma free_sequences_nth:
  "k < length ins \<Longrightarrow> free_sequences n ins ! k = (if k \<noteq> n then (ins ! k)\<lparr>nSequence := 0\<rparr> else ins ! k)"
  by (simp add: free_sequences_def nth_enumerate_eq)

lemma length_free_sequences [simp]: "length (free_sequences n ins) = length ins"
  by (simp add: free_sequences_def)

lemma Serialize_input_old:
  assumes "readable code" "length code < 2 ^ 32" "k < 2 ^ 32" "\<not> fAnyoneCanPay nHashType"
  shows "SerializeInput code tx nIn nHashType (of_nat k) = Serialize_txin (old_input code tx (unat nIn) nHashType k)"
proof -
  have u: "unat (of_nat k :: u32) = k" using assms(3) by (simp add: unat_of_nat take_bit_nat_eq_self)
  then have eq: "(of_nat k :: u32) = nIn \<longleftrightarrow> k = unat nIn" by (simp add: word_unat_eq_iff)
  show ?thesis
    using assms(4) by (simp add: SerializeInput_def Serialize_txin_def old_input_def u eq SerializeScriptCode_strip [OF assms(1,2)]
        Serialize_int32_def Let_def)
qed

lemma Serialize_input_anyone:
  assumes "readable code" "length code < 2 ^ 32" "fAnyoneCanPay nHashType"
  shows "SerializeInput code tx nIn nHashType k = Serialize_txin (old_input code tx (unat nIn) nHashType (unat nIn))"
  using assms(3) by (simp add: SerializeInput_def Serialize_txin_def old_input_def SerializeScriptCode_strip [OF assms(1,2)] Let_def)

text \<open>The edited inputs.\<close>

definition old_inputs :: "CScript \<Rightarrow> CTransaction \<Rightarrow> nat \<Rightarrow> int \<Rightarrow> CTxIn list" where
  "old_inputs code tx n nHashType =
     (if fAnyoneCanPay nHashType then [old_input code tx n nHashType n] else map (old_input code tx n nHashType) [0..<length (vin tx)])"

definition old_outputs :: "CTransaction \<Rightarrow> nat \<Rightarrow> int \<Rightarrow> CTxOut list" where
  "old_outputs tx n nHashType =
     (if fHashNone nHashType then [] else if fHashSingle nHashType then replicate n CTxOut_null @ [vout tx ! n] else vout tx)"

lemma edited_inputs:
  fixes code tx n
  assumes "n < length (vin tx)"
  defines "blank \<equiv> map (\<lambda>txin. txin\<lparr>scriptSig := []\<rparr>) (vin tx)"
  defines "ins \<equiv> blank[n := (blank ! n)\<lparr>scriptSig := strip_separators code\<rparr>]"
  shows "(if fHashNone h \<or> fHashSingle h then free_sequences n ins else ins) = map (old_input code tx n h) [0..<length (vin tx)]"
    (is "?l = ?r")
proof (rule nth_equalityI)
  fix k assume "k < length ?l"
  then have "k < length (vin tx)" by (simp add: ins_def blank_def split: if_splits)
  then show "?l ! k = ?r ! k"
    using assms(1) by (simp add: free_sequences_nth ins_def blank_def old_input_def nth_list_update)
qed (simp add: ins_def blank_def)

lemma take_first_update: "xs \<noteq> [] \<Longrightarrow> take 1 (xs[0 := y]) = [y]"
  by (cases xs) simp_all

lemma SignatureHashOld_pieces:
  assumes "unat nIn < length (vin tx)" "fHashSingle h \<longrightarrow> unat nIn < length (vout tx)"
  shows "SignatureHashOld code tx nIn h =
    SerializeHash [SerializeTransaction False (tx\<lparr>vin := old_inputs code tx (unat nIn) h, vout := old_outputs tx (unat nIn) h\<rparr>), Serialize_int32 h]"
proof -
  let ?n = "unat nIn" and ?ins = "map (old_input code tx (unat nIn) h) [0..<length (vin tx)]"
  have any: "take 1 (?ins[0 := ?ins ! ?n]) = [old_input code tx ?n h ?n]"
    using assms(1) by (subst take_first_update) auto
  have own: "old_input code tx ?n h ?n = (vin tx ! ?n)\<lparr>scriptSig := strip_separators code\<rparr>" by (simp add: old_input_def)
  have null: "map (\<lambda>out. CTxOut_null) (take ?n (vout tx)) = replicate ?n CTxOut_null" if "fHashSingle h"
    using assms(2) that by (simp add: map_replicate_const)
  show ?thesis
    using assms edited_inputs [OF assms(1), of h code] any null own
    by (auto simp: SignatureHashOld_def FindAndDelete_separators old_inputs_def old_outputs_def Let_def not_le split: if_splits)
qed

lemma SerializeTransaction_no_witness:
  "SerializeTransaction False tx = Serialize_int32 (nVersion tx) @ Serialize_vin (vin tx) @ Serialize_vout (vout tx) @ ser_writedata32 (nLockTime tx)"
  by (simp add: SerializeTransaction_def)

lemma SerializeSignature_old:
  assumes "unat nIn < length (vin tx)" "fHashSingle h \<longrightarrow> unat nIn < length (vout tx)"
    and "readable code" "length code < 2 ^ 32" "length (vin tx) < 2 ^ 32" "length (vout tx) < 2 ^ 32"
  shows "SerializeSignature code tx nIn h =
    SerializeTransaction False (tx\<lparr>vin := old_inputs code tx (unat nIn) h, vout := old_outputs tx (unat nIn) h\<rparr>)"
proof -
  let ?nIn = "if fAnyoneCanPay h then 1 else of_nat (length (vin tx)) :: u32"
  let ?nOut = "if fHashNone h then 0 else if fHashSingle h then nIn + 1 else of_nat (length (vout tx)) :: u32"
  have len: "ucast (of_nat k :: u32) = (of_nat k :: u64)" "unat (of_nat k :: u32) = k" if "k < 2 ^ 32" for k
    using that by (simp_all add: unsigned_of_nat unat_of_nat take_bit_nat_eq_self)
  have next_in: "nIn + 1 = of_nat (Suc (unat nIn))" by simp
  have ins: "WriteCompactSize (ucast ?nIn) @ concat (map (\<lambda>k. SerializeInput code tx nIn h (of_nat k)) [0..<unat ?nIn]) =
      Serialize_vin (old_inputs code tx (unat nIn) h)"
  proof (cases "fAnyoneCanPay h")
    case True
    then show ?thesis
      using Serialize_input_anyone [OF assms(3,4) True] by (simp add: Serialize_vin_def Serialize_vector_def old_inputs_def)
  next
    case False
    then have eq: "map (\<lambda>k. SerializeInput code tx nIn h (of_nat k)) [0..<length (vin tx)] =
        map (Serialize_txin \<circ> old_input code tx (unat nIn) h) [0..<length (vin tx)]"
      using Serialize_input_old [OF assms(3,4) _ False] assms(5) by simp
    show ?thesis
      using False len [OF assms(5)] by (simp add: eq Serialize_vin_def Serialize_vector_def old_inputs_def)
  qed
  have outs: "WriteCompactSize (ucast ?nOut) @ concat (map (\<lambda>k. SerializeOutput tx nIn h (of_nat k)) [0..<unat ?nOut]) =
      Serialize_vout (old_outputs tx (unat nIn) h)"
  proof (cases "fHashNone h")
    case True
    then show ?thesis by (simp add: Serialize_vout_def Serialize_vector_def old_outputs_def)
  next
    case notNone: False
    show ?thesis
    proof (cases "fHashSingle h")
      case True
      then have n: "Suc (unat nIn) < 2 ^ 32" using assms(2,6) by simp
      have "SerializeOutput tx nIn h (of_nat k) = Serialize_txout CTxOut_null" if "k < unat nIn" for k
        using True that len(2) [of k] n by (auto simp: SerializeOutput_def)
      then have eq: "map (\<lambda>k. SerializeOutput tx nIn h (of_nat k)) [0..<unat nIn] = replicate (unat nIn) (Serialize_txout CTxOut_null)"
        by (intro nth_equalityI) simp_all
      have own: "SerializeOutput tx nIn h nIn = Serialize_txout (vout tx ! unat nIn)" by (simp add: SerializeOutput_def)
      show ?thesis
        using True notNone len [OF n] by (simp add: next_in eq own Serialize_vout_def Serialize_vector_def old_outputs_def del: of_nat_Suc)
    next
      case False
      then have "SerializeOutput tx nIn h (of_nat k) = Serialize_txout (vout tx ! k)" if "k < length (vout tx)" for k
        using that len(2) [of k] assms(6) by (simp add: SerializeOutput_def)
      then have eq: "map (\<lambda>k. SerializeOutput tx nIn h (of_nat k)) [0..<length (vout tx)] = map Serialize_txout (vout tx)"
        by (intro nth_equalityI) simp_all
      show ?thesis
        using False notNone len [OF assms(6)] by (simp add: eq Serialize_vout_def Serialize_vector_def old_outputs_def)
    qed
  qed
  show ?thesis
    unfolding SerializeSignature_def SerializeTransaction_no_witness Let_def using ins outs by simp
qed

section \<open>What the digest of a witness program covers\<close>

context codec
begin

lemma ser_append_eq: "ok x \<Longrightarrow> ok y \<Longrightarrow> ser x @ s = ser y @ t \<longleftrightarrow> x = y \<and> s = t"
  using prefix_free by blast

lemma ser_eq: "ok x \<Longrightarrow> ok y \<Longrightarrow> ser x = ser y \<longleftrightarrow> x = y"
  using prefix_free [of x y "[]" "[]"] by auto

text \<open>Elements written one after another, without their number, are told apart.\<close>

lemma concat_injective:
  assumes "list_all ok xs" "list_all ok ys" "concat (map ser xs) = concat (map ser ys)" "\<forall>x. ser x \<noteq> []"
  shows "xs = ys"
  using assms(1-3)
proof (induction xs arbitrary: ys)
  case Nil
  have "ser y = []" if "ys = y # ys'" for y ys' using Nil(3) that by simp
  with assms(4) show ?case using list.exhaust by metis
next
  case (Cons x xs)
  have "ys \<noteq> []" using Cons(4) spec [OF assms(4), of x] by auto
  then obtain y ys' where ys: "ys = y # ys'" using list.exhaust by blast
  with Cons.prems prefix_free [of x y "concat (map ser xs)" "concat (map ser ys')"]
  have "x = y \<and> concat (map ser xs) = concat (map ser ys')" by simp
  with Cons.IH [of ys'] Cons.prems(1,2) ys show ?case by simp
qed

end

lemma u32_nonempty: "ser_writedata32 w \<noteq> []"
  by (simp add: ser_writedata32_def flip: length_greater_0_conv)

lemma outpoint_nonempty: "Serialize_outpoint p \<noteq> []"
  by (simp add: Serialize_outpoint_def u32_nonempty)

lemma txout_nonempty: "Serialize_txout out \<noteq> []"
  by (simp add: Serialize_txout_def Serialize_int64_def ser_writedata64_def flip: length_greater_0_conv)

text \<open>The four strings that are hashed for a digest with \<open>SIGHASH_ALL\<close>.\<close>

definition witness_preimage :: "CScript \<Rightarrow> CTransaction \<Rightarrow> u32 \<Rightarrow> int \<Rightarrow> int \<Rightarrow> bytes" where
  "witness_preimage code tx nIn h amount =
     Serialize_int32 (nVersion tx) @ Hash (concat (map (\<lambda>i. Serialize_outpoint (prevout i)) (vin tx))) @
     Hash (concat (map (\<lambda>i. ser_writedata32 (nSequence i)) (vin tx))) @
     Serialize_outpoint (prevout (vin tx ! unat nIn)) @ Serialize_bytes code @ Serialize_int64 amount @
     ser_writedata32 (nSequence (vin tx ! unat nIn)) @ Hash (concat (map Serialize_txout (vout tx))) @
     ser_writedata32 (nLockTime tx) @ Serialize_int32 h"

definition hashed_strings :: "CScript \<Rightarrow> CTransaction \<Rightarrow> u32 \<Rightarrow> int \<Rightarrow> int \<Rightarrow> bytes set" where
  "hashed_strings code tx nIn h amount =
     {witness_preimage code tx nIn h amount, concat (map (\<lambda>i. Serialize_outpoint (prevout i)) (vin tx)),
      concat (map (\<lambda>i. ser_writedata32 (nSequence i)) (vin tx)), concat (map Serialize_txout (vout tx))}"

definition cache_of :: "CTransaction \<Rightarrow> PrecomputedTransactionData option \<Rightarrow> bool" where
  "cache_of tx cache \<longleftrightarrow> cache = None \<or> cache = PrecomputedTransactionData_of tx"

lemma cache_hashes:
  assumes "cache_of tx cache" "cacheready cache"
  shows "hashPrevouts (the cache) = GetPrevoutHash tx" "hashSequence (the cache) = GetSequenceHash tx"
    "hashOutputs (the cache) = GetOutputsHash tx" "tx_HasOpSender tx \<Longrightarrow> Some (hashOutputsOpSender (the cache)) = GetOutputsOpSenderHash tx"
  using assms by (auto simp: cache_of_def PrecomputedTransactionData_of_def Let_def split: if_splits option.splits)

lemma SignatureHash_cache:
  "cache_of tx cache \<Longrightarrow> SignatureHash code tx nIn h amount v cache = SignatureHash code tx nIn h amount v None"
  by (auto simp: SignatureHash_def SignatureHash_witness_def Let_def cache_hashes)

lemma SerializeHash_Hash: "SerializeHash ps = Hash (concat ps)"
  by (simp add: SerializeHash_sha256 Hash_sha256)

lemma SignatureHash_all:
  assumes "\<not> fAnyoneCanPay h" "\<not> fHashSingle h" "\<not> fHashNone h"
  shows "SignatureHash_witness code tx nIn h amount None = Hash (witness_preimage code tx nIn h amount)"
  using assms by (simp add: SignatureHash_witness_def witness_preimage_def Let_def GetPrevoutHash_def GetSequenceHash_def
      GetOutputsHash_def SerializeHash_Hash Serialize_uint256_def)

definition wf_signed :: "CScript \<Rightarrow> CTransaction \<Rightarrow> int \<Rightarrow> int \<Rightarrow> bool" where
  "wf_signed code tx h amount \<longleftrightarrow> list_all (\<lambda>i. wf_outpoint (prevout i)) (vin tx) \<and> list_all wf_txout (vout tx) \<and>
     fits_int32 (nVersion tx) \<and> fits_MAX_SIZE code \<and> fits_int64 amount \<and> fits_int32 h"

lemma wf_Hash: "wf_uint256 (Hash p)"
  by (simp add: wf_uint256_def)

lemma Hash_prefix: "Hash p @ s = Hash q @ t \<longleftrightarrow> Hash p = Hash q \<and> s = t"
  by simp

lemma witness_preimage_inj:
  assumes wf: "wf_signed code tx h amount" "wf_signed code' tx' h' amount'"
    and "unat nIn < length (vin tx)" "unat nIn' < length (vin tx')"
    and eq: "witness_preimage code tx nIn h amount = witness_preimage code' tx' nIn' h' amount'"
  shows "nVersion tx = nVersion tx' \<and> nLockTime tx = nLockTime tx' \<and> code = code' \<and> amount = amount' \<and> h = h' \<and>
    prevout (vin tx ! unat nIn) = prevout (vin tx' ! unat nIn') \<and> nSequence (vin tx ! unat nIn) = nSequence (vin tx' ! unat nIn') \<and>
    Hash (concat (map (\<lambda>i. Serialize_outpoint (prevout i)) (vin tx))) = Hash (concat (map (\<lambda>i. Serialize_outpoint (prevout i)) (vin tx'))) \<and>
    Hash (concat (map (\<lambda>i. ser_writedata32 (nSequence i)) (vin tx))) = Hash (concat (map (\<lambda>i. ser_writedata32 (nSequence i)) (vin tx'))) \<and>
    Hash (concat (map Serialize_txout (vout tx))) = Hash (concat (map Serialize_txout (vout tx')))"
proof -
  have own: "wf_outpoint (prevout (vin tx ! unat nIn))" "wf_outpoint (prevout (vin tx' ! unat nIn'))"
    using assms(1-4) by (simp_all add: wf_signed_def list_all_length)
  have fits: "fits_int32 (nVersion tx)" "fits_int32 (nVersion tx')" "fits_MAX_SIZE code" "fits_MAX_SIZE code'"
    "fits_int64 amount" "fits_int64 amount'" "fits_int32 h" "fits_int32 h'"
    using wf by (simp_all add: wf_signed_def)
  from eq own fits show ?thesis
    unfolding witness_preimage_def
    by (simp add: i32.ser_append_eq i32.ser_eq i64.ser_append_eq outpoint.ser_append_eq blob.ser_append_eq u32.ser_append_eq u32.ser_eq)
qed

text \<open>Sender signatures.\<close>

lemma Find_append:
  "\<forall>u \<in> set us. \<exists>opcode vch. single_op u opcode vch \<and> opcode \<noteq> findOp \<Longrightarrow> Find findOp (concat us @ rest) = Find findOp rest"
proof (induction us)
  case (Cons u us)
  then obtain opcode vch where "single_op u opcode vch" "opcode \<noteq> findOp" by auto
  then have "Find findOp (u @ (concat us @ rest)) = Find findOp (concat us @ rest)"
    by (subst Find.simps) (simp add: single_op_def)
  with Cons show ?case by simp
qed simp

lemma UpdateSenderSig_HasOpSender:
  assumes "UpdateSenderSig scr sig = Inr (Some scr')" "length sig < 2 ^ 32"
  shows "HasOpSender scr' = HasOpSender scr"
proof -
  obtain us rest v r where us: "scr = concat us @ rest" "scr' = concat (butlast us) @ push_data sig @ rest"
    and u: "\<forall>u \<in> set us. \<exists>opcode vch. single_op u opcode vch \<and> opcode \<noteq> OP_SENDER"
    using UpdateSenderSig_split [OF assms(1)] by metis
  obtain opcode where "opcode \<le> OP_PUSHDATA4" and p: "single_op (push_data sig) opcode sig"
    using push_data_single [OF assms(2)] by blast
  then have "opcode \<noteq> OP_SENDER" by auto
  with p u have "\<forall>u \<in> set (butlast us @ [push_data sig]). \<exists>opcode vch. single_op u opcode vch \<and> opcode \<noteq> OP_SENDER"
    by (auto dest: in_set_butlastD)
  from Find_append [OF this, of rest] Find_append [OF u, of rest] us show ?thesis by (simp add: HasOpSender_def)
qed

lemma GetOutputWithoutSenderSig_update:
  assumes "UpdateSenderSig (scriptPubKey out) sig = Inr (Some scr)" "length sig < 2 ^ 32"
  shows "GetOutputWithoutSenderSig (out\<lparr>scriptPubKey := scr\<rparr>) = GetOutputWithoutSenderSig out"
  using sender_signature_not_signed [OF assms] by (simp add: GetOutputWithoutSenderSig_def split: sum.splits)

lemma opsender_pieces_update:
  assumes "UpdateSenderSig (scriptPubKey (outs ! k)) sig = Inr (Some scr)" "length sig < 2 ^ 32" "k < length outs"
    "HasOpSender (scriptPubKey (outs ! k))"
  shows "opsender_pieces (outs[k := (outs ! k)\<lparr>scriptPubKey := scr\<rparr>]) = opsender_pieces outs"
  using assms
proof (induction outs arbitrary: k)
  case (Cons out outs)
  show ?case
  proof (cases k)
    case 0
    with Cons.prems UpdateSenderSig_HasOpSender [of _ sig scr] GetOutputWithoutSenderSig_update [of _ sig scr] show ?thesis
      by simp
  next
    case (Suc j)
    with Cons.prems have "opsender_pieces (outs[j := (outs ! j)\<lparr>scriptPubKey := scr\<rparr>]) = opsender_pieces outs"
      by (intro Cons.IH) simp_all
    with Suc show ?thesis by (simp split: option.splits)
  qed
qed simp

section \<open>Properties\<close>

text \<open>
  C13: Property: the legacy digest agrees with the old one.  For a script code whose operations can be read, the
  serializer that skips separators and blanks parts in place gives the digest of a copy of the transaction that is
  edited as the original client did, for every hash type, including the digest one for a missing output.
\<close>

theorem legacy_digest_equals_reference:
  assumes "unat nIn < length (vin tx)" "readable code" "length code < 2 ^ 32" "length (vin tx) < 2 ^ 32" "length (vout tx) < 2 ^ 32"
  shows "SignatureHash code tx nIn h amount BASE cache = Some (SignatureHashOld code tx nIn h)"
proof (cases "fHashSingle h \<and> unat nIn \<ge> length (vout tx)")
  case True
  then show ?thesis using assms(1) by (simp add: SignatureHash_def SignatureHashOld_def Let_def)
next
  case False
  then have single: "fHashSingle h \<longrightarrow> unat nIn < length (vout tx)" by auto
  from SignatureHashOld_pieces [OF assms(1) single, of code] SerializeSignature_old [OF assms(1) single assms(2-5)] False assms(1)
  show ?thesis by (auto simp: SignatureHash_def)
qed

definition sample_tx :: "bytes \<Rightarrow> CTransaction" where
  "sample_tx sig = \<lparr>vin = [\<lparr>prevout = \<lparr>outHash = replicate 32 7, outN = 1\<rparr>, scriptSig = sig, nSequence = 5, scriptWitness = [[1]]\<rparr>],
     vout = [\<lparr>nValue = 50, scriptPubKey = [OP_1, 1, 0xaa, OP_0, OP_SENDER, OP_CALL]\<rparr>], nVersion = 2, nLockTime = 9\<rparr>"

theorem legacy_digest_equals_reference_witness:
  "SignatureHash [OP_1, OP_CODESEPARATOR, OP_CHECKSIG] (sample_tx []) 0 3 50 BASE None =
     Some (SignatureHashOld [OP_1, OP_CODESEPARATOR, OP_CHECKSIG] (sample_tx []) 0 3)"
proof (rule legacy_digest_equals_reference)
  show "readable [OP_1, OP_CODESEPARATOR, OP_CHECKSIG]" by code_simp
qed (simp_all add: sample_tx_def)

text \<open>
  C8: Property: a digest of a witness program commits to the transaction.  If two spendings with hash types
  that cover everything have the same digest, with or without data computed in advance, then they agree in version,
  inputs, sequence numbers, outputs and lock time, in the output spent, the script code, the amount and the
  hash type, unless two different strings hashed for these two digests have the same double SHA-256.
\<close>

theorem witness_digest_commits_to_transaction:
  assumes "wf_signed code tx h amount" "wf_signed code' tx' h' amount'" "cache_of tx cache" "cache_of tx' cache'"
    and "\<not> fAnyoneCanPay h" "\<not> fHashSingle h" "\<not> fHashNone h" "\<not> fAnyoneCanPay h'" "\<not> fHashSingle h'" "\<not> fHashNone h'"
    and "SignatureHash code tx nIn h amount WITNESS_V0 cache = Some d"
    and "SignatureHash code' tx' nIn' h' amount' WITNESS_V0 cache' = Some d"
  shows "nVersion tx = nVersion tx' \<and> map prevout (vin tx) = map prevout (vin tx') \<and> map nSequence (vin tx) = map nSequence (vin tx') \<and>
      vout tx = vout tx' \<and> nLockTime tx = nLockTime tx' \<and> prevout (vin tx ! unat nIn) = prevout (vin tx' ! unat nIn') \<and>
      code = code' \<and> amount = amount' \<and> h = h' \<or>
    (\<exists>x \<in> hashed_strings code tx nIn h amount. \<exists>y \<in> hashed_strings code' tx' nIn' h' amount'. x \<noteq> y \<and> Hash x = Hash y)"
    (is "_ \<or> ?collision")
proof (cases ?collision)
  case no: False
  let ?p = "\<lambda>tx. concat (map (\<lambda>i. Serialize_outpoint (prevout i)) (vin tx))"
    and ?s = "\<lambda>tx. concat (map (\<lambda>i. ser_writedata32 (nSequence i)) (vin tx))"
    and ?o = "\<lambda>tx. concat (map Serialize_txout (vout tx))"
  have n: "unat nIn < length (vin tx)" "unat nIn' < length (vin tx')"
    and d: "Hash (witness_preimage code tx nIn h amount) = Hash (witness_preimage code' tx' nIn' h' amount')"
    using assms(11,12) SignatureHash_all [OF assms(5-7)] SignatureHash_all [OF assms(8-10)]
    unfolding SignatureHash_cache [OF assms(3)] SignatureHash_cache [OF assms(4)]
    by (auto simp: SignatureHash_def split: if_splits)
  with no have "witness_preimage code tx nIn h amount = witness_preimage code' tx' nIn' h' amount'"
    by (auto simp: hashed_strings_def)
  note eq = witness_preimage_inj [OF assms(1,2) n this]
  with no have "?p tx = ?p tx'" "?s tx = ?s tx'" "?o tx = ?o tx'" by (auto simp: hashed_strings_def)
  then have "map prevout (vin tx) = map prevout (vin tx')" "map nSequence (vin tx) = map nSequence (vin tx')" "vout tx = vout tx'"
    using assms(1,2) outpoint.concat_injective [of "map prevout (vin tx)" "map prevout (vin tx')"]
      u32.concat_injective [of "map nSequence (vin tx)" "map nSequence (vin tx')"] txout.concat_injective [of "vout tx" "vout tx'"]
    by (simp_all add: wf_signed_def list.pred_map o_def outpoint_nonempty u32_nonempty txout_nonempty list_all_iff)
  with eq show ?thesis by blast
qed simp

theorem witness_digest_commits_to_transaction_witness:
  "vout (sample_tx []) = vout (sample_tx [1]) \<or>
    (\<exists>x \<in> hashed_strings [OP_1] (sample_tx []) 0 1 50. \<exists>y \<in> hashed_strings [OP_1] (sample_tx [1]) 0 1 50. x \<noteq> y \<and> Hash x = Hash y)"
proof -
  let ?d = "SignatureHash_witness [OP_1] (sample_tx []) 0 1 50 None"
  have c: "cache_of (sample_tx []) (PrecomputedTransactionData_of (sample_tx []))" "cache_of (sample_tx [1]) None"
    by (simp_all add: cache_of_def)
  have wf: "wf_signed [OP_1] (sample_tx sig) 1 50" for sig
    by (simp add: wf_signed_def sample_tx_def wf_outpoint_def wf_uint256_def wf_txout_def fits_int32_def fits_int64_def fits_MAX_SIZE_def INT64_MIN_def INT64_MAX_def)
  have h: "\<not> fAnyoneCanPay 1" "\<not> fHashSingle 1" "\<not> fHashNone 1" by simp_all
  have "SignatureHash [OP_1] (sample_tx []) 0 1 50 WITNESS_V0 (PrecomputedTransactionData_of (sample_tx [])) = Some ?d"
    unfolding SignatureHash_cache [OF c(1)] by (simp add: SignatureHash_def sample_tx_def)
  moreover have "SignatureHash [OP_1] (sample_tx [1]) 0 1 50 WITNESS_V0 None = Some ?d"
    by (simp add: SignatureHash_def SignatureHash_witness_def GetPrevoutHash_def GetSequenceHash_def GetOutputsHash_def sample_tx_def)
  ultimately show ?thesis
    using witness_digest_commits_to_transaction [OF wf wf c h h] by blast
qed

text \<open>
  C28: Property: the sender of a contract output can sign first and insert the signature afterwards.  Filling in or
  replacing the signature before \<open>OP_SENDER\<close> in the output that is signed changes neither this digest nor, if
  several outputs are signed, the digests of the other outputs.
\<close>

theorem sender_digest_unaffected_by_signature:
  assumes "k < length (vout tx)" "HasOpSender (scriptPubKey (vout tx ! k))" "length sig < 2 ^ 32"
    and "UpdateSenderSig (scriptPubKey (vout tx ! k)) sig = Inr (Some scr)"
  shows "SignatureHashOutput code (tx\<lparr>vout := (vout tx)[k := (vout tx ! k)\<lparr>scriptPubKey := scr\<rparr>]\<rparr>) nOut h amount v None =
    SignatureHashOutput code tx nOut h amount v None"
proof -
  let ?outs = "(vout tx)[k := (vout tx ! k)\<lparr>scriptPubKey := scr\<rparr>]"
  have all: "opsender_pieces ?outs = opsender_pieces (vout tx)"
    by (rule opsender_pieces_update) (use assms in auto)
  have one: "GetOutputWithoutSenderSig (?outs ! unat nOut) = GetOutputWithoutSenderSig (vout tx ! unat nOut)" if "unat nOut < length (vout tx)"
    using that assms(1) GetOutputWithoutSenderSig_update [OF assms(4,3)] by (auto simp: nth_list_update)
  show ?thesis
    using all one by (simp add: SignatureHashOutput_def GetOutputsOpSenderHash_def GetPrevoutHash_def GetSequenceHash_def
        GetFirstPrevoutHash_def GetFirstSequenceHash_def Let_def)
qed

theorem sender_digest_unaffected_by_signature_witness:
  "\<exists>scr. UpdateSenderSig (scriptPubKey (vout (sample_tx []) ! 0)) [5, 6] = Inr (Some scr) \<and>
     SignatureHashOutput [OP_1] ((sample_tx [])\<lparr>vout := (vout (sample_tx []))[0 := (vout (sample_tx []) ! 0)\<lparr>scriptPubKey := scr\<rparr>]\<rparr>) 0 1 50 BASE None =
     SignatureHashOutput [OP_1] (sample_tx []) 0 1 50 BASE None"
proof -
  have u: "UpdateSenderSig (scriptPubKey (vout (sample_tx []) ! 0)) [5, 6] = Inr (Some [OP_1, 1, 0xaa, 2, 5, 6, OP_SENDER, OP_CALL])" by code_simp
  have k: "0 < length (vout (sample_tx []))" "length [5, 6 :: u8] < 2 ^ 32" by (simp_all add: sample_tx_def)
  have "HasOpSender (scriptPubKey (vout (sample_tx []) ! 0))" by code_simp
  from sender_digest_unaffected_by_signature [OF k(1) this k(2) u] u show ?thesis by blast
qed

end
