(* ===== verification/Standard.thy ===== *)
theory Standard
  imports SigHash
begin

text \<open>
  Standard scripts, \<open>script/standard.cpp\<close>: the recognition of the kinds of output scripts, with the
  contract outputs of this chain, and the translation between destinations and scripts.

  A multimap is traversed in the order of its keys, so the templates are listed in the order of \<open>txnouttype\<close>.  A version of
  the virtual machine is kept as its raw word; before a version has been read only its root field is set.
  \<open>None\<close> stands for a failed assertion.
\<close>

unbundle bit_operations_syntax

datatype txnouttype = TX_NONSTANDARD | TX_PUBKEY | TX_PUBKEYHASH | TX_SCRIPTHASH | TX_MULTISIG | TX_NULL_DATA |
  TX_WITNESS_V0_SCRIPTHASH | TX_WITNESS_V0_KEYHASH | TX_WITNESS_UNKNOWN | TX_CREATE_SENDER | TX_CALL_SENDER | TX_CREATE | TX_CALL

datatype CTxDestination = CNoDestination | PKHash bytes | ScriptHash bytes | WitnessV0ScriptHash bytes | WitnessV0KeyHash bytes |
  WitnessUnknown int bytes

abbreviation (input) STANDARD_MINIMUM_GAS_LIMIT :: u64 where "STANDARD_MINIMUM_GAS_LIMIT \<equiv> 10000"
abbreviation (input) STANDARD_MINIMUM_GAS_PRICE :: u64 where "STANDARD_MINIMUM_GAS_PRICE \<equiv> 1"
abbreviation (input) MAX_BLOCK_GAS_LIMIT_DGP :: u64 where "MAX_BLOCK_GAS_LIMIT_DGP \<equiv> 1000000000"
abbreviation (input) DEFAULT_BLOCK_GAS_LIMIT_DGP :: u64 where "DEFAULT_BLOCK_GAS_LIMIT_DGP \<equiv> 40000000"
abbreviation (input) addresstype_PUBKEYHASH :: u64 where "addresstype_PUBKEYHASH \<equiv> 1"
abbreviation (input) addresstype_NONSTANDARD :: u64 where "addresstype_NONSTANDARD \<equiv> 5"

section \<open>Scripts of destinations\<close>

definition GetScriptForDestination :: "CTxDestination \<Rightarrow> CScript option" where
  "GetScriptForDestination dest = (case dest of
       CNoDestination \<Rightarrow> Some []
     | PKHash keyID \<Rightarrow> Some ([OP_DUP, OP_HASH160] @ push_data keyID @ [OP_EQUALVERIFY, OP_CHECKSIG])
     | ScriptHash scriptID \<Rightarrow> Some ([OP_HASH160] @ push_data scriptID @ [OP_EQUAL])
     | WitnessV0KeyHash i \<Rightarrow> Some ([OP_0] @ push_data i)
     | WitnessV0ScriptHash i \<Rightarrow> Some ([OP_0] @ push_data i)
     | WitnessUnknown version program \<Rightarrow> map_option (\<lambda>opcode. [opcode] @ push_data program) (EncodeOP_N version))"

definition GetScriptForRawPubKey :: "bytes \<Rightarrow> CScript" where
  "GetScriptForRawPubKey pubKey = push_data pubKey @ [OP_CHECKSIG]"

definition GetScriptForMultisig :: "int \<Rightarrow> bytes list \<Rightarrow> CScript option" where
  "GetScriptForMultisig nRequired keys =
     (case (EncodeOP_N nRequired, EncodeOP_N (int (length keys))) of
        (Some m, Some n) \<Rightarrow> Some ([m] @ concat (map push_data keys) @ [n, OP_CHECKMULTISIG])
      | _ \<Rightarrow> None)"

section \<open>Versions of the virtual machine\<close>

definition rootVM :: "u32 \<Rightarrow> u32" where
  "rootVM raw = drop_bit 2 (raw AND 0xff)"

definition VersionVM_GetNoExec :: u32 where
  "VersionVM_GetNoExec = 0"

definition VersionVM_GetEVMDefault :: u32 where
  "VersionVM_GetEVMDefault = 4"

section \<open>Matching a template\<close>

record solver_state =
  vSolutions :: "bytes list"
  addressType :: u64
  vmVersion :: u32

datatype 'a scan = Continue 'a | Break | Return_nonstandard 'a

definition solver_start :: solver_state where
  "solver_start = \<lparr>vSolutions = [], addressType = 0, vmVersion = push_bit 2 20\<rparr>"

definition solved :: "bytes \<Rightarrow> solver_state \<Rightarrow> solver_state scan" where
  "solved vch s = Continue (s\<lparr>vSolutions := vSolutions s @ [vch]\<rparr>)"

text \<open>The keys at the place of \<open>OP_PUBKEYS\<close>.  A failed read leaves an invalid opcode without data.\<close>

function take_pubkeys :: "bytes list \<Rightarrow> opcodetype \<Rightarrow> bytes \<Rightarrow> CScript \<Rightarrow> bytes list \<times> opcodetype \<times> bytes \<times> CScript" where
  "take_pubkeys sols opcode1 vch1 pc1 =
     (if length vch1 \<ge> 33 \<and> length vch1 \<le> 65 then
        (case GetScriptOp pc1 of None \<Rightarrow> (sols @ [vch1], OP_INVALIDOPCODE, [], GetScriptOp_failed pc1)
         | Some (opcode1, vch1', pc1) \<Rightarrow> take_pubkeys (sols @ [vch1]) opcode1 vch1' pc1)
      else (sols, opcode1, vch1, pc1))"
  by pat_completeness auto
termination by (relation "measure (\<lambda>(sols, opcode1, vch1, pc1). length pc1)") (auto dest: GetScriptOp_less)

declare take_pubkeys.simps [simp del]

definition match_version :: "opcodetype \<Rightarrow> bytes \<Rightarrow> solver_state \<Rightarrow> solver_state scan" where
  "match_version opcode1 vch1 s =
     (if opcode1 \<le> OP_PUSHDATA4 then
        (if vch1 = [] \<or> length vch1 > 4 \<or> last vch1 AND 0x80 \<noteq> 0 then Return_nonstandard s
         else (case vch_to_uint64 vch1 of Inl e \<Rightarrow> Return_nonstandard s
           | Inr val \<Rightarrow>
               let version = ucast val in
               if version = VersionVM_GetEVMDefault \<or> version = VersionVM_GetNoExec then Continue (s\<lparr>vmVersion := version\<rparr>)
               else Return_nonstandard (s\<lparr>vmVersion := version\<rparr>)))
      else Continue s)"

definition match_gas_limit :: "bool \<Rightarrow> bytes \<Rightarrow> solver_state \<Rightarrow> solver_state scan" where
  "match_gas_limit contractConsensus vch1 s =
     (case vch_to_uint64 vch1 of Inl e \<Rightarrow> Return_nonstandard s
      | Inr val \<Rightarrow>
          if contractConsensus then
            (if rootVM (vmVersion s) \<noteq> 0 \<and> val < 1 then Return_nonstandard s
             else if val > MAX_BLOCK_GAS_LIMIT_DGP then Return_nonstandard s else Continue s)
          else
            (if rootVM (vmVersion s) \<noteq> 0 \<and> val < STANDARD_MINIMUM_GAS_LIMIT then Return_nonstandard s
             else if val > DEFAULT_BLOCK_GAS_LIMIT_DGP div 2 then Return_nonstandard s else Continue s))"

definition match_gas_price :: "bool \<Rightarrow> bytes \<Rightarrow> solver_state \<Rightarrow> solver_state scan" where
  "match_gas_price contractConsensus vch1 s =
     (case vch_to_uint64 vch1 of Inl e \<Rightarrow> Return_nonstandard s
      | Inr val \<Rightarrow>
          if contractConsensus then (if rootVM (vmVersion s) \<noteq> 0 \<and> val < 1 then Return_nonstandard s else Continue s)
          else (if rootVM (vmVersion s) \<noteq> 0 \<and> val < STANDARD_MINIMUM_GAS_PRICE then Return_nonstandard s else Continue s))"

definition match_address_type :: "bytes \<Rightarrow> solver_state \<Rightarrow> solver_state scan" where
  "match_address_type vch1 s =
     (case vch_to_uint64 vch1 of Inl e \<Rightarrow> Break
      | Inr val \<Rightarrow> if val < addresstype_PUBKEYHASH \<or> val > addresstype_NONSTANDARD then Break else Continue (s\<lparr>addressType := val\<rparr>))"

definition match_address :: "bytes \<Rightarrow> solver_state \<Rightarrow> solver_state scan" where
  "match_address vch1 s =
     (if addressType s = addresstype_PUBKEYHASH \<and> length vch1 = 20 then
        (case GetScriptForDestination (PKHash vch1) of None \<Rightarrow> Break
         | Some senderPubKey \<Rightarrow> solved (Serialize_bytes senderPubKey) s)
      else Break)"

definition match_script_sig :: "bool \<Rightarrow> opcodetype \<Rightarrow> bytes \<Rightarrow> solver_state \<Rightarrow> solver_state scan" where
  "match_script_sig allowEmptySenderSig opcode1 vch1 s =
     (if opcode1 \<le> OP_PUSHDATA4 then
        (if \<not> allowEmptySenderSig \<and> vch1 = [] then Break
         else if length vch1 > MAX_BASE_SCRIPT_SIZE then Return_nonstandard s
         else solved vch1 s)
      else Continue s)"

definition match_op :: "bool \<Rightarrow> bool \<Rightarrow> opcodetype \<Rightarrow> bytes \<Rightarrow> opcodetype \<Rightarrow> bytes \<Rightarrow> solver_state \<Rightarrow> solver_state scan" where
  "match_op contractConsensus allowEmptySenderSig opcode1 vch1 opcode2 vch2 s =
     (if opcode2 = OP_PUBKEY then (if length vch1 < 33 \<or> length vch1 > 65 then Break else solved vch1 s)
      else if opcode2 = OP_PUBKEYHASH then (if length vch1 \<noteq> 20 then Break else solved vch1 s)
      else if opcode2 = OP_SMALLINTEGER then
        (if opcode1 = OP_0 \<or> opcode1 \<ge> OP_1 \<and> opcode1 \<le> OP_16 then solved [of_int (the (DecodeOP_N opcode1))] s else Break)
      else if opcode2 = OP_VERSION then match_version opcode1 vch1 s
      else if opcode2 = OP_GAS_LIMIT then match_gas_limit contractConsensus vch1 s
      else if opcode2 = OP_GAS_PRICE then match_gas_price contractConsensus vch1 s
      else if opcode2 = OP_DATA then (if opcode1 \<le> OP_PUSHDATA4 \<and> vch1 = [] then Break else Continue s)
      else if opcode2 = OP_ADDRESS_TYPE then match_address_type vch1 s
      else if opcode2 = OP_ADDRESS then match_address vch1 s
      else if opcode2 = OP_SCRIPT_SIG then match_script_sig allowEmptySenderSig opcode1 vch1 s
      else if opcode1 \<noteq> opcode2 \<or> vch1 \<noteq> vch2 then Break
      else Continue s)"

text \<open>The loop over both scripts; every round reads at least one byte of the template.\<close>

function compare_template :: "bool \<Rightarrow> bool \<Rightarrow> CScript \<Rightarrow> CScript \<Rightarrow> solver_state \<Rightarrow> solver_state scan" where
  "compare_template contractConsensus allowEmptySenderSig pc1 pc2 s =
     (if pc1 = [] \<and> pc2 = [] then Continue s
      else case GetScriptOp pc1 of None \<Rightarrow> Break | Some (opcode1, vch1, pc1) \<Rightarrow>
        case GetScriptOp pc2 of None \<Rightarrow> Break | Some (opcode2, vch2, pc2) \<Rightarrow>
          if opcode2 = OP_PUBKEYS then
            (case take_pubkeys (vSolutions s) opcode1 vch1 pc1 of (sols, opcode1, vch1, pc1) \<Rightarrow>
               case GetScriptOp pc2 of None \<Rightarrow> Break | Some (opcode2, vch2, pc3) \<Rightarrow>
                 (case match_op contractConsensus allowEmptySenderSig opcode1 vch1 opcode2 vch2 (s\<lparr>vSolutions := sols\<rparr>) of
                    Break \<Rightarrow> Break | Return_nonstandard s \<Rightarrow> Return_nonstandard s
                  | Continue s \<Rightarrow> compare_template contractConsensus allowEmptySenderSig pc1 pc3 s))
          else
            (case match_op contractConsensus allowEmptySenderSig opcode1 vch1 opcode2 vch2 s of
               Break \<Rightarrow> Break | Return_nonstandard s \<Rightarrow> Return_nonstandard s
             | Continue s \<Rightarrow> compare_template contractConsensus allowEmptySenderSig pc1 pc2 s))"
  by pat_completeness auto
termination
  by (relation "measure (\<lambda>(cc, allow, pc1, pc2, s). length pc2)") (fastforce dest: GetScriptOp_less)+

declare compare_template.simps [simp del]

section \<open>The solver\<close>

definition mTemplates :: "(txnouttype \<times> CScript) list" where
  "mTemplates =
     [(TX_PUBKEY, [OP_PUBKEY, OP_CHECKSIG]),
      (TX_PUBKEYHASH, [OP_DUP, OP_HASH160, OP_PUBKEYHASH, OP_EQUALVERIFY, OP_CHECKSIG]),
      (TX_MULTISIG, [OP_SMALLINTEGER, OP_PUBKEYS, OP_SMALLINTEGER, OP_CHECKMULTISIG]),
      (TX_CREATE_SENDER, [OP_ADDRESS_TYPE, OP_ADDRESS, OP_SCRIPT_SIG, OP_SENDER, OP_VERSION, OP_GAS_LIMIT, OP_GAS_PRICE, OP_DATA, OP_CREATE]),
      (TX_CALL_SENDER, [OP_ADDRESS_TYPE, OP_ADDRESS, OP_SCRIPT_SIG, OP_SENDER, OP_VERSION, OP_GAS_LIMIT, OP_GAS_PRICE, OP_DATA, OP_PUBKEYHASH, OP_CALL]),
      (TX_CREATE, [OP_VERSION, OP_GAS_LIMIT, OP_GAS_PRICE, OP_DATA, OP_CREATE]),
      (TX_CALL, [OP_VERSION, OP_GAS_LIMIT, OP_GAS_PRICE, OP_DATA, OP_PUBKEYHASH, OP_CALL])]"

definition bad_multisig :: "bytes list \<Rightarrow> bool" where
  "bad_multisig sols = (let m = hd sols ! 0; n = last sols ! 0 in m < 1 \<or> n < 1 \<or> m > n \<or> int (length sols) - 2 \<noteq> uint n)"

primrec scan_templates :: "bool \<Rightarrow> bool \<Rightarrow> CScript \<Rightarrow> (txnouttype \<times> CScript) list \<Rightarrow> txnouttype \<times> bytes list" where
  "scan_templates contractConsensus allowEmptySenderSig scr [] = (TX_NONSTANDARD, [])"
| "scan_templates contractConsensus allowEmptySenderSig scr (tplate # rest) =
     (case compare_template contractConsensus allowEmptySenderSig scr (snd tplate) solver_start of
        Continue s \<Rightarrow> (if fst tplate = TX_MULTISIG \<and> bad_multisig (vSolutions s) then TX_NONSTANDARD else fst tplate, vSolutions s)
      | Break \<Rightarrow> scan_templates contractConsensus allowEmptySenderSig scr rest
      | Return_nonstandard s \<Rightarrow> (TX_NONSTANDARD, vSolutions s))"

definition Solver :: "CScript \<Rightarrow> bool \<Rightarrow> bool \<Rightarrow> txnouttype \<times> bytes list" where
  "Solver scr contractConsensus allowEmptySenderSig =
     (if IsPayToScriptHash scr then (TX_SCRIPTHASH, [take 20 (drop 2 scr)])
      else case IsWitnessProgram scr of
        Some (witnessversion, witnessprogram) \<Rightarrow>
          (if witnessversion = 0 \<and> length witnessprogram = 20 then (TX_WITNESS_V0_KEYHASH, [witnessprogram])
           else if witnessversion = 0 \<and> length witnessprogram = 32 then (TX_WITNESS_V0_SCRIPTHASH, [witnessprogram])
           else if witnessversion \<noteq> 0 then (TX_WITNESS_UNKNOWN, [[of_int witnessversion], witnessprogram])
           else (TX_NONSTANDARD, []))
      | None \<Rightarrow>
          if length scr \<ge> 1 \<and> scr ! 0 = OP_RETURN \<and> IsPushOnly (drop 1 scr) then (TX_NULL_DATA, [])
          else scan_templates contractConsensus allowEmptySenderSig scr mTemplates)"

section \<open>Destinations of scripts\<close>

definition ExtractDestination :: "CScript \<Rightarrow> txnouttype \<times> CTxDestination option" where
  "ExtractDestination scr =
     (case Solver scr False False of (whichType, sols) \<Rightarrow>
        (whichType,
         if whichType = TX_PUBKEY then
           (if \<not> pubkey_IsValid (CPubKey (sols ! 0)) then None else Some (PKHash (Hash160 (CPubKey (sols ! 0)))))
         else if whichType = TX_PUBKEYHASH then Some (PKHash (sols ! 0))
         else if whichType = TX_SCRIPTHASH then Some (ScriptHash (sols ! 0))
         else if whichType = TX_WITNESS_V0_KEYHASH then Some (WitnessV0KeyHash (sols ! 0))
         else if whichType = TX_WITNESS_V0_SCRIPTHASH then Some (WitnessV0ScriptHash (sols ! 0))
         else if whichType = TX_WITNESS_UNKNOWN then Some (WitnessUnknown (uint (sols ! 0 ! 0)) (sols ! 1))
         else None))"

text \<open>All destinations, with the number of signatures required.\<close>

definition ExtractDestinations :: "CScript \<Rightarrow> bool \<Rightarrow> txnouttype \<times> (CTxDestination list \<times> int) option" where
  "ExtractDestinations scr contractConsensus =
     (case Solver scr contractConsensus False of (typeRet, sols) \<Rightarrow>
        (typeRet,
         if typeRet = TX_NONSTANDARD \<or> typeRet = TX_NULL_DATA then None
         else if typeRet = TX_MULTISIG then
           let keys = filter pubkey_IsValid (map CPubKey (butlast (tl sols))) in
           if keys = [] then None else Some (map (\<lambda>pubKey. PKHash (Hash160 pubKey)) keys, uint (hd sols ! 0))
         else (case snd (ExtractDestination scr) of None \<Rightarrow> None | Some address \<Rightarrow> Some ([address], 1))))"

definition GetScriptForWitness :: "CScript \<Rightarrow> CScript option" where
  "GetScriptForWitness redeemscript =
     (case Solver redeemscript False False of (typ, sols) \<Rightarrow>
        if typ = TX_PUBKEY then GetScriptForDestination (WitnessV0KeyHash (Hash160 (sols ! 0)))
        else if typ = TX_PUBKEYHASH then GetScriptForDestination (WitnessV0KeyHash (sols ! 0))
        else GetScriptForDestination (WitnessV0ScriptHash (fst (CSHA256_Finalize (CSHA256_Write redeemscript CSHA256_new)))))"

section \<open>Senders of contract outputs\<close>

definition ExtractSenderData :: "CScript \<Rightarrow> (CScript \<times> CScript) option" where
  "ExtractSenderData outputPubKey =
     (if HasOpSender outputPubKey then
        (case (if fst (Solver outputPubKey True False) \<noteq> TX_NONSTANDARD then Solver outputPubKey True False else Solver outputPubKey False False) of
          (typ, sols) \<Rightarrow>
            if typ = TX_NONSTANDARD then None
            else if length sols < 2 then None
            else (case (Unserialize_bytes (sols ! 0), Unserialize_bytes (sols ! 1)) of
                (Inr (senderPubKey, rest1), Inr (senderSig, rest2)) \<Rightarrow> Some (senderPubKey, senderSig)
              | _ \<Rightarrow> None))
      else None)"

definition GetSenderPubKey :: "CScript \<Rightarrow> CScript option" where
  "GetSenderPubKey outputPubKey =
     (if HasOpSender outputPubKey then
        (case (if fst (Solver outputPubKey True True) \<noteq> TX_NONSTANDARD then Solver outputPubKey True True else Solver outputPubKey False True) of
          (typ, sols) \<Rightarrow>
            if typ = TX_NONSTANDARD then None
            else if length sols < 1 then None
            else (case Unserialize_bytes (sols ! 0) of Inr (senderPubKey, rest) \<Rightarrow> Some senderPubKey | Inl e \<Rightarrow> None))
      else None)"

section \<open>Matching, step by step\<close>

lemma GetScriptOp_opcode: "opcode > OP_PUSHDATA4 \<Longrightarrow> GetScriptOp (opcode # pc) = Some (opcode, [], pc)"
  by (simp add: GetScriptOp_def not_less [symmetric])

lemma compare_step:
  assumes "GetScriptOp pc1 = Some (opcode1, vch1, pc1')" "opcode2 > OP_PUSHDATA4" "opcode2 \<noteq> OP_PUBKEYS"
  shows "compare_template cc allow pc1 (opcode2 # pc2) s =
    (case match_op cc allow opcode1 vch1 opcode2 [] s of
       Break \<Rightarrow> Break | Return_nonstandard s \<Rightarrow> Return_nonstandard s | Continue s \<Rightarrow> compare_template cc allow pc1' pc2 s)"
  by (subst compare_template.simps) (use assms in \<open>simp add: GetScriptOp_opcode\<close>)

lemma compare_done: "compare_template cc allow [] [] s = Continue s"
  by (subst compare_template.simps) simp

lemma compare_pubkeys:
  assumes "GetScriptOp pc1 = Some (opcode1, vch1, pc1')" "take_pubkeys (vSolutions s) opcode1 vch1 pc1' = (sols, opcode, vch, pc)"
    and "opcode2 > OP_PUSHDATA4"
  shows "compare_template cc allow pc1 (OP_PUBKEYS # opcode2 # pc2) s =
    (case match_op cc allow opcode vch opcode2 [] (s\<lparr>vSolutions := sols\<rparr>) of
       Break \<Rightarrow> Break | Return_nonstandard s \<Rightarrow> Return_nonstandard s | Continue s \<Rightarrow> compare_template cc allow pc pc2 s)"
  by (subst compare_template.simps) (use assms in \<open>simp add: GetScriptOp_opcode\<close>)

text \<open>A template whose first operation does not fit.\<close>

lemma scan_skip:
  "compare_template cc allow scr tpl solver_start = Break \<Longrightarrow> scan_templates cc allow scr ((t, tpl) # rest) = scan_templates cc allow scr rest"
  by simp

lemma scan_found:
  "compare_template cc allow scr tpl solver_start = Continue s \<Longrightarrow> \<not> (t = TX_MULTISIG \<and> bad_multisig (vSolutions s)) \<Longrightarrow>
   scan_templates cc allow scr ((t, tpl) # rest) = (t, vSolutions s)"
  by auto

lemmas match_simps = match_op_def solved_def solver_start_def

section \<open>Destinations\<close>

definition valid_destination :: "CTxDestination \<Rightarrow> bool" where
  "valid_destination dest = (case dest of CNoDestination \<Rightarrow> False | PKHash h \<Rightarrow> length h = 20 | ScriptHash h \<Rightarrow> length h = 20
     | WitnessV0ScriptHash h \<Rightarrow> length h = 32 | WitnessV0KeyHash h \<Rightarrow> length h = 20
     | WitnessUnknown version program \<Rightarrow> 1 \<le> version \<and> version \<le> 16 \<and> 2 \<le> length program \<and> length program \<le> 40)"

lemma get_push20: "length h = 20 \<Longrightarrow> GetScriptOp (0x14 # h @ pc) = Some (0x14, h, pc)"
  using get_push [of h pc] by simp

lemma Solver_p2pkh:
  assumes "length h = 20"
  shows "Solver (p2pkh h) cc allow = (TX_PUBKEYHASH, [h])"
proof -
  have pk: "compare_template cc allow (p2pkh h) [OP_PUBKEY, OP_CHECKSIG] solver_start = Break"
    unfolding p2pkh_def by (simp add: compare_step GetScriptOp_opcode match_simps)
  have pkh: "compare_template cc allow (p2pkh h) [OP_DUP, OP_HASH160, OP_PUBKEYHASH, OP_EQUALVERIFY, OP_CHECKSIG] solver_start =
      Continue (solver_start\<lparr>vSolutions := [h]\<rparr>)"
    unfolding p2pkh_def
    by (simp add: compare_step GetScriptOp_opcode get_push20 [OF assms] match_simps compare_done assms)
  have "scan_templates cc allow (p2pkh h) mTemplates = (TX_PUBKEYHASH, [h])"
    unfolding mTemplates_def using pk pkh by simp
  with assms show ?thesis by (simp add: Solver_def IsPayToScriptHash_def IsWitnessProgram_def p2pkh_def)
qed

lemma p2pkh_destination: "length h = 20 \<Longrightarrow> GetScriptForDestination (PKHash h) = Some (p2pkh h)"
  by (simp add: GetScriptForDestination_def p2pkh_def push_data_short)

lemma IsWitnessProgram_push:
  "2 \<le> length program \<Longrightarrow> length program \<le> 40 \<Longrightarrow> DecodeOP_N opcode = Some version \<Longrightarrow>
   IsWitnessProgram (opcode # of_nat (length program) # program) = Some (version, program)"
  by (auto simp: IsWitnessProgram_def DecodeOP_N_def unat_of_nat take_bit_nat_eq_self nth_Cons split: if_splits)

lemma EncodeOP_N_Decode: "0 \<le> n \<Longrightarrow> n \<le> 16 \<Longrightarrow> \<exists>opcode. EncodeOP_N n = Some opcode \<and> DecodeOP_N opcode = Some n"
proof -
  assume "0 \<le> n" "n \<le> 16"
  then have "n \<in> {0, 1, 2, 3, 4, 5, 6, 7, 8, 9, 10, 11, 12, 13, 14, 15, 16}" by (simp; arith)
  then show ?thesis by (auto simp: EncodeOP_N_def DecodeOP_N_def)
qed

lemma not_script_hash: "DecodeOP_N opcode = Some n \<Longrightarrow> \<not> IsPayToScriptHash (opcode # scr)"
  by (auto simp: IsPayToScriptHash_def DecodeOP_N_def split: if_splits)

lemma Extract_witness:
  assumes "valid_destination dest" "GetScriptForDestination dest = Some scr"
  shows "snd (ExtractDestination scr) = Some dest"
proof (cases dest)
  case (PKHash h)
  with assms show ?thesis by (auto simp: valid_destination_def p2pkh_destination ExtractDestination_def Solver_p2pkh)
next
  case (ScriptHash h)
  with assms show ?thesis
    by (auto simp: valid_destination_def GetScriptForDestination_def push_data_short ExtractDestination_def Solver_def IsPayToScriptHash_def nth_append nth_Cons)
next
  case (WitnessV0ScriptHash h)
  with assms IsWitnessProgram_push [of h OP_0 0] not_script_hash [of OP_0 0] show ?thesis
    by (auto simp: valid_destination_def GetScriptForDestination_def push_data_short ExtractDestination_def Solver_def DecodeOP_N_def)
next
  case (WitnessV0KeyHash h)
  with assms IsWitnessProgram_push [of h OP_0 0] not_script_hash [of OP_0 0] show ?thesis
    by (auto simp: valid_destination_def GetScriptForDestination_def push_data_short ExtractDestination_def Solver_def DecodeOP_N_def)
next
  case (WitnessUnknown version program)
  with assms(1) have v: "1 \<le> version" "version \<le> 16" "2 \<le> length program" "length program \<le> 40" by (simp_all add: valid_destination_def)
  with EncodeOP_N_Decode [of version] obtain opcode where o: "EncodeOP_N version = Some opcode" "DecodeOP_N opcode = Some version" by auto
  have "scr = opcode # of_nat (length program) # program"
    using assms(2) WitnessUnknown o(1) v by (simp add: GetScriptForDestination_def push_data_short)
  moreover have "uint (of_int version :: u8) = version" using v by (simp add: unsigned_of_int take_bit_int_eq_self)
  ultimately show ?thesis
    using WitnessUnknown v IsWitnessProgram_push [OF v(3,4) o(2)] not_script_hash [OF o(2)] by (simp add: ExtractDestination_def Solver_def)
qed (use assms in \<open>simp add: valid_destination_def\<close>)

section \<open>Multisignature scripts\<close>

lemma take_pubkeys_push:
  assumes "\<forall>k \<in> set keys. 33 \<le> length k \<and> length k \<le> 65" "opcode > OP_PUSHDATA4"
    and "33 \<le> length vch" "length vch \<le> 65"
  shows "take_pubkeys sols opcode1 vch (concat (map push_data keys) @ opcode # pc) = (sols @ vch # keys, opcode, [], pc)"
  using assms(1,3,4)
proof (induction keys arbitrary: sols opcode1 vch)
  case Nil
  then show ?case using assms(2)
    by (simp add: take_pubkeys.simps [of sols] GetScriptOp_opcode) (simp add: take_pubkeys.simps)
next
  case (Cons k keys)
  then have k: "33 \<le> length k" "length k \<le> 65" by simp_all
  then have "GetScriptOp (push_data k @ concat (map push_data keys) @ opcode # pc) = Some (of_nat (length k), k, concat (map push_data keys) @ opcode # pc)"
    using get_push [of k "concat (map push_data keys) @ opcode # pc"] by (simp add: push_data_short flip: length_greater_0_conv)
  with Cons k show ?case by (simp add: take_pubkeys.simps [of sols])
qed

lemma Encode_opcode: "1 \<le> n \<Longrightarrow> n \<le> 16 \<Longrightarrow> EncodeOP_N n = Some opcode \<Longrightarrow> opcode > OP_PUSHDATA4 \<and> OP_1 \<le> opcode \<and> opcode \<le> OP_16"
proof -
  assume "1 \<le> n" "n \<le> 16" "EncodeOP_N n = Some opcode"
  moreover from this have "n \<in> {1, 2, 3, 4, 5, 6, 7, 8, 9, 10, 11, 12, 13, 14, 15, 16}" by (simp; arith)
  ultimately show ?thesis by (auto simp: EncodeOP_N_def)
qed

lemma Solver_multisig:
  assumes m: "1 \<le> m" "m \<le> int (length keys)" "length keys \<le> 16" and keys: "\<forall>k \<in> set keys. 33 \<le> length k \<and> length k \<le> 65"
    and scr: "GetScriptForMultisig m keys = Some scr"
  shows "Solver scr cc allow = (TX_MULTISIG, [of_int m] # keys @ [[of_nat (length keys)]])"
proof -
  obtain om where om: "EncodeOP_N m = Some om" "DecodeOP_N om = Some m" using EncodeOP_N_Decode [of m] m by auto
  obtain on where on: "EncodeOP_N (int (length keys)) = Some on" "DecodeOP_N on = Some (int (length keys))"
    using EncodeOP_N_Decode [of "int (length keys)"] m by auto
  have om': "om > OP_PUSHDATA4" "OP_1 \<le> om" "om \<le> OP_16" using Encode_opcode [OF m(1) _ om(1)] m by auto
  have on': "on > OP_PUSHDATA4" "OP_1 \<le> on" "on \<le> OP_16" using Encode_opcode [OF _ _ on(1)] m by auto
  obtain k ks where ks: "keys = k # ks" using m by (cases keys) auto
  with keys have k: "33 \<le> length k" "length k \<le> 65" by auto
  define rest where "rest = concat (map push_data ks) @ [on, OP_CHECKMULTISIG]"
  have scr': "scr = om # of_nat (length k) # k @ rest"
    using scr om on ks k by (simp add: GetScriptForMultisig_def push_data_short rest_def)
  have push: "GetScriptOp (of_nat (length k) # k @ rest) = Some (of_nat (length k), k, rest)" using k by (intro get_push) auto
  have tp: "take_pubkeys [[of_int m]] (of_nat (length k)) k rest = ([of_int m] # keys, on, [], [OP_CHECKMULTISIG])"
    using take_pubkeys_push [of ks on k "[[of_int m]]" _ "[OP_CHECKMULTISIG]"] keys ks k on'(1) by (simp add: rest_def)
  have pk: "compare_template cc allow scr [OP_PUBKEY, OP_CHECKSIG] solver_start = Break"
    unfolding scr' using om'(1) by (simp add: compare_step GetScriptOp_opcode match_simps)
  have pkh: "compare_template cc allow scr [OP_DUP, OP_HASH160, OP_PUBKEYHASH, OP_EQUALVERIFY, OP_CHECKSIG] solver_start = Break"
    unfolding scr' using om' by (auto simp: compare_step GetScriptOp_opcode match_simps)
  have ms: "compare_template cc allow scr [OP_SMALLINTEGER, OP_PUBKEYS, OP_SMALLINTEGER, OP_CHECKMULTISIG] solver_start =
      Continue (solver_start\<lparr>vSolutions := [of_int m] # keys @ [[of_nat (length keys)]]\<rparr>)"
    unfolding scr' using om om' on on' push tp
    by (simp add: compare_step GetScriptOp_opcode match_simps compare_pubkeys compare_done)
  have word: "uint (of_nat (length keys) :: u8) = int (length keys)" "uint (of_int m :: u8) = m"
    using m by (simp_all add: unsigned_of_int unsigned_of_nat take_bit_int_eq_self take_bit_nat_eq_self)
  have "\<not> bad_multisig ([of_int m] # keys @ [[of_nat (length keys)]])"
    using m word by (auto simp: bad_multisig_def Let_def word_less_def word_le_def)
  then have "scan_templates cc allow scr mTemplates = (TX_MULTISIG, [of_int m] # keys @ [[of_nat (length keys)]])"
    unfolding mTemplates_def using pk pkh ms by simp
  moreover have "\<not> IsPayToScriptHash scr" "IsWitnessProgram scr = None" "scr ! 0 \<noteq> OP_RETURN"
    using om om' m k by (auto simp: not_script_hash scr' IsWitnessProgram_def rest_def unat_of_nat take_bit_nat_eq_self)
  ultimately show ?thesis by (simp add: Solver_def)
qed

section \<open>Contract outputs with a sender\<close>

lemma get_push_data:
  "length d < 2 ^ 32 \<Longrightarrow> GetScriptOp (push_data d @ pc) = Some (hd (push_data d), d, pc)"
  "length d < 2 ^ 32 \<Longrightarrow> hd (push_data d) \<le> OP_PUSHDATA4"
proof -
  assume d: "length d < 2 ^ 32"
  obtain opcode where o: "opcode \<le> OP_PUSHDATA4" "single_op (push_data d) opcode d" using push_data_single [OF d] by blast
  have "push_data d \<noteq> []" by (auto simp: push_data_def)
  then have "opcode = hd (push_data d)" using o(2) GetScriptOp_hd [of "push_data d @ pc"] by (auto simp: single_op_def)
  with o show "GetScriptOp (push_data d @ pc) = Some (hd (push_data d), d, pc)" "hd (push_data d) \<le> OP_PUSHDATA4"
    by (simp_all add: single_op_def)
qed

definition gas_ok :: "bytes \<Rightarrow> u64 \<Rightarrow> bool" where
  "gas_ok vch limit \<longleftrightarrow> (\<exists>val. vch_to_uint64 vch = Inr val \<and> 1 \<le> val \<and> val \<le> limit)"

lemma gas_ok_length: "gas_ok vch limit \<Longrightarrow> length vch \<le> 8"
  by (auto simp: gas_ok_def vch_to_uint64_def split: if_splits)

definition contract_prefix :: "bytes \<Rightarrow> bytes \<Rightarrow> bytes \<Rightarrow> bytes \<Rightarrow> bytes \<Rightarrow> CScript" where
  "contract_prefix h sig gasLimit gasPrice bytecode =
     push_data [1] @ push_data h @ push_data sig @ [OP_SENDER] @
     push_data [4] @ push_data gasLimit @ push_data gasPrice @ push_data bytecode"

lemma compare_contract_prefix:
  assumes "length h = 20" "sig \<noteq> []" "length sig \<le> MAX_BASE_SCRIPT_SIZE" "gas_ok gasLimit MAX_BLOCK_GAS_LIMIT_DGP" "gas_ok gasPrice (- 1)"
    and "bytecode \<noteq> []" "length bytecode < 2 ^ 32"
  shows "compare_template True allow (contract_prefix h sig gasLimit gasPrice bytecode @ pc)
      ([OP_ADDRESS_TYPE, OP_ADDRESS, OP_SCRIPT_SIG, OP_SENDER, OP_VERSION, OP_GAS_LIMIT, OP_GAS_PRICE, OP_DATA] @ tpl) solver_start =
    compare_template True allow pc tpl \<lparr>vSolutions = [Serialize_bytes (p2pkh h), sig], addressType = 1, vmVersion = 4\<rparr>"
proof -
  have len: "length sig < 2 ^ 32" "length h < 2 ^ 32" "length gasLimit < 2 ^ 32" "length gasPrice < 2 ^ 32"
    using assms(1,3) gas_ok_length [OF assms(4)] gas_ok_length [OF assms(5)] by simp_all
  obtain gl where gl: "vch_to_uint64 gasLimit = Inr gl" "gl \<noteq> 0" "\<not> gl > MAX_BLOCK_GAS_LIMIT_DGP" using assms(4) by (fastforce simp: gas_ok_def)
  obtain gp where gp: "vch_to_uint64 gasPrice = Inr gp" "gp \<noteq> 0" using assms(5) by (fastforce simp: gas_ok_def)
  have one: "vch_to_uint64 [1] = Inr 1" "vch_to_uint64 [4] = Inr 4" by code_simp+
  note push = get_push_data [OF len(1)] get_push_data [OF len(2)] get_push_data [OF len(3)] get_push_data [OF len(4)] get_push_data [OF assms(7)]
    get_push_data [of "[1]"] get_push_data [of "[4]"]
  show ?thesis
    unfolding contract_prefix_def append_assoc append_Cons append_Nil
    using assms(1,2,3,6) one
    by (simp add: gl gp compare_step push GetScriptOp_opcode match_simps match_version_def match_gas_limit_def match_gas_price_def
        match_address_type_def match_address_def match_script_sig_def p2pkh_destination rootVM_def VersionVM_GetEVMDefault_def)
qed

lemma contract_prefix_start:
  assumes "length h = 20"
  shows "contract_prefix h sig gasLimit gasPrice bytecode @ pc =
    [1, 1] @ push_data h @ push_data sig @ [OP_SENDER] @ push_data [4] @ push_data gasLimit @ push_data gasPrice @ push_data bytecode @ pc"
  using assms by (simp add: contract_prefix_def push_data_short)

lemma contract_prefix_skips:
  assumes "length h = 20"
  shows "compare_template cc allow (contract_prefix h sig gasLimit gasPrice bytecode @ pc) [OP_PUBKEY, OP_CHECKSIG] solver_start = Break"
    "compare_template cc allow (contract_prefix h sig gasLimit gasPrice bytecode @ pc)
       [OP_DUP, OP_HASH160, OP_PUBKEYHASH, OP_EQUALVERIFY, OP_CHECKSIG] solver_start = Break"
    "compare_template cc allow (contract_prefix h sig gasLimit gasPrice bytecode @ pc)
       [OP_SMALLINTEGER, OP_PUBKEYS, OP_SMALLINTEGER, OP_CHECKMULTISIG] solver_start = Break"
proof -
  have "\<not> OP_1 \<le> (1 :: opcodetype)" by (simp add: word_le_def)
  then show "compare_template cc allow (contract_prefix h sig gasLimit gasPrice bytecode @ pc)
       [OP_SMALLINTEGER, OP_PUBKEYS, OP_SMALLINTEGER, OP_CHECKMULTISIG] solver_start = Break"
    by (simp add: contract_prefix_start [OF assms] compare_step GetScriptOp_def match_simps)
qed (simp_all add: contract_prefix_start [OF assms] compare_step GetScriptOp_def match_simps)

lemma Solver_contract:
  assumes "length h = 20" "scr = contract_prefix h sig gasLimit gasPrice bytecode @ pc"
  shows "Solver scr True allow = scan_templates True allow scr (drop 3 mTemplates)"
  using contract_prefix_skips [OF assms(1), of True allow sig gasLimit gasPrice bytecode pc] contract_prefix_start [OF assms(1), of sig gasLimit gasPrice bytecode pc]
  unfolding assms(2) by (simp add: Solver_def mTemplates_def IsPayToScriptHash_def IsWitnessProgram_def)

lemma Find_contract:
  assumes "length h = 20" "length sig < 2 ^ 32" "length gasLimit < 2 ^ 32" "length gasPrice < 2 ^ 32" "length bytecode < 2 ^ 32"
  shows "Find OP_SENDER (contract_prefix h sig gasLimit gasPrice bytecode @ pc) = 1 + Find OP_SENDER pc"
proof -
  have push: "Find OP_SENDER (push_data d @ rest) = Find OP_SENDER rest" if "length d < 2 ^ 32" for d rest
    using get_push_data [OF that] by (subst Find.simps) auto
  have "Find OP_SENDER (OP_SENDER # rest) = 1 + Find OP_SENDER rest" for rest
    by (subst Find.simps) (simp add: GetScriptOp_opcode)
  with push assms show ?thesis by (simp add: contract_prefix_def)
qed

section \<open>Properties\<close>

lemma valid_destination_script: "valid_destination dest \<Longrightarrow> \<exists>scr. GetScriptForDestination dest = Some scr"
proof (cases dest)
  case (WitnessUnknown version program)
  then show "valid_destination dest \<Longrightarrow> ?thesis"
    using EncodeOP_N_Decode [of version] by (auto simp: valid_destination_def GetScriptForDestination_def)
qed (simp_all add: GetScriptForDestination_def)

text \<open>
  C23: Property: destinations are recovered from their scripts.  For every kind of destination the script built for it exists,
  and extracting the destination from this script gives it back.  A multisignature script built from keys of usual
  sizes is recognized with exactly these keys and the number of signatures required.
\<close>

theorem destination_round_trip:
  assumes "valid_destination dest" "1 \<le> m" "m \<le> int (length keys)" "length keys \<le> 16" "\<forall>k \<in> set keys. 33 \<le> length k \<and> length k \<le> 65"
  shows "(\<exists>scr. GetScriptForDestination dest = Some scr \<and> snd (ExtractDestination scr) = Some dest) \<and>
    (\<exists>scr. GetScriptForMultisig m keys = Some scr \<and> Solver scr cc allow = (TX_MULTISIG, [of_int m] # keys @ [[of_nat (length keys)]]))"
proof -
  obtain scr where scr: "GetScriptForDestination dest = Some scr" using valid_destination_script [OF assms(1)] by blast
  have "\<exists>scr. GetScriptForMultisig m keys = Some scr"
    using EncodeOP_N_Decode [of m] EncodeOP_N_Decode [of "int (length keys)"] assms(2-4) by (auto simp: GetScriptForMultisig_def)
  then show ?thesis using Extract_witness [OF assms(1) scr] Solver_multisig [OF assms(2-5)] scr by blast
qed

theorem destination_round_trip_witness:
  "(\<exists>scr. GetScriptForDestination (WitnessUnknown 3 [1, 2, 3]) = Some scr \<and> snd (ExtractDestination scr) = Some (WitnessUnknown 3 [1, 2, 3])) \<and>
   (\<exists>scr. GetScriptForMultisig 1 [replicate 33 2, replicate 65 4] = Some scr \<and>
      Solver scr False False = (TX_MULTISIG, [[1], replicate 33 2, replicate 65 4, [2]]))"
proof -
  have "valid_destination (WitnessUnknown 3 [1, 2, 3])" by (simp add: valid_destination_def)
  from destination_round_trip [OF this, of 1 "[replicate 33 2, replicate 65 4]" False False] show ?thesis by simp
qed

text \<open>
  C27: Property: the sender of a contract output is found.  An output that names the key hash of a sender and carries the sender's
  signature before a contract creation or call, with gas values in the consensus range, is recognized as such, and the
  data extracted from it are the script that pays to this key hash, and the signature script.
\<close>

theorem contract_sender_extracted:
  assumes "length h = 20" "length (Serialize_bytes sig) \<le> MAX_BASE_SCRIPT_SIZE" "fits_MAX_SIZE sig"
    and "gas_ok gasLimit MAX_BLOCK_GAS_LIMIT_DGP" "gas_ok gasPrice (- 1)" "bytecode \<noteq> []" "length bytecode < 2 ^ 32" "length contract = 20"
  shows "ExtractSenderData (contract_prefix h (Serialize_bytes sig) gasLimit gasPrice bytecode @ [OP_CREATE]) = Some (p2pkh h, sig) \<and>
    ExtractSenderData (contract_prefix h (Serialize_bytes sig) gasLimit gasPrice bytecode @ push_data contract @ [OP_CALL]) = Some (p2pkh h, sig)"
proof -
  have ne: "Serialize_bytes sig \<noteq> []" by (simp add: Serialize_bytes_def WriteCompactSize_def ser_writedata8_def flip: length_greater_0_conv)
  note cmp = compare_contract_prefix [OF assms(1) ne assms(2,4-7), of False]
  have len: "length (Serialize_bytes sig) < 2 ^ 32" "length gasLimit < 2 ^ 32" "length gasPrice < 2 ^ 32"
    using assms(2) gas_ok_length [OF assms(4)] gas_ok_length [OF assms(5)] by simp_all
  have c20: "length contract < 2 ^ 32" "hd (push_data contract) = 20" using assms(8) by (simp_all add: push_data_short)
  have data: "Unserialize_bytes (Serialize_bytes (p2pkh h)) = Inr (p2pkh h, [])" "Unserialize_bytes (Serialize_bytes sig) = Inr (sig, [])"
    using blob.decode_exact [of "p2pkh h"] blob.decode_exact [OF assms(3)] assms(1) by (simp_all add: p2pkh_def fits_MAX_SIZE_def)
  let ?create = "contract_prefix h (Serialize_bytes sig) gasLimit gasPrice bytecode @ [OP_CREATE]"
  let ?call = "contract_prefix h (Serialize_bytes sig) gasLimit gasPrice bytecode @ push_data contract @ [OP_CALL]"
  have "Solver ?create True False = (TX_CREATE_SENDER, [Serialize_bytes (p2pkh h), Serialize_bytes sig])"
    using cmp [of "[OP_CREATE]" "[OP_CREATE]"]
    by (simp add: Solver_contract [OF assms(1) refl] mTemplates_def compare_step GetScriptOp_opcode match_op_def compare_done)
  moreover have "Solver ?call True False = (TX_CALL_SENDER, [Serialize_bytes (p2pkh h), Serialize_bytes sig, contract])"
    using cmp [of "push_data contract @ [OP_CALL]" "[OP_CREATE]"] cmp [of "push_data contract @ [OP_CALL]" "[OP_PUBKEYHASH, OP_CALL]"] c20(2) assms(8)
    by (simp add: Solver_contract [OF assms(1) refl] mTemplates_def compare_step get_push_data(1) [OF c20(1)] GetScriptOp_opcode match_op_def solved_def compare_done)
  moreover have single: "Find OP_SENDER [OP_CREATE] = 0" "Find OP_SENDER (push_data contract @ [OP_CALL]) = 0"
    by (simp_all add: Find.simps get_push_data(1) [OF c20(1)] GetScriptOp_opcode c20)
  moreover have "HasOpSender ?create" "HasOpSender ?call"
    using Find_contract [OF assms(1) len assms(7)] single by (simp_all add: HasOpSender_def)
  ultimately show ?thesis by (simp add: ExtractSenderData_def data)
qed

theorem contract_sender_extracted_witness:
  "ExtractSenderData (contract_prefix (replicate 20 7) (Serialize_bytes [1, 2]) [16, 39] [40] [1, 2, 3] @ [OP_CREATE]) = Some (p2pkh (replicate 20 7), [1, 2])"
proof -
  have gas: "gas_ok [16, 39] MAX_BLOCK_GAS_LIMIT_DGP" "gas_ok [40] (- 1)"
    by (simp_all add: gas_ok_def vch_to_uint64_def)
  have "length (Serialize_bytes [1, 2]) \<le> MAX_BASE_SCRIPT_SIZE" by code_simp
  from contract_sender_extracted [of "replicate 20 7", OF _ this _ gas, of "[1, 2, 3]" "replicate 20 1"] show ?thesis
    by (simp add: fits_MAX_SIZE_def)
qed

end
