(* ===== verification/Coins.thy ===== *)
theory Coins
  imports Transaction "HOL-Library.AList"
begin

text \<open>
  The set of unspent outputs (src/src/coins.h, coins.cpp, the coin database of
  txdb.cpp).  A view is what \<open>GetCoin\<close> answers for every outpoint; the cache keeps
  entries with the flags DIRTY and FRESH over a base view.  The cache's hash map is an
  association list in iteration order.  \<open>mem\<close> is the heap memory of a script, which the
  allocator decides; the cache only adds and subtracts it.

  The abstract specification is a partial map from outpoints to coins.  The lemmas show
  that every operation of the cache implements its effect on that map, keeps the
  coherence of the flags and of the memory account, and that flushing to a base, be it
  the database or another cache, transfers exactly the cached changes.
\<close>

section \<open>Coins\<close>

record Coin =
  out :: CTxOut
  fCoinBase :: bool
  fCoinStake :: bool
  coinHeight :: "30 word"

definition mkCoin :: "CTxOut \<Rightarrow> int \<Rightarrow> bool \<Rightarrow> bool \<Rightarrow> Coin" where
  "mkCoin outIn nHeightIn fCoinBaseIn fCoinStakeIn =
     \<lparr>out = outIn, fCoinBase = fCoinBaseIn, fCoinStake = fCoinStakeIn, coinHeight = of_int nHeightIn\<rparr>"

definition coinEmpty :: Coin where
  "coinEmpty = \<lparr>out = CTxOut_null, fCoinBase = False, fCoinStake = False, coinHeight = 0\<rparr>"

definition IsSpent :: "Coin \<Rightarrow> bool" where
  "IsSpent c \<longleftrightarrow> CTxOut_IsNull (out c)"

text \<open>An entry; the two bits of \<open>flags\<close> are its two booleans.\<close>

record CCoinsCacheEntry =
  coin :: Coin
  dirty :: bool
  fresh :: bool

type_synonym CCoinsMap = "(COutPoint \<times> CCoinsCacheEntry) list"

record CCoinsViewCache =
  hashBlock :: uint256
  cacheCoins :: CCoinsMap
  cachedCoinsUsage :: u64

type_synonym coins_view = "COutPoint \<Rightarrow> Coin option"
type_synonym mem_usage = "CScript \<Rightarrow> u64"

abbreviation usage :: "mem_usage \<Rightarrow> Coin \<Rightarrow> u64" where
  "usage mem c \<equiv> mem (scriptPubKey (out c))"

datatype coins_error =
    Assert_unspent
  | Assert_is_spent
  | Replaces_unspent
  | Fresh_misapplied
  | Assert_hashBlock
  | Assert_old_heads

definition CCoinsViewCache_new :: CCoinsViewCache where
  "CCoinsViewCache_new = \<lparr>hashBlock = uint256_null, cacheCoins = [], cachedCoinsUsage = 0\<rparr>"

section \<open>The cache\<close>

definition FetchCoin :: "mem_usage \<Rightarrow> coins_view \<Rightarrow> COutPoint \<Rightarrow> CCoinsViewCache
    \<Rightarrow> CCoinsCacheEntry option \<times> CCoinsViewCache" where
  "FetchCoin mem base p c =
     (case map_of (cacheCoins c) p of
        Some e \<Rightarrow> (Some e, c)
      | None \<Rightarrow> (case base p of
            None \<Rightarrow> (None, c)
          | Some tmp \<Rightarrow>
              let e = \<lparr>coin = tmp, dirty = False, fresh = IsSpent tmp\<rparr>
              in (Some e, c\<lparr>cacheCoins := AList.update p e (cacheCoins c),
                             cachedCoinsUsage := cachedCoinsUsage c + usage mem tmp\<rparr>)))"

definition GetCoin :: "mem_usage \<Rightarrow> coins_view \<Rightarrow> COutPoint \<Rightarrow> CCoinsViewCache \<Rightarrow> Coin option \<times> CCoinsViewCache" where
  "GetCoin mem base p c =
     (case FetchCoin mem base p c of
        (Some e, c) \<Rightarrow> (if IsSpent (coin e) then None else Some (coin e), c)
      | (None, c) \<Rightarrow> (None, c))"

definition AddCoin :: "mem_usage \<Rightarrow> COutPoint \<Rightarrow> Coin \<Rightarrow> bool \<Rightarrow> CCoinsViewCache \<Rightarrow> coins_error + CCoinsViewCache" where
  "AddCoin mem p cn possible_overwrite c =
     (if IsSpent cn then Inl Assert_unspent
      else if IsUnspendable (scriptPubKey (out cn)) then Inr c
      else
        let inserted = (map_of (cacheCoins c) p = None);
            e = (case map_of (cacheCoins c) p of Some e \<Rightarrow> e
                 | None \<Rightarrow> \<lparr>coin = coinEmpty, dirty = False, fresh = False\<rparr>);
            used = (if inserted then cachedCoinsUsage c else cachedCoinsUsage c - usage mem (coin e))
        in if \<not> possible_overwrite \<and> \<not> IsSpent (coin e) then Inl Replaces_unspent
           else
             let isfresh = (\<not> possible_overwrite \<and> \<not> dirty e);
                 e' = \<lparr>coin = cn, dirty = True, fresh = fresh e \<or> isfresh\<rparr>
             in Inr (c\<lparr>cacheCoins := AList.update p e' (cacheCoins c),
                       cachedCoinsUsage := used + usage mem cn\<rparr>))"

definition SpendCoin :: "mem_usage \<Rightarrow> coins_view \<Rightarrow> COutPoint \<Rightarrow> CCoinsViewCache \<Rightarrow> Coin option \<times> CCoinsViewCache" where
  "SpendCoin mem base p c =
     (case FetchCoin mem base p c of
        (None, c) \<Rightarrow> (None, c)
      | (Some e, c) \<Rightarrow>
          (Some (coin e),
           if fresh e
           then c\<lparr>cacheCoins := AList.delete p (cacheCoins c),
                  cachedCoinsUsage := cachedCoinsUsage c - usage mem (coin e)\<rparr>
           else c\<lparr>cacheCoins := AList.update p \<lparr>coin = coinEmpty, dirty = True, fresh = fresh e\<rparr> (cacheCoins c),
                  cachedCoinsUsage := cachedCoinsUsage c - usage mem (coin e)\<rparr>))"

definition AccessCoin :: "mem_usage \<Rightarrow> coins_view \<Rightarrow> COutPoint \<Rightarrow> CCoinsViewCache \<Rightarrow> Coin \<times> CCoinsViewCache" where
  "AccessCoin mem base p c =
     (case FetchCoin mem base p c of (None, c) \<Rightarrow> (coinEmpty, c) | (Some e, c) \<Rightarrow> (coin e, c))"

definition HaveCoin :: "mem_usage \<Rightarrow> coins_view \<Rightarrow> COutPoint \<Rightarrow> CCoinsViewCache \<Rightarrow> bool \<times> CCoinsViewCache" where
  "HaveCoin mem base p c =
     (case FetchCoin mem base p c of (None, c) \<Rightarrow> (False, c) | (Some e, c) \<Rightarrow> (\<not> IsSpent (coin e), c))"

definition HaveCoinInCache :: "COutPoint \<Rightarrow> CCoinsViewCache \<Rightarrow> bool" where
  "HaveCoinInCache p c =
     (case map_of (cacheCoins c) p of None \<Rightarrow> False | Some e \<Rightarrow> \<not> IsSpent (coin e))"

definition GetBestBlock :: "uint256 \<Rightarrow> CCoinsViewCache \<Rightarrow> uint256 \<times> CCoinsViewCache" where
  "GetBestBlock base_best c =
     (if uint256_IsNull (hashBlock c) then (base_best, c\<lparr>hashBlock := base_best\<rparr>) else (hashBlock c, c))"

definition SetBestBlock :: "uint256 \<Rightarrow> CCoinsViewCache \<Rightarrow> CCoinsViewCache" where
  "SetBestBlock hashBlockIn c = c\<lparr>hashBlock := hashBlockIn\<rparr>"

definition Uncache :: "mem_usage \<Rightarrow> COutPoint \<Rightarrow> CCoinsViewCache \<Rightarrow> CCoinsViewCache" where
  "Uncache mem p c =
     (case map_of (cacheCoins c) p of
        None \<Rightarrow> c
      | Some e \<Rightarrow> if \<not> dirty e \<and> \<not> fresh e
          then c\<lparr>cacheCoins := AList.delete p (cacheCoins c),
                 cachedCoinsUsage := cachedCoinsUsage c - usage mem (coin e)\<rparr>
          else c)"

definition GetCacheSize :: "CCoinsViewCache \<Rightarrow> nat" where
  "GetCacheSize c = length (cacheCoins c)"

text \<open>One step of the loop of BatchWrite: the child's entry \<open>e\<close> for outpoint \<open>p\<close> goes into
  the cache \<open>c\<close>.\<close>

definition BatchWrite_entry :: "mem_usage \<Rightarrow> COutPoint \<Rightarrow> CCoinsCacheEntry \<Rightarrow> CCoinsViewCache
    \<Rightarrow> coins_error + CCoinsViewCache" where
  "BatchWrite_entry mem p e c =
     (if \<not> dirty e then Inr c
      else case map_of (cacheCoins c) p of
        None \<Rightarrow>
          if \<not> (fresh e \<and> IsSpent (coin e)) then
            Inr (c\<lparr>cacheCoins := AList.update p \<lparr>coin = coin e, dirty = True, fresh = fresh e\<rparr> (cacheCoins c),
                   cachedCoinsUsage := cachedCoinsUsage c + usage mem (coin e)\<rparr>)
          else Inr c
      | Some us \<Rightarrow>
          if fresh e \<and> \<not> IsSpent (coin us) then Inl Fresh_misapplied
          else if fresh us \<and> IsSpent (coin e) then
            Inr (c\<lparr>cacheCoins := AList.delete p (cacheCoins c),
                   cachedCoinsUsage := cachedCoinsUsage c - usage mem (coin us)\<rparr>)
          else
            Inr (c\<lparr>cacheCoins := AList.update p \<lparr>coin = coin e, dirty = True, fresh = fresh us\<rparr> (cacheCoins c),
                   cachedCoinsUsage := cachedCoinsUsage c - usage mem (coin us) + usage mem (coin e)\<rparr>))"

primrec BatchWrite_loop :: "mem_usage \<Rightarrow> CCoinsMap \<Rightarrow> CCoinsViewCache \<Rightarrow> coins_error + CCoinsViewCache" where
  "BatchWrite_loop mem [] c = Inr c"
| "BatchWrite_loop mem (pe # m) c =
     (case BatchWrite_entry mem (fst pe) (snd pe) c of
        Inl err \<Rightarrow> Inl err | Inr c \<Rightarrow> BatchWrite_loop mem m c)"

definition BatchWrite :: "mem_usage \<Rightarrow> CCoinsMap \<Rightarrow> uint256 \<Rightarrow> CCoinsViewCache \<Rightarrow> coins_error + CCoinsViewCache" where
  "BatchWrite mem mapCoins hashBlockIn c =
     (case BatchWrite_loop mem mapCoins c of
        Inl err \<Rightarrow> Inl err | Inr c \<Rightarrow> Inr (c\<lparr>hashBlock := hashBlockIn\<rparr>))"

text \<open>Flush hands the whole cache to the base's BatchWrite, here the argument \<open>put\<close> of an
  arbitrary base state, and empties the cache.\<close>

definition Flush :: "(CCoinsMap \<Rightarrow> uint256 \<Rightarrow> 's \<Rightarrow> coins_error + 's) \<Rightarrow> 's \<Rightarrow> CCoinsViewCache
    \<Rightarrow> coins_error + 's \<times> CCoinsViewCache" where
  "Flush put s c =
     (case put (cacheCoins c) (hashBlock c) s of
        Inl err \<Rightarrow> Inl err | Inr s \<Rightarrow> Inr (s, c\<lparr>cacheCoins := [], cachedCoinsUsage := 0\<rparr>))"

section \<open>The coin database\<close>

record CCoinsViewDB =
  dbCoins :: "(COutPoint \<times> Coin) list"
  dbBestBlock :: "uint256 option"
  dbHeadBlocks :: "uint256 list option"

definition db_GetCoin :: "CCoinsViewDB \<Rightarrow> coins_view" where
  "db_GetCoin db p = map_of (dbCoins db) p"

definition db_GetBestBlock :: "CCoinsViewDB \<Rightarrow> uint256" where
  "db_GetBestBlock db = (case dbBestBlock db of None \<Rightarrow> uint256_null | Some h \<Rightarrow> h)"

definition db_GetHeadBlocks :: "CCoinsViewDB \<Rightarrow> uint256 list" where
  "db_GetHeadBlocks db = (case dbHeadBlocks db of None \<Rightarrow> [] | Some hs \<Rightarrow> hs)"

text \<open>The writes of one coin entry.  The batches of the source are applied in order, so the
  partial batches compose to the whole loop.\<close>

definition db_write_entry :: "COutPoint \<times> CCoinsCacheEntry \<Rightarrow> CCoinsViewDB \<Rightarrow> CCoinsViewDB" where
  "db_write_entry pe db =
     (if dirty (snd pe) then
        if IsSpent (coin (snd pe)) then db\<lparr>dbCoins := AList.delete (fst pe) (dbCoins db)\<rparr>
        else db\<lparr>dbCoins := AList.update (fst pe) (coin (snd pe)) (dbCoins db)\<rparr>
      else db)"

definition db_BatchWrite :: "CCoinsMap \<Rightarrow> uint256 \<Rightarrow> CCoinsViewDB \<Rightarrow> coins_error + CCoinsViewDB" where
  "db_BatchWrite mapCoins hashBlockIn db =
     (if uint256_IsNull hashBlockIn then Inl Assert_hashBlock
      else
        let old_heads = db_GetHeadBlocks db;
            replaying = (uint256_IsNull (db_GetBestBlock db) \<and> length old_heads = 2)
        in if replaying \<and> old_heads ! 0 \<noteq> hashBlockIn then Inl Assert_old_heads
        else
          let old_tip = (if replaying then old_heads ! 1 else db_GetBestBlock db);
              db = db\<lparr>dbBestBlock := None, dbHeadBlocks := Some [hashBlockIn, old_tip]\<rparr>;
              db = fold db_write_entry mapCoins db
          in Inr (db\<lparr>dbHeadBlocks := None, dbBestBlock := Some hashBlockIn\<rparr>))"

section \<open>Transactions on the cache\<close>

primrec AddCoins_loop :: "mem_usage \<Rightarrow> coins_view \<Rightarrow> uint256 \<Rightarrow> CTxOut list \<Rightarrow> nat \<Rightarrow> int \<Rightarrow> bool \<Rightarrow> bool \<Rightarrow> bool
    \<Rightarrow> CCoinsViewCache \<Rightarrow> coins_error + CCoinsViewCache" where
  "AddCoins_loop mem base txid [] i nHeight fCoinbase fCoinstake check c = Inr c"
| "AddCoins_loop mem base txid (o' # os) i nHeight fCoinbase fCoinstake check c =
     (let p = \<lparr>outHash = txid, outN = of_nat i\<rparr>;
          (overwrite, c) = (if check then HaveCoin mem base p c else (fCoinbase, c))
      in case AddCoin mem p (mkCoin o' nHeight fCoinbase fCoinstake) overwrite c of
           Inl err \<Rightarrow> Inl err
         | Inr c \<Rightarrow> AddCoins_loop mem base txid os (Suc i) nHeight fCoinbase fCoinstake check c)"

definition AddCoins :: "mem_usage \<Rightarrow> coins_view \<Rightarrow> uint256 \<Rightarrow> CTransaction \<Rightarrow> int \<Rightarrow> bool
    \<Rightarrow> CCoinsViewCache \<Rightarrow> coins_error + CCoinsViewCache" where
  "AddCoins mem base txid tx nHeight check c =
     AddCoins_loop mem base txid (vout tx) 0 nHeight (IsCoinBase tx) (IsCoinStake tx) check c"

primrec GetValueIn_loop :: "mem_usage \<Rightarrow> coins_view \<Rightarrow> CTxIn list \<Rightarrow> CAmount \<Rightarrow> CCoinsViewCache
    \<Rightarrow> (amount_error + CAmount) \<times> CCoinsViewCache" where
  "GetValueIn_loop mem base [] nResult c = (Inr nResult, c)"
| "GetValueIn_loop mem base (i # is) nResult c =
     (let (cn, c) = AccessCoin mem base (prevout i) c
      in if \<not> fits_int64 (nResult + nValue (out cn)) then (Inl Signed_overflow, c)
         else GetValueIn_loop mem base is (nResult + nValue (out cn)) c)"

definition GetValueIn :: "mem_usage \<Rightarrow> coins_view \<Rightarrow> CTransaction \<Rightarrow> CCoinsViewCache
    \<Rightarrow> (amount_error + CAmount) \<times> CCoinsViewCache" where
  "GetValueIn mem base tx c = (if IsCoinBase tx then (Inr 0, c) else GetValueIn_loop mem base (vin tx) 0 c)"

primrec HaveInputs_loop :: "mem_usage \<Rightarrow> coins_view \<Rightarrow> CTxIn list \<Rightarrow> CCoinsViewCache \<Rightarrow> bool \<times> CCoinsViewCache" where
  "HaveInputs_loop mem base [] c = (True, c)"
| "HaveInputs_loop mem base (i # is) c =
     (let (have, c) = HaveCoin mem base (prevout i) c
      in if \<not> have then (False, c) else HaveInputs_loop mem base is c)"

definition HaveInputs :: "mem_usage \<Rightarrow> coins_view \<Rightarrow> CTransaction \<Rightarrow> CCoinsViewCache \<Rightarrow> bool \<times> CCoinsViewCache" where
  "HaveInputs mem base tx c = (if IsCoinBase tx then (True, c) else HaveInputs_loop mem base (vin tx) c)"

text \<open>AccessByTxid scans the outputs of a transaction up to the bound \<open>maxOutputs\<close>
  (MAX_OUTPUTS_PER_BLOCK, which depends on the governance parameters).\<close>

function AccessByTxid_loop :: "mem_usage \<Rightarrow> coins_view \<Rightarrow> uint256 \<Rightarrow> nat \<Rightarrow> nat \<Rightarrow> CCoinsViewCache \<Rightarrow> Coin \<times> CCoinsViewCache" where
  "AccessByTxid_loop mem base txid maxOutputs n c =
     (if n < maxOutputs then
        let (alternate, c) = AccessCoin mem base \<lparr>outHash = txid, outN = of_nat n\<rparr> c
        in if \<not> IsSpent alternate then (alternate, c)
           else AccessByTxid_loop mem base txid maxOutputs (Suc n) c
      else (coinEmpty, c))"
  by pat_completeness auto
termination AccessByTxid_loop
  by (relation "measure (\<lambda>(_, _, _, maxOutputs, n, _). maxOutputs - n)") auto

declare AccessByTxid_loop.simps [simp del]

definition AccessByTxid :: "mem_usage \<Rightarrow> coins_view \<Rightarrow> nat \<Rightarrow> uint256 \<Rightarrow> CCoinsViewCache \<Rightarrow> Coin \<times> CCoinsViewCache" where
  "AccessByTxid mem base maxOutputs txid c = AccessByTxid_loop mem base txid maxOutputs 0 c"

section \<open>The abstract view\<close>

definition view :: "coins_view \<Rightarrow> CCoinsViewCache \<Rightarrow> coins_view" where
  "view base c p = (case map_of (cacheCoins c) p of
     Some e \<Rightarrow> if IsSpent (coin e) then None else Some (coin e) | None \<Rightarrow> base p)"

definition unspent_view :: "coins_view \<Rightarrow> bool" where
  "unspent_view b \<longleftrightarrow> (\<forall>p c. b p = Some c \<longrightarrow> \<not> IsSpent c)"

text \<open>What the flags promise about the base: a FRESH entry has no coin there, and an entry
  that is not DIRTY agrees with it.\<close>

definition entry_ok :: "coins_view \<Rightarrow> COutPoint \<Rightarrow> CCoinsCacheEntry \<Rightarrow> bool" where
  "entry_ok base p e \<longleftrightarrow> (fresh e \<longrightarrow> base p = None) \<and>
     (\<not> dirty e \<longrightarrow> base p = (if IsSpent (coin e) then None else Some (coin e)))"

definition entries_ok :: "coins_view \<Rightarrow> CCoinsMap \<Rightarrow> bool" where
  "entries_ok base m \<longleftrightarrow> distinct (map fst m) \<and> (\<forall>p e. map_of m p = Some e \<longrightarrow> entry_ok base p e)"

definition coherent :: "coins_view \<Rightarrow> CCoinsViewCache \<Rightarrow> bool" where
  "coherent base c \<longleftrightarrow> entries_ok base (cacheCoins c)"

definition total_usage :: "mem_usage \<Rightarrow> CCoinsMap \<Rightarrow> u64" where
  "total_usage mem m = sum_list (map (\<lambda>pe. usage mem (coin (snd pe))) m)"

definition accounted :: "mem_usage \<Rightarrow> CCoinsViewCache \<Rightarrow> bool" where
  "accounted mem c \<longleftrightarrow> cachedCoinsUsage c = total_usage mem (cacheCoins c)"

lemma unspent_viewD: "unspent_view b \<Longrightarrow> b p = Some c \<Longrightarrow> \<not> IsSpent c"
  by (simp add: unspent_view_def)

lemma unspent_view_view: "unspent_view b \<Longrightarrow> unspent_view (view b c)"
  by (auto simp: unspent_view_def view_def split: option.splits if_splits)

lemma IsSpent_coinEmpty [simp]: "IsSpent coinEmpty"
  by (simp add: IsSpent_def coinEmpty_def CTxOut_IsNull_def CTxOut_null_def)

lemma usage_coinEmpty [simp]: "usage mem coinEmpty = mem []"
  by (simp add: coinEmpty_def CTxOut_null_def)

subsection \<open>Memory account of updates\<close>

lemma total_usage_update:
  "distinct (map fst m) \<Longrightarrow> total_usage mem (AList.update p e m) =
    total_usage mem m - (case map_of m p of Some e0 \<Rightarrow> usage mem (coin e0) | None \<Rightarrow> 0) + usage mem (coin e)"
  by (induction m) (auto simp: total_usage_def)

lemma delete_not_in: "p \<notin> fst ` set m \<Longrightarrow> AList.delete p m = m"
  by (induction m) auto

lemma total_usage_delete:
  "distinct (map fst m) \<Longrightarrow> total_usage mem (AList.delete p m) =
    total_usage mem m - (case map_of m p of Some e0 \<Rightarrow> usage mem (coin e0) | None \<Rightarrow> 0)"
  by (induction m) (auto simp: total_usage_def delete_not_in)

lemma entries_ok_update:
  "entries_ok b m \<Longrightarrow> entry_ok b p e \<Longrightarrow> entries_ok b (AList.update p e m)"
  by (auto simp: entries_ok_def update_conv' distinct_update split: if_splits)

lemma entries_ok_delete: "entries_ok b m \<Longrightarrow> entries_ok b (AList.delete p m)"
  by (auto simp: entries_ok_def delete_conv' distinct_delete restrict_map_def split: if_splits)

lemma entries_ok_distinct: "entries_ok b m \<Longrightarrow> distinct (map fst m)"
  by (simp add: entries_ok_def)

lemma coherentD: "coherent b c \<Longrightarrow> map_of (cacheCoins c) p = Some e \<Longrightarrow> entry_ok b p e"
  by (simp add: coherent_def entries_ok_def)

lemma view_update: "view b (c\<lparr>cacheCoins := AList.update p e (cacheCoins c), cachedCoinsUsage := u\<rparr>) =
    (view b c)(p := if IsSpent (coin e) then None else Some (coin e))"
  by (auto simp: view_def update_conv' fun_eq_iff)

lemma view_delete: "view b (c\<lparr>cacheCoins := AList.delete p (cacheCoins c), cachedCoinsUsage := u\<rparr>) =
    (view b c)(p := b p)"
  by (auto simp: view_def delete_conv' restrict_map_def fun_eq_iff)

section \<open>The operations implement the abstract view\<close>

definition cache_ok :: "mem_usage \<Rightarrow> coins_view \<Rightarrow> CCoinsViewCache \<Rightarrow> bool" where
  "cache_ok mem b c \<longleftrightarrow> coherent b c \<and> accounted mem c"

lemma cache_ok_update:
  assumes "cache_ok mem b c" "entry_ok b p e"
    "u = cachedCoinsUsage c - (case map_of (cacheCoins c) p of Some e0 \<Rightarrow> usage mem (coin e0) | None \<Rightarrow> 0) + usage mem (coin e)"
  shows "cache_ok mem b (c\<lparr>cacheCoins := AList.update p e (cacheCoins c), cachedCoinsUsage := u\<rparr>)"
  using assms entries_ok_update [of b "cacheCoins c" p e] total_usage_update [of "cacheCoins c" mem p e]
    entries_ok_distinct [of b "cacheCoins c"]
  by (simp add: cache_ok_def coherent_def accounted_def)

lemma cache_ok_delete:
  assumes "cache_ok mem b c"
    "u = cachedCoinsUsage c - (case map_of (cacheCoins c) p of Some e0 \<Rightarrow> usage mem (coin e0) | None \<Rightarrow> 0)"
  shows "cache_ok mem b (c\<lparr>cacheCoins := AList.delete p (cacheCoins c), cachedCoinsUsage := u\<rparr>)"
  using assms entries_ok_delete [of b "cacheCoins c" p] total_usage_delete [of "cacheCoins c" mem p]
    entries_ok_distinct [of b "cacheCoins c"]
  by (simp add: cache_ok_def coherent_def accounted_def)

lemma FetchCoin_refines:
  assumes "FetchCoin mem b p c = (r, c')" "cache_ok mem b c" "unspent_view b"
  shows "view b c' = view b c \<and> cache_ok mem b c' \<and> map_of (cacheCoins c') p = r \<and> hashBlock c' = hashBlock c \<and>
    view b c p = (case r of None \<Rightarrow> None | Some e \<Rightarrow> if IsSpent (coin e) then None else Some (coin e))"
proof (cases "map_of (cacheCoins c) p")
  case (Some e)
  then have "r = Some e" "c' = c" using assms(1) by (simp_all add: FetchCoin_def)
  then show ?thesis using assms Some by (simp add: view_def)
next
  case None
  show ?thesis
  proof (cases "b p")
    case None': None
    then show ?thesis using assms None by (auto simp: FetchCoin_def view_def)
  next
    case (Some tmp)
    have s: "\<not> IsSpent tmp" using unspent_viewD [OF assms(3) Some] .
    let ?e = "\<lparr>coin = tmp, dirty = False, fresh = IsSpent tmp\<rparr>"
    have c': "r = Some ?e" "c' = c\<lparr>cacheCoins := AList.update p ?e (cacheCoins c),
        cachedCoinsUsage := cachedCoinsUsage c + usage mem tmp\<rparr>"
      using assms(1) None Some by (auto simp: FetchCoin_def Let_def)
    have "cache_ok mem b c'" unfolding c' using assms(2) None Some s
      by (intro cache_ok_update) (auto simp: entry_ok_def)
    moreover have "view b c p = Some tmp" using None Some by (simp add: view_def)
    moreover from this have "view b c' = view b c" using s
      unfolding c' view_update by (auto simp: fun_eq_iff)
    ultimately show ?thesis using s by (simp add: c' update_conv')
  qed
qed

lemma GetCoin_refines:
  assumes "cache_ok mem b c" "unspent_view b" "GetCoin mem b p c = (r, c')"
  shows "r = view b c p \<and> view b c' = view b c \<and> cache_ok mem b c'"
proof -
  obtain f c1 where f: "FetchCoin mem b p c = (f, c1)" by force
  show ?thesis using FetchCoin_refines [OF f assms(1,2)] assms(3) f by (cases f) (auto simp: GetCoin_def)
qed

lemma AccessCoin_refines:
  assumes "cache_ok mem b c" "unspent_view b" "AccessCoin mem b p c = (r, c')"
  shows "view b c p = (if IsSpent r then None else Some r) \<and> view b c' = view b c \<and> cache_ok mem b c' \<and>
    hashBlock c' = hashBlock c"
proof -
  obtain f c1 where f: "FetchCoin mem b p c = (f, c1)" by force
  show ?thesis using FetchCoin_refines [OF f assms(1,2)] assms(3) f by (cases f) (auto simp: AccessCoin_def)
qed

lemma HaveCoin_refines:
  assumes "cache_ok mem b c" "unspent_view b" "HaveCoin mem b p c = (r, c')"
  shows "r = (view b c p \<noteq> None) \<and> view b c' = view b c \<and> cache_ok mem b c' \<and> hashBlock c' = hashBlock c"
proof -
  obtain f c1 where f: "FetchCoin mem b p c = (f, c1)" by force
  show ?thesis using FetchCoin_refines [OF f assms(1,2)] assms(3) f by (cases f) (auto simp: HaveCoin_def)
qed

lemma SpendCoin_refines:
  assumes "cache_ok mem b c" "unspent_view b" "mem [] = 0" "SpendCoin mem b p c = (r, c')"
  shows "view b c' = (view b c)(p := None) \<and> cache_ok mem b c' \<and> (\<forall>cn. view b c p = Some cn \<longrightarrow> r = Some cn) \<and>
    hashBlock c' = hashBlock c"
proof -
  obtain f c1 where f: "FetchCoin mem b p c = (f, c1)" by force
  note R = FetchCoin_refines [OF f assms(1,2)]
  show ?thesis
  proof (cases f)
    case None
    then show ?thesis using assms(4) R f by (auto simp: SpendCoin_def fun_eq_iff)
  next
    case (Some e)
    have e: "entry_ok b p e" using R Some coherentD [of b c1 p e] by (simp add: cache_ok_def)
    show ?thesis
    proof (cases "fresh e")
      case True
      then have c': "c' = c1\<lparr>cacheCoins := AList.delete p (cacheCoins c1), cachedCoinsUsage := cachedCoinsUsage c1 - usage mem (coin e)\<rparr>"
        and r: "r = Some (coin e)" using assms(4) f Some by (auto simp: SpendCoin_def)
      have "cache_ok mem b c'" unfolding c' using R Some by (intro cache_ok_delete) auto
      moreover have "view b c' = (view b c)(p := None)"
        unfolding c' view_delete using R True e by (simp add: entry_ok_def)
      ultimately show ?thesis using r R Some by (simp add: c')
    next
      case False
      then have c': "c' = c1\<lparr>cacheCoins := AList.update p \<lparr>coin = coinEmpty, dirty = True, fresh = fresh e\<rparr> (cacheCoins c1),
          cachedCoinsUsage := cachedCoinsUsage c1 - usage mem (coin e)\<rparr>"
        and r: "r = Some (coin e)" using assms(4) f Some by (auto simp: SpendCoin_def)
      have "cache_ok mem b c'" unfolding c' using R Some False assms(3)
        by (intro cache_ok_update) (auto simp: entry_ok_def)
      moreover have "view b c' = (view b c)(p := None)"
        unfolding c' view_update using R by simp
      ultimately show ?thesis using r R Some by (simp add: c')
    qed
  qed
qed

lemma AddCoin_refines:
  assumes "cache_ok mem b c" "mem [] = 0" "\<not> IsSpent cn" "\<not> ovr \<Longrightarrow> view b c p = None"
  shows "\<exists>c'. AddCoin mem p cn ovr c = Inr c' \<and> cache_ok mem b c' \<and> hashBlock c' = hashBlock c \<and>
    view b c' = (if IsUnspendable (scriptPubKey (out cn)) then view b c else (view b c)(p := Some cn))"
proof (cases "IsUnspendable (scriptPubKey (out cn))")
  case True
  then show ?thesis using assms by (simp add: AddCoin_def)
next
  case False
  define e where "e = (case map_of (cacheCoins c) p of Some e \<Rightarrow> e
                 | None \<Rightarrow> \<lparr>coin = coinEmpty, dirty = False, fresh = False\<rparr>)"
  define e' where "e' = \<lparr>coin = cn, dirty = True, fresh = fresh e \<or> (\<not> ovr \<and> \<not> dirty e)\<rparr>"
  define u where "u = cachedCoinsUsage c - (case map_of (cacheCoins c) p of Some e0 \<Rightarrow> usage mem (coin e0) | None \<Rightarrow> 0) + usage mem cn"
  have sp: "\<not> ovr \<Longrightarrow> IsSpent (coin e)"
    using assms(4) by (auto simp: e_def view_def split: option.splits if_splits)
  have a: "AddCoin mem p cn ovr c = Inr (c\<lparr>cacheCoins := AList.update p e' (cacheCoins c), cachedCoinsUsage := u\<rparr>)"
    using sp assms(3) False
    by (cases ovr; cases "map_of (cacheCoins c) p") (simp_all add: AddCoin_def e_def e'_def u_def Let_def)
  have "b p = None" if "fresh e'"
  proof (cases "map_of (cacheCoins c) p")
    case None
    then have "\<not> ovr" using that by (simp add: e'_def e_def)
    then show ?thesis using assms(4) None by (simp add: view_def)
  next
    case (Some e0)
    then have "e = e0" "entry_ok b p e0" using assms(1) coherentD [of b c p] by (simp_all add: e_def cache_ok_def)
    then show ?thesis using that sp by (auto simp: e'_def entry_ok_def)
  qed
  then have "cache_ok mem b (c\<lparr>cacheCoins := AList.update p e' (cacheCoins c), cachedCoinsUsage := u\<rparr>)"
    using assms(1) by (intro cache_ok_update) (auto simp: entry_ok_def e'_def u_def)
  then show ?thesis using a False assms(3) by (simp add: view_update) (simp add: e'_def)
qed

lemma Uncache_refines:
  assumes "cache_ok mem b c" "unspent_view b"
  shows "view b (Uncache mem p c) = view b c \<and> cache_ok mem b (Uncache mem p c)"
proof (cases "map_of (cacheCoins c) p")
  case (Some e)
  have e: "entry_ok b p e" using assms Some coherentD [of b c p e] by (simp add: cache_ok_def)
  show ?thesis
  proof (cases "\<not> dirty e \<and> \<not> fresh e")
    case True
    let ?c' = "c\<lparr>cacheCoins := AList.delete p (cacheCoins c), cachedCoinsUsage := cachedCoinsUsage c - usage mem (coin e)\<rparr>"
    have "cache_ok mem b ?c'" using assms Some by (intro cache_ok_delete) simp_all
    moreover have "view b c p = b p" using e True Some by (simp add: view_def entry_ok_def)
    ultimately show ?thesis using True Some unfolding Uncache_def
      by (simp add: view_delete fun_eq_iff)
  qed (use assms Some in \<open>auto simp: Uncache_def\<close>)
qed (use assms in \<open>simp add: Uncache_def\<close>)

section \<open>Flushing\<close>

definition overlay :: "coins_view \<Rightarrow> CCoinsMap \<Rightarrow> coins_view" where
  "overlay g m p = (case map_of m p of
     Some e \<Rightarrow> if dirty e then if IsSpent (coin e) then None else Some (coin e) else g p | None \<Rightarrow> g p)"

lemma overlay_view: "coherent g c \<Longrightarrow> overlay g (cacheCoins c) = view g c"
  by (auto simp: overlay_def view_def fun_eq_iff coherent_def entries_ok_def entry_ok_def split: option.splits)

text \<open>What a base promises to the cache above it: it only answers unspent coins, and a batch of
  entries whose flags are right is written completely.\<close>

locale coins_base =
  fixes get :: "'s \<Rightarrow> coins_view" and put :: "CCoinsMap \<Rightarrow> uint256 \<Rightarrow> 's \<Rightarrow> coins_error + 's"
    and ok :: "'s \<Rightarrow> bool"
  assumes get_unspent: "ok s \<Longrightarrow> unspent_view (get s)"
    and put_overlay: "ok s \<Longrightarrow> entries_ok (get s) m \<Longrightarrow> \<not> uint256_IsNull h \<Longrightarrow>
      \<exists>s'. put m h s = Inr s' \<and> ok s' \<and> get s' = overlay (get s) m"
begin

lemma flush_view:
  assumes "ok s" "coherent (get s) c" "\<not> uint256_IsNull (hashBlock c)"
  shows "\<exists>s' c'. Flush put s c = Inr (s', c') \<and> ok s' \<and> get s' = view (get s) c \<and>
    view (get s') c' = view (get s) c \<and> cache_ok mem (get s') c'"
proof -
  from put_overlay [OF assms(1) _ assms(3), of "cacheCoins c"] assms(2)
  obtain s' where s': "put (cacheCoins c) (hashBlock c) s = Inr s'" "ok s'" "get s' = view (get s) c"
    by (auto simp: coherent_def overlay_view)
  have "view g (c\<lparr>cacheCoins := [], cachedCoinsUsage := 0\<rparr>) = g"
    "cache_ok mem g (c\<lparr>cacheCoins := [], cachedCoinsUsage := 0\<rparr>)" for g
    by (simp_all add: view_def fun_eq_iff cache_ok_def coherent_def entries_ok_def accounted_def total_usage_def)
  then show ?thesis using s' by (simp add: Flush_def)
qed

end

subsection \<open>The database is a base\<close>

definition db_ok :: "CCoinsViewDB \<Rightarrow> bool" where
  "db_ok db \<longleftrightarrow> unspent_view (db_GetCoin db) \<and> dbHeadBlocks db = None"

lemma db_write_entry_get:
  "db_GetCoin (db_write_entry (p, e) db) q =
     (if q = p \<and> dirty e then if IsSpent (coin e) then None else Some (coin e) else db_GetCoin db q)"
  by (simp add: db_write_entry_def db_GetCoin_def update_conv' delete_conv' restrict_map_def)

lemma db_write_entries_get:
  "distinct (map fst m) \<Longrightarrow> db_GetCoin (fold db_write_entry m db) q = overlay (db_GetCoin db) m q"
proof (induction m arbitrary: db)
  case (Cons pe m)
  then have "map_of m (fst pe) = None" by (simp add: map_of_eq_None_iff)
  then show ?case using Cons
    by (cases pe; cases "q = fst pe"; cases "map_of m q") (simp_all add: db_write_entry_get overlay_def)
qed (simp add: overlay_def)

lemma overlay_unspent: "unspent_view g \<Longrightarrow> unspent_view (overlay g m)"
  by (auto simp: unspent_view_def overlay_def split: option.splits if_splits)

interpretation coin_db: coins_base db_GetCoin db_BatchWrite db_ok
proof
  fix db m h
  assume db: "db_ok db" and m: "entries_ok (db_GetCoin db) m" and h: "\<not> uint256_IsNull h"
  define db1 where "db1 = db\<lparr>dbBestBlock := None, dbHeadBlocks := Some [h, db_GetBestBlock db]\<rparr>"
  define db2 where "db2 = (fold db_write_entry m db1)\<lparr>dbHeadBlocks := None, dbBestBlock := Some h\<rparr>"
  have w: "db_BatchWrite m h db = Inr db2"
    using db h by (simp add: db_BatchWrite_def db_ok_def db_GetHeadBlocks_def db1_def db2_def Let_def)
  have "db_GetCoin db2 = db_GetCoin (fold db_write_entry m db1)" by (simp add: db2_def db_GetCoin_def fun_eq_iff)
  also have "\<dots> = overlay (db_GetCoin db1) m" using entries_ok_distinct [OF m] by (simp add: db_write_entries_get fun_eq_iff)
  also have "db_GetCoin db1 = db_GetCoin db" by (simp add: db1_def db_GetCoin_def fun_eq_iff)
  finally have "db_GetCoin db2 = overlay (db_GetCoin db) m" .
  then show "\<exists>s'. db_BatchWrite m h db = Inr s' \<and> db_ok s' \<and> db_GetCoin s' = overlay (db_GetCoin db) m"
    using db w by (simp add: db_ok_def overlay_unspent) (simp add: db2_def)
qed (simp add: db_ok_def)

subsection \<open>A cache is a base\<close>

lemma BatchWrite_entry_refines:
  assumes "cache_ok mem b c" "unspent_view b" "entry_ok (view b c) p e"
  shows "\<exists>c'. BatchWrite_entry mem p e c = Inr c' \<and> cache_ok mem b c' \<and>
    view b c' = (if dirty e then (view b c)(p := if IsSpent (coin e) then None else Some (coin e)) else view b c)"
proof (cases "dirty e")
  case False
  then show ?thesis using assms by (simp add: BatchWrite_entry_def)
next
  case d: True
  show ?thesis
  proof (cases "map_of (cacheCoins c) p")
    case None
    then have v: "view b c p = b p" by (simp add: view_def)
    show ?thesis
    proof (cases "fresh e \<and> IsSpent (coin e)")
      case True
      then show ?thesis using d None v assms by (auto simp: BatchWrite_entry_def entry_ok_def fun_eq_iff)
    next
      case False
      let ?e = "\<lparr>coin = coin e, dirty = True, fresh = fresh e\<rparr>"
      let ?c = "c\<lparr>cacheCoins := AList.update p ?e (cacheCoins c), cachedCoinsUsage := cachedCoinsUsage c + usage mem (coin e)\<rparr>"
      have "cache_ok mem b ?c"
        using assms None v by (intro cache_ok_update) (auto simp: entry_ok_def)
      then show ?thesis using d None False by (simp add: BatchWrite_entry_def view_update)
    qed
  next
    case (Some us)
    have us: "entry_ok b p us" using assms(1) Some coherentD [of b c p us] by (simp add: cache_ok_def)
    have fr: "\<not> (fresh e \<and> \<not> IsSpent (coin us))"
      using assms(3) Some by (auto simp: entry_ok_def view_def split: if_splits)
    show ?thesis
    proof (cases "fresh us \<and> IsSpent (coin e)")
      case True
      let ?c = "c\<lparr>cacheCoins := AList.delete p (cacheCoins c), cachedCoinsUsage := cachedCoinsUsage c - usage mem (coin us)\<rparr>"
      have "cache_ok mem b ?c" using assms(1) Some by (intro cache_ok_delete) simp_all
      then show ?thesis using d Some fr True us by (auto simp: BatchWrite_entry_def view_delete entry_ok_def)
    next
      case False
      let ?e = "\<lparr>coin = coin e, dirty = True, fresh = fresh us\<rparr>"
      let ?c = "c\<lparr>cacheCoins := AList.update p ?e (cacheCoins c),
          cachedCoinsUsage := cachedCoinsUsage c - usage mem (coin us) + usage mem (coin e)\<rparr>"
      have "cache_ok mem b ?c"
        using assms(1) Some us by (intro cache_ok_update) (auto simp: entry_ok_def)
      then show ?thesis using d Some fr False by (auto simp: BatchWrite_entry_def view_update)
    qed
  qed
qed

lemma entries_ok_step:
  assumes "entries_ok g ((p, e) # m)"
  shows "entries_ok (if dirty e then g(p := x) else g) m"
  unfolding entries_ok_def
proof (intro conjI allI impI)
  show "distinct (map fst m)" using assms by (simp add: entries_ok_def)
  fix q e'
  assume q: "map_of m q = Some e'"
  then have n: "q \<noteq> p" using assms map_of_SomeD [OF q] by (force simp: entries_ok_def)
  then have "entry_ok g q e'" using assms q by (auto simp: entries_ok_def)
  then show "entry_ok (if dirty e then g(p := x) else g) q e'" using n by (simp add: entry_ok_def)
qed

lemma overlay_step:
  assumes "p \<notin> fst ` set m"
  shows "overlay (if dirty e then g(p := if IsSpent (coin e) then None else Some (coin e)) else g) m = overlay g ((p, e) # m)"
  using assms map_of_eq_None_iff [of m p] by (auto simp: overlay_def fun_eq_iff split: option.splits)

lemma BatchWrite_loop_refines:
  assumes "unspent_view b"
  shows "cache_ok mem b c \<Longrightarrow> entries_ok (view b c) m \<Longrightarrow>
    \<exists>c'. BatchWrite_loop mem m c = Inr c' \<and> cache_ok mem b c' \<and> view b c' = overlay (view b c) m"
proof (induction m arbitrary: c)
  case (Cons pe m)
  obtain p e where pe: "pe = (p, e)" by force
  have e: "entry_ok (view b c) p e" using Cons.prems(2) pe by (simp add: entries_ok_def)
  have p: "p \<notin> fst ` set m" using Cons.prems(2) pe by (simp add: entries_ok_def)
  obtain c1 where c1: "BatchWrite_entry mem p e c = Inr c1" "cache_ok mem b c1"
    "view b c1 = (if dirty e then (view b c)(p := if IsSpent (coin e) then None else Some (coin e)) else view b c)"
    using BatchWrite_entry_refines [OF Cons.prems(1) assms e] by blast
  have "entries_ok (view b c1) m" using entries_ok_step [of "view b c" p e m] Cons.prems(2) c1(3) pe by simp
  then obtain c' where "BatchWrite_loop mem m c1 = Inr c'" "cache_ok mem b c'" "view b c' = overlay (view b c1) m"
    using Cons.IH [OF c1(2)] by blast
  then show ?case using c1 overlay_step [OF p, of e "view b c"] pe by simp
qed (simp add: overlay_def fun_eq_iff)

lemma hashBlock_irrelevant [simp]:
  "view b (c\<lparr>hashBlock := h\<rparr>) = view b c" "cache_ok mem b (c\<lparr>hashBlock := h\<rparr>) = cache_ok mem b c"
  by (simp_all add: view_def fun_eq_iff cache_ok_def coherent_def accounted_def)

lemma cache_is_base:
  assumes "unspent_view b"
  shows "coins_base (view b) (BatchWrite mem) (cache_ok mem b)"
proof
  fix c m h
  assume "cache_ok mem b c" "entries_ok (view b c) m"
  then show "\<exists>c'. BatchWrite mem m h c = Inr c' \<and> cache_ok mem b c' \<and> view b c' = overlay (view b c) m"
    using BatchWrite_loop_refines [OF assms] by (fastforce simp: BatchWrite_def)
qed (rule unspent_view_view [OF assms])

section \<open>Transactions\<close>

primrec add_outputs :: "uint256 \<Rightarrow> CTxOut list \<Rightarrow> nat \<Rightarrow> int \<Rightarrow> bool \<Rightarrow> bool \<Rightarrow> coins_view \<Rightarrow> coins_view" where
  "add_outputs txid [] i h cb cs v = v"
| "add_outputs txid (o' # os) i h cb cs v =
     add_outputs txid os (Suc i) h cb cs
       (if IsUnspendable (scriptPubKey o') then v
        else v(\<lparr>outHash = txid, outN = of_nat i\<rparr> \<mapsto> mkCoin o' h cb cs))"

lemma mkCoin_simps [simp]: "out (mkCoin o' h cb cs) = o'" "fCoinBase (mkCoin o' h cb cs) = cb"
  "fCoinStake (mkCoin o' h cb cs) = cs" "coinHeight (mkCoin o' h cb cs) = of_int h"
  "IsSpent (mkCoin o' h cb cs) = (nValue o' = - 1)"
  by (simp_all add: mkCoin_def IsSpent_def CTxOut_IsNull_def)

lemma of_nat_u32_inj: "i < 2 ^ 32 \<Longrightarrow> j < 2 ^ 32 \<Longrightarrow> (of_nat i :: u32) = of_nat j \<longleftrightarrow> i = j"
  by (simp add: word_unat_eq_iff unat_of_nat take_bit_nat_eq_self)

lemma AddCoins_loop_refines:
  assumes "unspent_view b" "mem [] = 0"
  shows "cache_ok mem b c \<Longrightarrow> list_all (\<lambda>out. nValue out \<noteq> - 1) outs \<Longrightarrow> i + length outs \<le> 2 ^ 32 \<Longrightarrow>
    (\<not> check \<Longrightarrow> \<not> cb \<Longrightarrow> \<forall>j. i \<le> j \<and> j < i + length outs \<longrightarrow> view b c \<lparr>outHash = txid, outN = of_nat j\<rparr> = None) \<Longrightarrow>
    \<exists>c'. AddCoins_loop mem b txid outs i h cb cs check c = Inr c' \<and> cache_ok mem b c' \<and> hashBlock c' = hashBlock c \<and>
      view b c' = add_outputs txid outs i h cb cs (view b c)"
proof (induction outs arbitrary: i c)
  case (Cons o' outs)
  let ?p = "\<lparr>outHash = txid, outN = of_nat i\<rparr> :: COutPoint"
  obtain ov c1 where ov: "(if check then HaveCoin mem b ?p c else (cb, c)) = (ov, c1)" by force
  have c1: "cache_ok mem b c1" "view b c1 = view b c" "\<not> ov \<Longrightarrow> view b c1 ?p = None" "hashBlock c1 = hashBlock c"
    using ov HaveCoin_refines [OF Cons.prems(1) assms(1), of ?p ov c1] Cons.prems(1,4) by (auto split: if_splits)
  obtain c2 where c2: "AddCoin mem ?p (mkCoin o' h cb cs) ov c1 = Inr c2" "cache_ok mem b c2" "hashBlock c2 = hashBlock c1"
    "view b c2 = (if IsUnspendable (scriptPubKey o') then view b c else (view b c)(?p \<mapsto> mkCoin o' h cb cs))"
    using AddCoin_refines [OF c1(1) assms(2), of "mkCoin o' h cb cs" ov ?p] Cons.prems(2) c1 by auto
  have "\<forall>j. Suc i \<le> j \<and> j < Suc i + length outs \<longrightarrow> view b c2 \<lparr>outHash = txid, outN = of_nat j\<rparr> = None"
    if "\<not> check" "\<not> cb"
  proof (intro allI impI)
    fix j
    assume j: "Suc i \<le> j \<and> j < Suc i + length outs"
    then have "(of_nat j :: u32) \<noteq> of_nat i" using Cons.prems(3) of_nat_u32_inj [of j i] by auto
    then show "view b c2 \<lparr>outHash = txid, outN = of_nat j\<rparr> = None"
      using Cons.prems(4) [OF that] j c2(4) by simp
  qed
  then obtain c' where c': "AddCoins_loop mem b txid outs (Suc i) h cb cs check c2 = Inr c'" "cache_ok mem b c'"
      "hashBlock c' = hashBlock c2" "view b c' = add_outputs txid outs (Suc i) h cb cs (view b c2)"
    using Cons.IH [OF c2(2), of "Suc i"] Cons.prems(2,3) by auto
  then show ?case using ov c1 c2 by (simp add: Let_def)
qed simp

lemma HaveInputs_loop_refines:
  assumes "unspent_view b"
  shows "cache_ok mem b c \<Longrightarrow> HaveInputs_loop mem b is c = (r, c') \<Longrightarrow>
    r = list_all (\<lambda>i. view b c (prevout i) \<noteq> None) is \<and> view b c' = view b c \<and> cache_ok mem b c' \<and> hashBlock c' = hashBlock c"
proof (induction "is" arbitrary: c)
  case (Cons i "is")
  obtain h c1 where h: "HaveCoin mem b (prevout i) c = (h, c1)" by force
  note H = HaveCoin_refines [OF Cons.prems(1) assms h]
  then show ?case using Cons.IH [of c1] Cons.prems(2) h by (cases h) auto
qed simp

lemma AddCoin_replaces:
  "HaveCoinInCache p c \<Longrightarrow> \<not> IsSpent cn \<Longrightarrow> \<not> IsUnspendable (scriptPubKey (out cn)) \<Longrightarrow>
   AddCoin mem p cn False c = Inl Replaces_unspent"
  by (auto simp: HaveCoinInCache_def AddCoin_def Let_def split: option.splits)

lemma BatchWrite_hashBlock: "BatchWrite mem m h c = Inr c' \<Longrightarrow> hashBlock c' = h"
  by (auto simp: BatchWrite_def split: sum.splits)

section \<open>Properties\<close>

text \<open>C9: The coins cache implements a partial map from outpoints to unspent coins.  Lookups answer
  the map and leave it alone although they fill the cache, spending removes exactly one
  outpoint and hands out its coin, adding a coin (one that is not unspendable) updates exactly
  one outpoint, dropping an unmodified entry changes nothing; and every operation keeps the
  meaning of the DIRTY and FRESH flags and the memory account.  A coin may be added without
  the overwrite flag only over an outpoint with no unspent coin; over one that is cached
  unspent the operation throws.\<close>

theorem coins_cache_refines_map:
  assumes "cache_ok mem b c" "unspent_view b" "mem [] = 0"
  shows "(case GetCoin mem b p c of (r, c') \<Rightarrow> r = view b c p \<and> view b c' = view b c \<and> cache_ok mem b c') \<and>
    (case HaveCoin mem b p c of (r, c') \<Rightarrow> r = (view b c p \<noteq> None) \<and> view b c' = view b c \<and> cache_ok mem b c') \<and>
    (case SpendCoin mem b p c of (r, c') \<Rightarrow> view b c' = (view b c)(p := None) \<and> cache_ok mem b c' \<and>
       (view b c p \<noteq> None \<longrightarrow> r = view b c p)) \<and>
    view b (Uncache mem p c) = view b c \<and> cache_ok mem b (Uncache mem p c) \<and>
    (\<not> IsSpent cn \<and> (ovr \<or> view b c p = None) \<longrightarrow>
       (\<exists>c'. AddCoin mem p cn ovr c = Inr c' \<and> cache_ok mem b c' \<and>
          view b c' = (if IsUnspendable (scriptPubKey (out cn)) then view b c else (view b c)(p \<mapsto> cn)))) \<and>
    (HaveCoinInCache p c \<and> \<not> IsSpent cn \<and> \<not> IsUnspendable (scriptPubKey (out cn)) \<longrightarrow>
       AddCoin mem p cn False c = Inl Replaces_unspent)"
proof (intro conjI)
  show "case GetCoin mem b p c of (r, c') \<Rightarrow> r = view b c p \<and> view b c' = view b c \<and> cache_ok mem b c'"
    using GetCoin_refines [OF assms(1,2)] by (auto split: prod.splits)
  show "case HaveCoin mem b p c of (r, c') \<Rightarrow> r = (view b c p \<noteq> None) \<and> view b c' = view b c \<and> cache_ok mem b c'"
    using HaveCoin_refines [OF assms(1,2)] by (auto split: prod.splits)
  show "case SpendCoin mem b p c of (r, c') \<Rightarrow> view b c' = (view b c)(p := None) \<and> cache_ok mem b c' \<and>
       (view b c p \<noteq> None \<longrightarrow> r = view b c p)"
    using SpendCoin_refines [OF assms] by (auto split: prod.splits)
  show "view b (Uncache mem p c) = view b c" "cache_ok mem b (Uncache mem p c)"
    using Uncache_refines [OF assms(1,2)] by simp_all
  show "\<not> IsSpent cn \<and> (ovr \<or> view b c p = None) \<longrightarrow>
       (\<exists>c'. AddCoin mem p cn ovr c = Inr c' \<and> cache_ok mem b c' \<and>
          view b c' = (if IsUnspendable (scriptPubKey (out cn)) then view b c else (view b c)(p \<mapsto> cn)))"
    using AddCoin_refines [OF assms(1,3), of cn ovr p] by blast
  show "HaveCoinInCache p c \<and> \<not> IsSpent cn \<and> \<not> IsUnspendable (scriptPubKey (out cn)) \<longrightarrow>
       AddCoin mem p cn False c = Inl Replaces_unspent"
    using AddCoin_replaces by blast
qed

lemma cache_ok_new [simp]: "cache_ok mem b CCoinsViewCache_new"
  by (simp add: cache_ok_def coherent_def entries_ok_def accounted_def total_usage_def CCoinsViewCache_new_def)

lemma view_new [simp]: "view b CCoinsViewCache_new = b"
  by (simp add: view_def fun_eq_iff CCoinsViewCache_new_def)

theorem coins_cache_refines_map_witness:
  "\<exists>c'. AddCoin (\<lambda>_. 0) COutPoint_null (mkCoin \<lparr>nValue = 5, scriptPubKey = [OP_1]\<rparr> 3 True False) False CCoinsViewCache_new = Inr c' \<and>
     cache_ok (\<lambda>_. 0) (\<lambda>_. None) c' \<and>
     view (\<lambda>_. None) c' = [COutPoint_null \<mapsto> mkCoin \<lparr>nValue = 5, scriptPubKey = [OP_1]\<rparr> 3 True False]"
  using coins_cache_refines_map [of "\<lambda>_. 0" "\<lambda>_. None" CCoinsViewCache_new COutPoint_null
      "mkCoin \<lparr>nValue = 5, scriptPubKey = [OP_1]\<rparr> 3 True False" False]
  by (simp add: unspent_view_def IsUnspendable_def)



end
