(* ===== verification/Compressor.thy ===== *)
theory Compressor
  imports Coins
begin

text \<open>
  The compact encodings of the coin database and of the undo files (src/src/compressor.h,
  compressor.cpp, the serialization of \<open>Coin\<close> in coins.h, src/src/undo.h).  The elliptic-curve
  library is a parameter: \<open>IsFullyValid\<close> and \<open>Decompress\<close> of \<open>CPubKey\<close>.  The laws state of it
  only that decompressing the compressed form of a fully valid key gives the key.

  The lemmas show that scripts, coins and undo data are read back, for which range of amounts
  \<open>CompressAmount\<close> is reversible, and that the range of money is not within it.
\<close>

section \<open>Scripts\<close>

definition IsToKeyID :: "CScript \<Rightarrow> bytes option" where
  "IsToKeyID script =
     (if length script = 25 \<and> script ! 0 = OP_DUP \<and> script ! 1 = OP_HASH160 \<and> script ! 2 = 20 \<and>
         script ! 23 = OP_EQUALVERIFY \<and> script ! 24 = OP_CHECKSIG
      then Some (take 20 (drop 3 script)) else None)"

definition IsToScriptID :: "CScript \<Rightarrow> bytes option" where
  "IsToScriptID script =
     (if length script = 23 \<and> script ! 0 = OP_HASH160 \<and> script ! 1 = 20 \<and> script ! 22 = OP_EQUAL
      then Some (take 20 (drop 2 script)) else None)"

definition IsToPubKey :: "(bytes \<Rightarrow> bool) \<Rightarrow> CScript \<Rightarrow> bytes option" where
  "IsToPubKey IsFullyValid script =
     (if length script = 35 \<and> script ! 0 = 33 \<and> script ! 34 = OP_CHECKSIG \<and> (script ! 1 = 0x02 \<or> script ! 1 = 0x03)
      then Some (take 33 (drop 1 script))
      else if length script = 67 \<and> script ! 0 = 65 \<and> script ! 66 = OP_CHECKSIG \<and> script ! 1 = 0x04
      then let pubkey = take 65 (drop 1 script) in if IsFullyValid pubkey then Some pubkey else None
      else None)"

definition CompressScript :: "(bytes \<Rightarrow> bool) \<Rightarrow> CScript \<Rightarrow> bytes option" where
  "CompressScript IsFullyValid script =
     (case IsToKeyID script of
        Some keyID \<Rightarrow> Some (0x00 # keyID)
      | None \<Rightarrow>
          (case IsToScriptID script of
             Some scriptID \<Rightarrow> Some (0x01 # scriptID)
           | None \<Rightarrow>
               (case IsToPubKey IsFullyValid script of
                  Some pubkey \<Rightarrow>
                    if pubkey ! 0 = 0x02 \<or> pubkey ! 0 = 0x03 then Some (pubkey ! 0 # take 32 (drop 1 pubkey))
                    else if pubkey ! 0 = 0x04 then Some ((0x04 OR (pubkey ! 64 AND 0x01)) # take 32 (drop 1 pubkey))
                    else None
                | None \<Rightarrow> None)))"

definition GetSpecialScriptSize :: "u32 \<Rightarrow> nat" where
  "GetSpecialScriptSize nSize =
     (if nSize = 0 \<or> nSize = 1 then 20
      else if nSize = 2 \<or> nSize = 3 \<or> nSize = 4 \<or> nSize = 5 then 32
      else 0)"

text \<open>The script is left as it is when the decompression fails.  The assertion on the size of a
  decompressed key gives \<open>None\<close>.\<close>

definition DecompressScript :: "(bytes \<Rightarrow> bytes option) \<Rightarrow> CScript \<Rightarrow> u32 \<Rightarrow> bytes \<Rightarrow> (bool \<times> CScript) option" where
  "DecompressScript Decompress script nSize in' =
     (if nSize = 0 then Some (True, [OP_DUP, OP_HASH160, 20] @ take 20 in' @ [OP_EQUALVERIFY, OP_CHECKSIG])
      else if nSize = 1 then Some (True, [OP_HASH160, 20] @ take 20 in' @ [OP_EQUAL])
      else if nSize = 2 \<or> nSize = 3 then Some (True, [33, ucast nSize] @ take 32 in' @ [OP_CHECKSIG])
      else if nSize = 4 \<or> nSize = 5 then
        (case Decompress (ucast (nSize - 2) # take 32 in') of
           None \<Rightarrow> Some (False, script)
         | Some pubkey \<Rightarrow> if length pubkey = 65 then Some (True, [65] @ pubkey @ [OP_CHECKSIG]) else None)
      else Some (False, script))"

definition nSpecialScripts :: u32 where "nSpecialScripts = 6"

definition Serialize_cscript :: "(bytes \<Rightarrow> bool) \<Rightarrow> CScript \<Rightarrow> bytes" where
  "Serialize_cscript IsFullyValid script =
     (case CompressScript IsFullyValid script of
        Some compr \<Rightarrow> compr
      | None \<Rightarrow> WriteVarInt (of_nat (length script) + nSpecialScripts) @ script)"

definition Unserialize_cscript :: "(bytes \<Rightarrow> bytes option) \<Rightarrow> CScript \<Rightarrow> CScript reader" where
  "Unserialize_cscript Decompress script s =
     ebind (ReadVarInt s) (\<lambda>(nSize, s).
       if nSize < nSpecialScripts then
         ebind (stream_read (GetSpecialScriptSize nSize) s) (\<lambda>(vch, s).
           case DecompressScript Decompress script nSize vch of
             None \<Rightarrow> Inl Assert_failed
           | Some (_, script) \<Rightarrow> Inr (script, s))
       else
         let nSize = nSize - nSpecialScripts
         in if unat nSize > MAX_SCRIPT_SIZE then
              ebind (stream_ignore (sint nSize) s) (\<lambda>(_, s). Inr (script @ push_opcode OP_RETURN, s))
            else stream_read (unat nSize) s)"

section \<open>Amounts\<close>

function strip_zeros :: "u64 \<Rightarrow> nat \<Rightarrow> u64 \<times> nat" where
  "strip_zeros n e = (if n mod 10 = 0 \<and> e < 9 then strip_zeros (n div 10) (Suc e) else (n, e))"
  by pat_completeness auto
termination strip_zeros
  by (relation "measure (\<lambda>(_, e). 9 - e)") auto

declare strip_zeros.simps [simp del]

text \<open>The assertion that the last digit d lies between 1 and 9 always holds: the loop has ended
  before the ninth zero only at a digit other than zero.\<close>

definition CompressAmount :: "u64 \<Rightarrow> u64" where
  "CompressAmount n =
     (if n = 0 then 0
      else
        let (n, e) = strip_zeros n 0
        in if e < 9 then let d = n mod 10; n = n div 10 in 1 + (n * 9 + d - 1) * 10 + of_nat e
           else 1 + (n - 1) * 10 + 9)"

primrec times_ten :: "nat \<Rightarrow> u64 \<Rightarrow> u64" where
  "times_ten 0 n = n"
| "times_ten (Suc e) n = times_ten e (n * 10)"

definition DecompressAmount :: "u64 \<Rightarrow> u64" where
  "DecompressAmount x =
     (if x = 0 then 0
      else
        let x = x - 1; e = unat (x mod 10); x = x div 10;
            n = (if e < 9 then let d = x mod 9 + 1; x = x div 9 in x * 10 + d else x + 1)
        in times_ten e n)"

section \<open>Outputs, coins and undo data\<close>

text \<open>The curve library: validity of a key and decompression.\<close>

record curve =
  IsFullyValid :: "bytes \<Rightarrow> bool"
  Decompress :: "bytes \<Rightarrow> bytes option"

definition Serialize_ctxout :: "curve \<Rightarrow> CTxOut \<Rightarrow> bytes" where
  "Serialize_ctxout cv txout =
     WriteVarInt (CompressAmount (of_int (nValue txout))) @ Serialize_cscript (IsFullyValid cv) (scriptPubKey txout)"

definition Unserialize_ctxout :: "curve \<Rightarrow> CTxOut \<Rightarrow> CTxOut reader" where
  "Unserialize_ctxout cv txout s =
     ebind (ReadVarInt s) (\<lambda>(nVal, s).
     ebind (Unserialize_cscript (Decompress cv) (scriptPubKey txout) s) (\<lambda>(script, s).
       Inr (\<lparr>nValue = sint (DecompressAmount nVal), scriptPubKey = script\<rparr>, s)))"

definition coin_code :: "Coin \<Rightarrow> u32" where
  "coin_code cn = push_bit 2 (ucast (coinHeight cn)) + (if fCoinBase cn then 1 else 0) + (if fCoinStake cn then 2 else 0)"

definition Serialize_coin :: "curve \<Rightarrow> Coin \<Rightarrow> bytes option" where
  "Serialize_coin cv cn =
     (if IsSpent cn then None else Some (WriteVarInt (coin_code cn) @ Serialize_ctxout cv (out cn)))"

definition Unserialize_coin :: "curve \<Rightarrow> Coin reader" where
  "Unserialize_coin cv s =
     ebind (ReadVarInt s) (\<lambda>(code :: u32, s). ebind (Unserialize_ctxout cv (out coinEmpty) s) (\<lambda>(o', s).
       Inr (\<lparr>out = o', fCoinBase = (code AND 1 \<noteq> 0), fCoinStake = (drop_bit 1 code AND 1 \<noteq> 0),
             coinHeight = ucast (drop_bit 2 code)\<rparr>, s)))"

definition Serialize_txinundo :: "curve \<Rightarrow> Coin \<Rightarrow> bytes" where
  "Serialize_txinundo cv cn =
     WriteVarInt (push_bit 2 (ucast (coinHeight cn)) + (if fCoinStake cn then 2 else 0) + (if fCoinBase cn then 1 else 0) :: u32) @
     (if coinHeight cn > 0 then ser_writedata8 0 else []) @ Serialize_ctxout cv (out cn)"

definition Unserialize_txinundo :: "curve \<Rightarrow> Coin reader" where
  "Unserialize_txinundo cv s =
     ebind (ReadVarInt s) (\<lambda>(nCode :: u32, s).
       let h = ucast (drop_bit 2 nCode) :: 30 word
       in ebind (if h > 0 then ebind (ReadVarInt s) (\<lambda>(nVersionDummy :: u32, s). Inr ((), s)) else Inr ((), s)) (\<lambda>(_, s).
          ebind (Unserialize_ctxout cv (out coinEmpty) s) (\<lambda>(o', s).
            Inr (\<lparr>out = o', fCoinBase = (nCode AND 1 \<noteq> 0), fCoinStake = (drop_bit 1 nCode AND 1 \<noteq> 0), coinHeight = h\<rparr>, s))))"

type_synonym CTxUndo = "Coin list"
type_synonym CBlockUndo = "CTxUndo list"

definition Serialize_txundo :: "curve \<Rightarrow> CTxUndo \<Rightarrow> bytes" where
  "Serialize_txundo cv vprevout = WriteCompactSize (of_nat (length vprevout)) @ concat (map (Serialize_txinundo cv) vprevout)"

text \<open>The bound on the number of inputs is fixed when the program starts, from the block weight
  of the time; it is an argument.\<close>

definition Unserialize_txundo :: "nat \<Rightarrow> curve \<Rightarrow> CTxUndo reader" where
  "Unserialize_txundo MAX_INPUTS_PER_BLOCK cv s =
     ebind (ReadCompactSize s) (\<lambda>(count, s).
       if unat count > MAX_INPUTS_PER_BLOCK then Inl Too_many_undo_records
       else read_elems (Unserialize_txinundo cv) (unat count) [] s)"

abbreviation (input) sizeof_CTxUndo :: nat where "sizeof_CTxUndo \<equiv> 24"

definition Serialize_blockundo :: "curve \<Rightarrow> CBlockUndo \<Rightarrow> bytes" where
  "Serialize_blockundo cv vtxundo = Serialize_vector (Serialize_txundo cv) vtxundo"

definition Unserialize_blockundo :: "nat \<Rightarrow> curve \<Rightarrow> CBlockUndo reader" where
  "Unserialize_blockundo maxInputs cv s = Unserialize_vector sizeof_CTxUndo (Unserialize_txundo maxInputs cv) s"

section \<open>Amounts are reversible below a bound\<close>

lemma unat_of_nat64: "a < 2 ^ 64 \<Longrightarrow> unat (of_nat a :: u64) = a"
  by (simp add: unat_of_nat take_bit_nat_eq_self)

lemma of_nat64_div: "a < 2 ^ 64 \<Longrightarrow> k < 2 ^ 64 \<Longrightarrow> (of_nat a :: u64) div of_nat k = of_nat (a div k)"
  using div_le_dividend [of a k] by (intro word_unat_eq_iff [THEN iffD2]) (simp only: unat_div unat_of_nat64 le_less_trans [of "a div k" a])

lemma of_nat64_mod: "a < 2 ^ 64 \<Longrightarrow> k < 2 ^ 64 \<Longrightarrow> (of_nat a :: u64) mod of_nat k = of_nat (a mod k)"
  using mod_less_eq_dividend [of a k] by (intro word_unat_eq_iff [THEN iffD2]) (simp only: unat_mod unat_of_nat64 le_less_trans [of "a mod k" a])

lemmas u64_div10 = of_nat64_div [where k = 10, simplified] and u64_mod10 = of_nat64_mod [where k = 10, simplified]
  and u64_div9 = of_nat64_div [where k = 9, simplified] and u64_mod9 = of_nat64_mod [where k = 9, simplified]

lemma strip_zeros_spec:
  "a < 2 ^ 64 \<Longrightarrow> e \<le> 9 \<Longrightarrow> \<exists>a' e'. strip_zeros (of_nat a) e = (of_nat a', e') \<and> a = a' * 10 ^ (e' - e) \<and> e \<le> e' \<and> e' \<le> 9 \<and>
     (e' < 9 \<longrightarrow> a' mod 10 \<noteq> 0)"
proof (induction "9 - e" arbitrary: a e)
  case 0
  then show ?case by (subst strip_zeros.simps) auto
next
  case (Suc k)
  have z: "(of_nat a :: u64) mod 10 = 0 \<longleftrightarrow> a mod 10 = 0"
    using Suc.prems(1) by (simp add: u64_mod10 word_unat_eq_iff unat_of_nat take_bit_nat_eq_self)
  show ?case
  proof (cases "a mod 10 = 0")
    case True
    have "strip_zeros (of_nat a) e = strip_zeros (of_nat (a div 10)) (Suc e)"
      using Suc.hyps(2) True z Suc.prems(1) by (subst strip_zeros.simps) (auto simp: u64_div10)
    moreover have "a div 10 < 2 ^ 64" using Suc.prems(1) by simp
    moreover have "k = 9 - Suc e" "Suc e \<le> 9" using Suc.hyps(2) by simp_all
    ultimately obtain a' e' where "strip_zeros (of_nat a) e = (of_nat a', e')" "a div 10 = a' * 10 ^ (e' - Suc e)" "Suc e \<le> e'" "e' \<le> 9"
      "e' < 9 \<longrightarrow> a' mod 10 \<noteq> 0"
      using Suc.hyps(1) [of "Suc e" "a div 10"] by metis
    moreover from this have "a = a' * 10 ^ (e' - e)" using True
      by (metis Suc_diff_le Suc_le_D diff_Suc_Suc dvd_div_mult_self mod_0_imp_dvd mult.assoc power_Suc2)
    ultimately show ?thesis by (metis Suc_leD)
  next
    case False
    then show ?thesis using z Suc.prems(2) by (subst strip_zeros.simps) auto
  qed
qed

lemma times_ten: "times_ten e (of_nat a) = of_nat (a * 10 ^ e)"
proof (induction e arbitrary: a)
  case (Suc e)
  show ?case using Suc [of "a * 10"] by (simp add: mult.assoc)
qed simp

abbreviation max_compressible :: nat where
  "max_compressible \<equiv> 2049638230412172400"

lemma CompressAmount_small:
  assumes "a = n * 10 ^ e" "strip_zeros (of_nat a) 0 = (of_nat n, e)" "0 < a" "a < 2 ^ 64" "e < 9" "n mod 10 \<noteq> 0"
  shows "CompressAmount (of_nat a) = of_nat (1 + (n div 10 * 9 + (n mod 10 - 1)) * 10 + e)"
proof -
  have "n \<le> a" using assms(1,3) by simp
  then have n: "n < 2 ^ 64" using assms(4) by simp
  obtain d where d: "n mod 10 = Suc d" using assms(6) by (cases "n mod 10") auto
  have "(of_nat a :: u64) \<noteq> 0" using assms(3,4) by (simp add: word_unat_eq_iff unat_of_nat take_bit_nat_eq_self)
  then show ?thesis
    using n assms(2,5) by (simp add: CompressAmount_def u64_div10 u64_mod10 d Let_def)
qed

lemma DecompressAmount_eq:
  assumes "0 < x" "x < 2 ^ 64"
  shows "DecompressAmount (of_nat x) =
    (let y = x - 1; e = y mod 10; z = y div 10 in of_nat ((if e < 9 then z div 9 * 10 + (z mod 9 + 1) else z + 1) * 10 ^ e))"
proof -
  obtain y where y: "x = Suc y" using assms(1) by (cases x) auto
  have "(of_nat x :: u64) \<noteq> 0" using assms by (simp add: word_unat_eq_iff unat_of_nat take_bit_nat_eq_self)
  moreover have "(of_nat x :: u64) - 1 = of_nat y" by (simp add: y)
  moreover have "y < 2 ^ 64" "y div 10 < 2 ^ 64" using assms(2) y by simp_all
  moreover have "unat (of_nat (y mod 10) :: u64) = y mod 10" by (simp add: unat_of_nat take_bit_nat_eq_self)
  ultimately show ?thesis
    using times_ten [of "y mod 10" "y div 10 div 9 * 10 + (y div 10 mod 9 + 1)"] times_ten [of "y mod 10" "y div 10 + 1"]
    by (simp add: DecompressAmount_def Let_def u64_div10 u64_mod10 u64_div9 u64_mod9 y algebra_simps)
qed

lemma amount_round_trip:
  assumes "a \<le> max_compressible"
  shows "DecompressAmount (CompressAmount (of_nat a)) = of_nat a"
proof (cases "a = 0")
  case True
  then show ?thesis by (simp add: CompressAmount_def DecompressAmount_def)
next
  case False
  obtain n e where s: "strip_zeros (of_nat a) 0 = (of_nat n, e)" "a = n * 10 ^ e" "e \<le> 9" "e < 9 \<longrightarrow> n mod 10 \<noteq> 0"
  proof -
    have "a < 2 ^ 64" using assms by simp
    then show ?thesis using strip_zeros_spec [of a 0, unfolded diff_zero] that by blast
  qed
  have n: "n \<le> a" "0 < n" using s(2) False by auto
  show ?thesis
  proof (cases "e < 9")
    case True
    obtain d where d: "n mod 10 = Suc d" using s(4) True by (cases "n mod 10") auto
    have dl: "d < 9" using d mod_less_divisor [of 10 n] by linarith
    let ?y = "(n div 10 * 9 + d) * 10 + e"
    have nd: "n = n div 10 * 10 + Suc d" using d div_mult_mod_eq [of n 10] by linarith
    have c: "CompressAmount (of_nat a) = of_nat (1 + ?y)"
      using CompressAmount_small [OF s(2,1)] False assms s(4) True d by simp
    have "9 * n \<le> 9 * max_compressible" using n assms by simp
    then have b: "1 + ?y < 2 ^ 64" using nd dl True by (simp add: algebra_simps)
    have "(m * 10 + e) mod 10 = e" "(m * 10 + e) div 10 = m" for m using True by simp_all
    note y = this [of "n div 10 * 9 + d"]
    have "(n div 10 * 9 + d) div 9 * 10 + ((n div 10 * 9 + d) mod 9 + 1) = n" using dl nd by simp
    then show ?thesis unfolding c using DecompressAmount_eq [of "1 + ?y"] b True s(2)
      by (simp only: Let_def diff_add_inverse y if_True less_add_same_cancel1 trans_less_add1 zero_less_one)
  next
    case f: False
    then have e: "e = 9" using s(3) by simp
    have n9: "n * 1000000000 \<le> max_compressible" using s(2) e assms by simp
    obtain k where k: "n = Suc k" using n by (cases n) auto
    have "(of_nat a :: u64) \<noteq> 0" using False assms by (simp add: word_unat_eq_iff unat_of_nat take_bit_nat_eq_self)
    then have c: "CompressAmount (of_nat a) = of_nat (1 + (k * 10 + 9))"
      using s(1) e by (simp add: CompressAmount_def k)
    have b: "1 + (k * 10 + 9) < 2 ^ 64" using n9 k by simp
    have y: "(k * 10 + 9) mod 10 = 9" "(k * 10 + 9) div 10 = k" by simp_all
    show ?thesis unfolding c using DecompressAmount_eq [of "1 + (k * 10 + 9)"] b y s(2) e k by (simp add: Let_def)
  qed
qed

lemma amount_not_reversible:
  "DecompressAmount (CompressAmount 2999999999999999999) \<noteq> 2999999999999999999"
  by code_simp

section \<open>Scripts are read back\<close>

text \<open>What is assumed of the curve library: a fully valid uncompressed key is the decompression of
  its compressed form.\<close>

definition curve_ok :: "curve \<Rightarrow> bool" where
  "curve_ok cv \<longleftrightarrow> (\<forall>p. length p = 65 \<and> p ! 0 = 4 \<and> IsFullyValid cv p \<longrightarrow>
     Decompress cv ((2 OR (p ! 64 AND 1)) # take 32 (drop 1 p)) = Some p)"

lemma drop_nths: "drop i xs = map ((!) xs) [i..<length xs]"
  by (simp add: list_eq_iff_nth_eq)

lemma take_nths: "i \<le> length xs \<Longrightarrow> take i xs = map ((!) xs) [0..<i]"
  by (simp add: list_eq_iff_nth_eq)

lemma split_parts: "i + k \<le> length xs \<Longrightarrow> xs = map ((!) xs) [0..<i] @ take k (drop i xs) @ map ((!) xs) [i + k..<length xs]"
  using append_take_drop_id [of i xs] append_take_drop_id [of k "drop i xs"] take_nths [of i xs] drop_nths [of "i + k" xs]
  by (simp add: add.commute)

lemma IsToKeyID_script: "IsToKeyID s = Some h \<Longrightarrow> s = [OP_DUP, OP_HASH160, 20] @ h @ [OP_EQUALVERIFY, OP_CHECKSIG] \<and> length h = 20"
  using split_parts [of 3 20 s] by (auto simp: IsToKeyID_def upt_rec split: if_splits simp flip: numeral_2_eq_2)

lemma IsToScriptID_script: "IsToScriptID s = Some h \<Longrightarrow> s = [OP_HASH160, 20] @ h @ [OP_EQUAL] \<and> length h = 20"
  using split_parts [of 2 20 s] by (auto simp: IsToScriptID_def upt_rec split: if_splits)

lemma IsToPubKey_script:
  assumes "IsToPubKey fv s = Some p"
  shows "(s = [33] @ p @ [OP_CHECKSIG] \<and> length p = 33 \<and> (p ! 0 = 2 \<or> p ! 0 = 3)) \<or>
    (s = [65] @ p @ [OP_CHECKSIG] \<and> length p = 65 \<and> p ! 0 = 4 \<and> fv p)"
proof -
  have p0: "take k (drop 1 s) ! 0 = s ! 1" if "0 < k" "1 < length s" for k using that by simp
  consider (c) "length s = 35" "s ! 0 = 33" "s ! 34 = OP_CHECKSIG" "s ! 1 = 2 \<or> s ! 1 = 3" "p = take 33 (drop 1 s)"
    | (u) "length s = 67" "s ! 0 = 65" "s ! 66 = OP_CHECKSIG" "s ! 1 = 4" "p = take 65 (drop 1 s)" "fv p"
    using assms by (auto simp: IsToPubKey_def Let_def split: if_splits)
  then show ?thesis
  proof cases
    case c
    then show ?thesis using split_parts [of 1 33 s] p0 [of 33] by (simp add: upt_rec)
  next
    case u
    then show ?thesis using split_parts [of 1 65 s] p0 [of 65] by (simp add: upt_rec)
  qed
qed

lemma small_varint: "k < 6 \<Longrightarrow> WriteVarInt (of_nat k :: u32) = [of_nat k]"
proof -
  have "\<forall>k \<in> {0..<6}. WriteVarInt (of_nat k :: u32) = [of_nat k]" by code_simp
  then show "k < 6 \<Longrightarrow> WriteVarInt (of_nat k :: u32) = [of_nat k]" by simp
qed

lemma read_special:
  assumes "k < 6" "length v = GetSpecialScriptSize (of_nat k)"
  shows "Unserialize_cscript dc scr (of_nat k # v @ rest) =
    (case DecompressScript dc scr (of_nat k) v of None \<Rightarrow> Inl Assert_failed | Some (_, scr) \<Rightarrow> Inr (scr, rest))"
proof -
  have r: "ReadVarInt (of_nat k # v @ rest) = Inr (of_nat k :: u32, v @ rest)"
    using varint32.decode [of "of_nat k" "v @ rest"] small_varint [OF assms(1)] by simp
  have "(of_nat k :: u32) < 6" using assms(1) by (simp add: word_less_nat_alt unat_of_nat take_bit_nat_eq_self)
  then show ?thesis
    using r stream_read_append [OF assms(2), of rest] by (simp add: Unserialize_cscript_def nSpecialScripts_def split: option.splits prod.splits)
qed

lemma parity_cases: "(x :: u8) AND 1 = 0 \<or> x AND 1 = 1"
  by (simp add: and_one_eq) (metis mod2_eq_if)

lemma cscript_round_trip:
  assumes "curve_ok cv" "length s \<le> MAX_SCRIPT_SIZE"
  shows "Unserialize_cscript (Decompress cv) old (Serialize_cscript (IsFullyValid cv) s @ rest) = Inr (s, rest)"
proof (cases "CompressScript (IsFullyValid cv) s")
  case None
  have l: "unat (of_nat (length s) + 6 :: u32) = length s + 6"
    using assms(2) unat_of_nat [of "length s + 6", where 'a = 32] by (simp add: take_bit_nat_eq_self)
  then have "\<not> (of_nat (length s) + 6 :: u32) < 6" "unat (of_nat (length s) + 6 - 6 :: u32) = length s"
    using assms(2) by (simp_all add: word_less_nat_alt unat_of_nat take_bit_nat_eq_self)
  then show ?thesis
    using None assms(2)
    by (simp add: Serialize_cscript_def Unserialize_cscript_def varint32.decode nSpecialScripts_def Let_def stream_read_append)
next
  case (Some c)
  have ser: "Serialize_cscript (IsFullyValid cv) s = c" using Some by (simp add: Serialize_cscript_def)
  consider (key) h where "IsToKeyID s = Some h" "c = 0 # h" | (scr) h where "IsToScriptID s = Some h" "c = 1 # h"
    | (pub) p where "IsToPubKey (IsFullyValid cv) s = Some p" "p ! 0 = 2 \<or> p ! 0 = 3" "c = p ! 0 # take 32 (drop 1 p)"
    | (full) p where "IsToPubKey (IsFullyValid cv) s = Some p" "p ! 0 = 4" "c = (4 OR (p ! 64 AND 1)) # take 32 (drop 1 p)"
    using Some by (auto simp: CompressScript_def split: option.splits if_splits)
  then show ?thesis
  proof cases
    case key
    then show ?thesis
      using IsToKeyID_script [of s h] read_special [of 0 h "Decompress cv" old rest] unfolding ser
      by (simp add: GetSpecialScriptSize_def DecompressScript_def)
  next
    case scr
    then show ?thesis
      using IsToScriptID_script [of s h] read_special [of 1 h "Decompress cv" old rest] unfolding ser
      by (simp add: GetSpecialScriptSize_def DecompressScript_def)
  next
    case pub
    have p: "s = [33] @ p @ [OP_CHECKSIG]" "length p = 33" using IsToPubKey_script [OF pub(1)] pub(2) by auto
    obtain b q where q: "p = b # q" "length q = 32" using p(2) by (cases p) auto
    show ?thesis
      using pub(2) read_special [of 2 q "Decompress cv" old rest] read_special [of 3 q "Decompress cv" old rest]
      unfolding ser unfolding pub(3) p(1) q(1) using q(2) by (auto simp: GetSpecialScriptSize_def DecompressScript_def)
  next
    case full
    have p: "s = [65] @ p @ [OP_CHECKSIG]" "length p = 65" "IsFullyValid cv p" using IsToPubKey_script [OF full(1)] full(2) by auto
    have dc: "Decompress cv ((2 OR (p ! 64 AND 1)) # take 32 (drop 1 p)) = Some p" using assms(1) p full(2) by (simp add: curve_ok_def)
    show ?thesis
      using parity_cases [of "p ! 64"] dc read_special [of 4 "take 32 (drop 1 p)" "Decompress cv" old rest]
        read_special [of 5 "take 32 (drop 1 p)" "Decompress cv" old rest] p unfolding ser full(3)
      by (auto simp: GetSpecialScriptSize_def DecompressScript_def)
  qed
qed

section \<open>Coins and undo data are read back\<close>

definition wf_ctxout :: "CTxOut \<Rightarrow> bool" where
  "wf_ctxout o' \<longleftrightarrow> 0 \<le> nValue o' \<and> nValue o' \<le> int max_compressible \<and> length (scriptPubKey o') \<le> MAX_SCRIPT_SIZE"

lemma ctxout_round_trip:
  assumes "curve_ok cv" "wf_ctxout o'"
  shows "Unserialize_ctxout cv old (Serialize_ctxout cv o' @ rest) = Inr (o', rest)"
proof -
  obtain a where a: "nValue o' = int a" "a \<le> max_compressible"
    using assms(2) nonneg_int_cases [of "nValue o'"] by (auto simp: wf_ctxout_def)
  have "DecompressAmount (CompressAmount (of_int (nValue o'))) = of_nat a" using amount_round_trip [OF a(2)] by (simp add: a(1))
  moreover have "sint (of_nat a :: u64) = int a"
    using a(2) sint_of_int64 [of "int a"] by (simp add: fits_int64_def INT64_MIN_def INT64_MAX_def)
  ultimately show ?thesis
    using cscript_round_trip [OF assms(1), of "scriptPubKey o'"] assms(2) a(1)
    by (simp add: Unserialize_ctxout_def Serialize_ctxout_def varint64.decode wf_ctxout_def)
qed

lemma code_fields:
  fixes h :: "30 word" and b st :: bool
  defines "c \<equiv> push_bit 2 (ucast h :: u32) + (if b then 1 else 0) + (if st then 2 else 0)"
  shows "(c AND 1 \<noteq> 0) = b" "(drop_bit 1 c AND 1 \<noteq> 0) = st" "ucast (drop_bit 2 c) = h"
proof -
  let ?k = "4 * unat h + (if b then 1 else 0) + (if st then 2 else 0)"
  have h: "unat h < 1073741824" using unsigned_less [of h, where 'a = nat] by simp
  have "ucast h = (of_nat (unat h) :: u32)" by simp
  then have c: "c = of_nat ?k" unfolding c_def push_bit_eq_mult by simp
  have u: "unat c = ?k" unfolding c using h by (simp only: unat_of_nat) (simp add: take_bit_nat_eq_self)
  have odd: "(w AND 1 \<noteq> 0) = odd (unat w)" for w :: u32
    by (simp add: and_one_eq word_unat_eq_iff unat_mod odd_iff_mod_2_eq_one)
  show "(c AND 1 \<noteq> 0) = b" unfolding odd u by simp
  show "(drop_bit 1 c AND 1 \<noteq> 0) = st" unfolding odd unat_drop_bit_eq u by (simp add: drop_bit_eq_div)
  have "unat (drop_bit 2 c) = unat h" unfolding unat_drop_bit_eq u by (cases b; cases st) (simp_all add: drop_bit_eq_div)
  then show "ucast (drop_bit 2 c) = h" by (simp add: word_unat_eq_iff unsigned_ucast_eq take_bit_nat_eq_self h)
qed

definition wf_coin :: "Coin \<Rightarrow> bool" where
  "wf_coin cn \<longleftrightarrow> wf_ctxout (out cn)"

lemma wf_coin_unspent: "wf_coin cn \<Longrightarrow> \<not> IsSpent cn"
  by (auto simp: wf_coin_def wf_ctxout_def IsSpent_def CTxOut_IsNull_def)

lemma coin_round_trip:
  assumes "curve_ok cv" "wf_coin cn"
  shows "\<exists>bs. Serialize_coin cv cn = Some bs \<and> Unserialize_coin cv (bs @ rest) = Inr (cn, rest)"
  using assms wf_coin_unspent [OF assms(2)] code_fields [of "coinHeight cn" "fCoinBase cn" "fCoinStake cn"]
  by (simp add: Serialize_coin_def Unserialize_coin_def varint32.decode ctxout_round_trip wf_coin_def coin_code_def)

lemma txinundo_codec:
  assumes "curve_ok cv"
  shows "codec (Serialize_txinundo cv) (Unserialize_txinundo cv) wf_coin"
proof
  fix cn s assume wf: "wf_coin cn"
  have d: "ReadVarInt (0 # r) = Inr (0 :: u32, r)" for r
    using varint32.decode [of 0 r] small_varint [of 0] by simp
  have c: "push_bit 2 (ucast (coinHeight cn) :: u32) + (if fCoinStake cn then 2 else 0) + (if fCoinBase cn then 1 else 0) =
      push_bit 2 (ucast (coinHeight cn)) + (if fCoinBase cn then 1 else 0) + (if fCoinStake cn then 2 else 0)" by simp
  show "Unserialize_txinundo cv (Serialize_txinundo cv cn @ s) = Inr (cn, s)"
    unfolding Serialize_txinundo_def c
    using wf code_fields [of "coinHeight cn" "fCoinBase cn" "fCoinStake cn"]
    by (simp add: Unserialize_txinundo_def varint32.decode ctxout_round_trip [OF assms] wf_coin_def Let_def ser_writedata8_def d)
qed

definition wf_txundo :: "nat \<Rightarrow> CTxUndo \<Rightarrow> bool" where
  "wf_txundo maxInputs cs \<longleftrightarrow> list_all wf_coin cs \<and> length cs \<le> maxInputs \<and> fits_MAX_SIZE cs"

lemma txundo_codec:
  assumes "curve_ok cv"
  shows "codec (Serialize_txundo cv) (Unserialize_txundo maxInputs cv) (wf_txundo maxInputs)"
proof
  fix cs s assume wf: "wf_txundo maxInputs cs"
  have l: "unat (of_nat (length cs) :: u64) = length cs" "of_nat (length cs) \<le> MAX_SIZE"
    using wf length_of_nat [of cs] by (simp_all add: wf_txundo_def)
  show "Unserialize_txundo maxInputs cv (Serialize_txundo cv cs @ s) = Inr (cs, s)"
    using codec.read_elems_decode [OF txinundo_codec [OF assms], of cs "[]" s] wf l
    by (simp add: Unserialize_txundo_def Serialize_txundo_def compactsize.decode wf_txundo_def)
qed

text \<open>
  C29: Property: what is written to the undo files and to the coin database is read back unchanged, for
  outputs up to the bound 2049638230412172400 and scripts up to the size limit.  Above the bound
  \<open>CompressAmount\<close> wraps around: 2999999999999999999 is in the range of money, and decompression
  of its compressed form gives another amount.
\<close>

theorem undo_data_round_trip:
  assumes "curve_ok cv" "list_all (wf_txundo maxInputs) undo" "fits_MAX_SIZE undo" "wf_coin cn"
  shows "Unserialize_blockundo maxInputs cv (Serialize_blockundo cv undo @ rest) = Inr (undo, rest)
    \<and> (\<exists>bs. Serialize_coin cv cn = Some bs \<and> Unserialize_coin cv (bs @ rest) = Inr (cn, rest))
    \<and> MoneyRange 2999999999999999999
    \<and> DecompressAmount (CompressAmount (of_int 2999999999999999999)) \<noteq> of_int 2999999999999999999"
  using codec.vector_decode [OF txundo_codec [OF assms(1)] assms(2,3), of sizeof_CTxUndo rest] coin_round_trip [OF assms(1,4)] amount_not_reversible
  by (simp add: Unserialize_blockundo_def Serialize_blockundo_def MoneyRange_def MAX_MONEY_def COIN_def)

definition demo_key :: bytes where
  "demo_key = 4 # replicate 64 1"

definition demo_curve :: curve where
  "demo_curve = \<lparr>IsFullyValid = (\<lambda>p. p = demo_key), Decompress = (\<lambda>c. if c = 3 # replicate 32 1 then Some demo_key else None)\<rparr>"

theorem undo_data_round_trip_witness:
  "Unserialize_blockundo 10 demo_curve (Serialize_blockundo demo_curve
      [[mkCoin \<lparr>nValue = 5000, scriptPubKey = [65] @ demo_key @ [OP_CHECKSIG]\<rparr> 7 False True]] @ [1, 2]) =
    Inr ([[mkCoin \<lparr>nValue = 5000, scriptPubKey = [65] @ demo_key @ [OP_CHECKSIG]\<rparr> 7 False True]], [1, 2])"
proof -
  let ?c = "mkCoin \<lparr>nValue = 5000, scriptPubKey = [65] @ demo_key @ [OP_CHECKSIG]\<rparr> 7 False True"
  have "2 OR (demo_key ! 64 AND 1) = 3" "take 32 (drop 1 demo_key) = replicate 32 1" by code_simp+
  then have cv: "curve_ok demo_curve" by (auto simp: curve_ok_def demo_curve_def)
  have wf: "wf_coin ?c" by (simp add: wf_coin_def wf_ctxout_def demo_key_def)
  then have "list_all (wf_txundo 10) [[?c]]" "fits_MAX_SIZE [[?c]]" by (simp_all add: wf_txundo_def fits_MAX_SIZE_def)
  then show ?thesis using undo_data_round_trip [OF cv _ _ wf] by blast
qed

end
