(* ===== verification/UtxoUpdate.thy ===== *)
theory UtxoUpdate
  imports Compressor Hashes
begin

text \<open>
  Connecting and disconnecting the transactions of a block on a coins cache
  (src/src/validation.cpp: \<open>UpdateCoins\<close>, the coin updates of \<open>ConnectBlock\<close>, \<open>ApplyTxInUndo\<close>,
  \<open>DisconnectBlock\<close>).  The undo data read from disk, the block hashes of the index and the bound on
  the outputs of a block are arguments.  The roots of the contract state, the event log and the
  optional address index, which \<open>DisconnectBlock\<close> resets beside the coins, are not part of the
  state.

  The lemmas show that disconnecting a block that has just been connected restores the coins.
\<close>

section \<open>Connecting\<close>

primrec spend_inputs :: "mem_usage \<Rightarrow> coins_view \<Rightarrow> CTxIn list \<Rightarrow> CTxUndo \<Rightarrow> CCoinsViewCache
    \<Rightarrow> coins_error + CTxUndo \<times> CCoinsViewCache" where
  "spend_inputs mem base [] vprevout c = Inr (vprevout, c)"
| "spend_inputs mem base (i # is) vprevout c =
     (case SpendCoin mem base (prevout i) c of
        (None, c) \<Rightarrow> Inl Assert_is_spent
      | (Some cn, c) \<Rightarrow> spend_inputs mem base is (vprevout @ [cn]) c)"

definition UpdateCoins :: "mem_usage \<Rightarrow> coins_view \<Rightarrow> CTransaction \<Rightarrow> CTxUndo \<Rightarrow> int \<Rightarrow> CCoinsViewCache
    \<Rightarrow> coins_error + CTxUndo \<times> CCoinsViewCache" where
  "UpdateCoins mem base tx txundo nHeight c =
     ebind (if IsCoinBase tx then Inr (txundo, c) else spend_inputs mem base (vin tx) txundo c) (\<lambda>(txundo, c).
     ebind (AddCoins mem base (GetHash tx) tx nHeight False c) (\<lambda>c. Inr (txundo, c)))"

text \<open>The coin updates of \<open>ConnectBlock\<close>: the undo record of the first transaction is dropped.\<close>

fun connect_txs :: "mem_usage \<Rightarrow> coins_view \<Rightarrow> nat \<Rightarrow> CTransaction list \<Rightarrow> int \<Rightarrow> CBlockUndo \<Rightarrow> CCoinsViewCache
    \<Rightarrow> coins_error + CBlockUndo \<times> CCoinsViewCache" where
  "connect_txs mem base i [] nHeight vtxundo c = Inr (vtxundo, c)"
| "connect_txs mem base i (tx # txs) nHeight vtxundo c =
     ebind (UpdateCoins mem base tx [] nHeight c) (\<lambda>(txundo, c).
       connect_txs mem base (Suc i) txs nHeight (if i = 0 then vtxundo else vtxundo @ [txundo]) c)"

definition ConnectBlock_coins :: "mem_usage \<Rightarrow> coins_view \<Rightarrow> CBlock \<Rightarrow> uint256 \<Rightarrow> int \<Rightarrow> CCoinsViewCache
    \<Rightarrow> coins_error + CBlockUndo \<times> CCoinsViewCache" where
  "ConnectBlock_coins mem base block blockHash nHeight c =
     ebind (connect_txs mem base 0 (vtx block) nHeight [] c) (\<lambda>(vtxundo, c). Inr (vtxundo, SetBestBlock blockHash c))"

section \<open>Disconnecting\<close>

datatype DisconnectResult = DISCONNECT_OK | DISCONNECT_UNCLEAN | DISCONNECT_FAILED

definition ApplyTxInUndo :: "mem_usage \<Rightarrow> coins_view \<Rightarrow> nat \<Rightarrow> Coin \<Rightarrow> COutPoint \<Rightarrow> CCoinsViewCache
    \<Rightarrow> coins_error + DisconnectResult \<times> CCoinsViewCache" where
  "ApplyTxInUndo mem base maxOutputs undo p c =
     (let (have, c) = HaveCoin mem base p c;
          fClean = (\<not> have);
          (found, c) =
            (if coinHeight undo = 0 then
               let (alternate, c) = AccessByTxid mem base maxOutputs (outHash p) c
               in (if \<not> IsSpent alternate
                   then Some (undo\<lparr>coinHeight := coinHeight alternate, fCoinBase := fCoinBase alternate\<rparr>) else None, c)
             else (Some undo, c))
      in case found of
           None \<Rightarrow> Inr (DISCONNECT_FAILED, c)
         | Some undo \<Rightarrow>
             ebind (AddCoin mem p undo (\<not> fClean) c) (\<lambda>c. Inr (if fClean then DISCONNECT_OK else DISCONNECT_UNCLEAN, c)))"

primrec disconnect_outputs :: "mem_usage \<Rightarrow> coins_view \<Rightarrow> uint256 \<Rightarrow> CTxOut list \<Rightarrow> nat \<Rightarrow> int \<Rightarrow> bool \<Rightarrow> bool \<Rightarrow> bool \<Rightarrow> CCoinsViewCache
    \<Rightarrow> bool \<times> CCoinsViewCache" where
  "disconnect_outputs mem base txid [] i nHeight is_coinbase is_coinstake fClean c = (fClean, c)"
| "disconnect_outputs mem base txid (o' # os) i nHeight is_coinbase is_coinstake fClean c =
     (if \<not> IsUnspendable (scriptPubKey o') then
        let (r, c) = SpendCoin mem base \<lparr>outHash = txid, outN = of_nat i\<rparr> c;
            cn = (case r of None \<Rightarrow> coinEmpty | Some cn \<Rightarrow> cn);
            mismatch = (r = None \<or> o' \<noteq> out cn \<or> nHeight \<noteq> uint (coinHeight cn) \<or> is_coinbase \<noteq> fCoinBase cn \<or> is_coinstake \<noteq> fCoinStake cn)
        in disconnect_outputs mem base txid os (Suc i) nHeight is_coinbase is_coinstake (fClean \<and> \<not> mismatch) c
      else disconnect_outputs mem base txid os (Suc i) nHeight is_coinbase is_coinstake fClean c)"

text \<open>The inputs with their undo records, last input first.  \<open>None\<close> as flag is the early return
  \<open>DISCONNECT_FAILED\<close>.\<close>

primrec disconnect_inputs :: "mem_usage \<Rightarrow> coins_view \<Rightarrow> nat \<Rightarrow> (COutPoint \<times> Coin) list \<Rightarrow> bool \<Rightarrow> CCoinsViewCache
    \<Rightarrow> coins_error + bool option \<times> CCoinsViewCache" where
  "disconnect_inputs mem base maxOutputs [] fClean c = Inr (Some fClean, c)"
| "disconnect_inputs mem base maxOutputs (pu # pus) fClean c =
     ebind (ApplyTxInUndo mem base maxOutputs (snd pu) (fst pu) c) (\<lambda>(res, c).
       if res = DISCONNECT_FAILED then Inr (None, c)
       else disconnect_inputs mem base maxOutputs pus (fClean \<and> res \<noteq> DISCONNECT_UNCLEAN) c)"

text \<open>The transactions, last first, each with its undo record; the coinbase has none.\<close>

primrec disconnect_txs :: "mem_usage \<Rightarrow> coins_view \<Rightarrow> nat \<Rightarrow> int \<Rightarrow> (CTransaction \<times> CTxUndo option) list \<Rightarrow> bool \<Rightarrow> CCoinsViewCache
    \<Rightarrow> coins_error + bool option \<times> CCoinsViewCache" where
  "disconnect_txs mem base maxOutputs nHeight [] fClean c = Inr (Some fClean, c)"
| "disconnect_txs mem base maxOutputs nHeight (txu # txus) fClean c =
     (let (tx, undo) = txu;
          (fClean, c) = disconnect_outputs mem base (GetHash tx) (vout tx) 0 nHeight (IsCoinBase tx) (IsCoinStake tx) fClean c
      in case undo of
           None \<Rightarrow> disconnect_txs mem base maxOutputs nHeight txus fClean c
         | Some vprevout \<Rightarrow>
             if length vprevout \<noteq> length (vin tx) then Inr (None, c)
             else
               ebind (disconnect_inputs mem base maxOutputs (rev (zip (map prevout (vin tx)) vprevout)) fClean c) (\<lambda>(r, c).
                 case r of None \<Rightarrow> Inr (None, c) | Some fClean \<Rightarrow> disconnect_txs mem base maxOutputs nHeight txus fClean c))"

definition DisconnectBlock :: "mem_usage \<Rightarrow> coins_view \<Rightarrow> uint256 \<Rightarrow> nat \<Rightarrow> CBlock \<Rightarrow> CBlockUndo option \<Rightarrow> uint256 \<Rightarrow> uint256 \<Rightarrow> int
    \<Rightarrow> CCoinsViewCache \<Rightarrow> coins_error + DisconnectResult \<times> CCoinsViewCache" where
  "DisconnectBlock mem base baseBest maxOutputs block undoRead blockHash prevHash nHeight c =
     (let (best, c) = GetBestBlock baseBest c
      in if blockHash \<noteq> best then Inl Assert_hashBlock
         else case undoRead of
           None \<Rightarrow> Inr (DISCONNECT_FAILED, c)
         | Some vtxundo \<Rightarrow>
             if length vtxundo + 1 \<noteq> length (vtx block) then Inr (DISCONNECT_FAILED, c)
             else
               ebind (disconnect_txs mem base maxOutputs nHeight (rev (zip (vtx block) (None # map Some vtxundo))) True c) (\<lambda>(r, c).
                 case r of
                   None \<Rightarrow> Inr (DISCONNECT_FAILED, c)
                 | Some fClean \<Rightarrow>
                     Inr (if fClean then DISCONNECT_OK else DISCONNECT_UNCLEAN, SetBestBlock prevHash c)))"

section \<open>Blocks as changes of a map of coins\<close>

text \<open>Spending a list of outpoints in turn.\<close>

fun abs_spend :: "COutPoint list \<Rightarrow> coins_view \<Rightarrow> (Coin list \<times> coins_view) option" where
  "abs_spend [] m = Some ([], m)"
| "abs_spend (p # ps) m =
     (case m p of None \<Rightarrow> None
      | Some cn \<Rightarrow> (case abs_spend ps (m(p := None)) of None \<Rightarrow> None | Some (cs, m) \<Rightarrow> Some (cn # cs, m)))"

definition abs_inputs :: "CTransaction \<Rightarrow> coins_view \<Rightarrow> (Coin list \<times> coins_view) option" where
  "abs_inputs tx m = (if IsCoinBase tx then Some ([], m) else abs_spend (map prevout (vin tx)) m)"

text \<open>The new outputs do not shadow coins, and there are not more of them than indices.\<close>

definition outputs_fresh :: "CTransaction \<Rightarrow> coins_view \<Rightarrow> bool" where
  "outputs_fresh tx m \<longleftrightarrow> length (vout tx) \<le> 2 ^ 32 \<and> list_all (\<lambda>o'. 0 \<le> nValue o') (vout tx) \<and>
     (\<forall>j < length (vout tx). m \<lparr>outHash = GetHash tx, outN = of_nat j\<rparr> = None)"

text \<open>A block on the map: the coins spent by every transaction and the new map.\<close>

fun abs_connect :: "int \<Rightarrow> CTransaction list \<Rightarrow> coins_view \<Rightarrow> (Coin list list \<times> coins_view) option" where
  "abs_connect h [] m = Some ([], m)"
| "abs_connect h (tx # txs) m =
     (case abs_inputs tx m of None \<Rightarrow> None
      | Some (cs, m) \<Rightarrow>
          if outputs_fresh tx m then
            (case abs_connect h txs (add_outputs (GetHash tx) (vout tx) 0 h (IsCoinBase tx) (IsCoinStake tx) m) of
               None \<Rightarrow> None | Some (us, m) \<Rightarrow> Some (cs # us, m))
          else None)"

text \<open>Coins that the cache stores and that undo data can restore.\<close>

definition good_view :: "coins_view \<Rightarrow> bool" where
  "good_view m \<longleftrightarrow> (\<forall>p cn. m p = Some cn \<longrightarrow> \<not> IsSpent cn \<and> \<not> IsUnspendable (scriptPubKey (out cn)) \<and> coinHeight cn \<noteq> 0)"

lemma abs_spend_len: "abs_spend ps m = Some (cs, m') \<Longrightarrow> length cs = length ps"
  by (induction ps arbitrary: m cs m') (auto split: option.splits)

lemma abs_spend_good: "abs_spend ps m = Some (cs, m') \<Longrightarrow> good_view m \<Longrightarrow> good_view m'"
proof (induction ps arbitrary: m cs m')
  case (Cons p ps)
  obtain cn cs' where s: "m p = Some cn" "abs_spend ps (m(p := None)) = Some (cs', m')"
    using Cons.prems(1) by (auto split: option.splits)
  have "good_view (m(p := None))" using Cons.prems(2) by (auto simp: good_view_def)
  then show ?case using Cons.IH s(2) by blast
qed simp

lemma add_outputs_good:
  "good_view m \<Longrightarrow> list_all (\<lambda>o'. 0 \<le> nValue o') os \<Longrightarrow> (of_int h :: 30 word) \<noteq> 0 \<Longrightarrow> good_view (add_outputs txid os i h cb cs m)"
proof (induction os arbitrary: i m)
  case (Cons o' os)
  have "good_view (m(\<lparr>outHash = txid, outN = of_nat i\<rparr> \<mapsto> mkCoin o' h cb cs))" if "\<not> IsUnspendable (scriptPubKey o')"
    using Cons.prems that by (auto simp: good_view_def IsSpent_def mkCoin_def CTxOut_IsNull_def)
  then show ?case using Cons by simp
qed simp

lemma spend_inputs_refines:
  assumes "unspent_view b" "mem [] = 0"
  shows "cache_ok mem b c \<Longrightarrow> abs_spend (map prevout is) (view b c) = Some (cs, m') \<Longrightarrow>
    \<exists>c'. spend_inputs mem b is undo c = Inr (undo @ cs, c') \<and> cache_ok mem b c' \<and> view b c' = m' \<and> hashBlock c' = hashBlock c"
proof (induction "is" arbitrary: c cs undo)
  case (Cons i "is")
  obtain cn cs' where s: "view b c (prevout i) = Some cn" "abs_spend (map prevout is) ((view b c)(prevout i := None)) = Some (cs', m')" "cs = cn # cs'"
    using Cons.prems(2) by (auto split: option.splits)
  obtain r c1 where r: "SpendCoin mem b (prevout i) c = (r, c1)" by force
  note R = SpendCoin_refines [OF Cons.prems(1) assms r]
  have "abs_spend (map prevout is) (view b c1) = Some (cs', m')" unfolding conjunct1 [OF R] by (rule s(2))
  then obtain c' where "spend_inputs mem b is (undo @ [cn]) c1 = Inr ((undo @ [cn]) @ cs', c')" "cache_ok mem b c'"
    "view b c' = m'" "hashBlock c' = hashBlock c1"
    using Cons.IH [of c1 cs' "undo @ [cn]"] R by blast
  moreover have "r = Some cn" using R s(1) by blast
  ultimately show ?case using r s(3) R by simp
qed simp

lemma UpdateCoins_refines:
  assumes "unspent_view b" "mem [] = 0" "cache_ok mem b c" "abs_inputs tx (view b c) = Some (cs, m)" "outputs_fresh tx m"
  shows "\<exists>c'. UpdateCoins mem b tx [] h c = Inr (cs, c') \<and> cache_ok mem b c' \<and> hashBlock c' = hashBlock c \<and>
    view b c' = add_outputs (GetHash tx) (vout tx) 0 h (IsCoinBase tx) (IsCoinStake tx) m"
proof -
  obtain c1 where c1: "(if IsCoinBase tx then Inr ([], c) else spend_inputs mem b (vin tx) [] c) = Inr (cs, c1)"
    "cache_ok mem b c1" "view b c1 = m" "hashBlock c1 = hashBlock c"
    using assms(3,4) spend_inputs_refines [OF assms(1-3), of "vin tx" cs m "[]"] by (cases "IsCoinBase tx") (auto simp: abs_inputs_def)
  have "list_all (\<lambda>o'. nValue o' \<noteq> - 1) (vout tx)" using assms(5) by (auto simp: outputs_fresh_def list_all_iff)
  then obtain c2 where c2: "AddCoins mem b (GetHash tx) tx h False c1 = Inr c2" "cache_ok mem b c2" "hashBlock c2 = hashBlock c1"
    "view b c2 = add_outputs (GetHash tx) (vout tx) 0 h (IsCoinBase tx) (IsCoinStake tx) m"
    using AddCoins_loop_refines [OF assms(1,2) c1(2), of "vout tx" 0 False "IsCoinBase tx" "GetHash tx" h "IsCoinStake tx"] assms(5) c1(3)
    by (auto simp: AddCoins_def outputs_fresh_def)
  show ?thesis using c1 c2 by (simp add: UpdateCoins_def)
qed

lemma abs_connect_Cons:
  assumes "abs_connect h (tx # txs) m = Some (us, m')"
  obtains cs m1 us' where "abs_inputs tx m = Some (cs, m1)" "outputs_fresh tx m1" "us = cs # us'"
    "abs_connect h txs (add_outputs (GetHash tx) (vout tx) 0 h (IsCoinBase tx) (IsCoinStake tx) m1) = Some (us', m')"
  using assms by (auto split: option.splits prod.splits if_splits)

lemma abs_inputs_good: "abs_inputs tx m = Some (cs, m1) \<Longrightarrow> good_view m \<Longrightarrow> good_view m1"
  using abs_spend_good by (auto simp: abs_inputs_def split: if_splits)

lemma outputs_good:
  "good_view m \<Longrightarrow> outputs_fresh tx m \<Longrightarrow> (of_int h :: 30 word) \<noteq> 0 \<Longrightarrow>
     good_view (add_outputs (GetHash tx) (vout tx) 0 h (IsCoinBase tx) (IsCoinStake tx) m)"
  by (simp add: add_outputs_good outputs_fresh_def)

lemma connect_txs_refines:
  assumes "unspent_view b" "mem [] = 0"
  shows "cache_ok mem b c \<Longrightarrow> abs_connect h txs (view b c) = Some (us, m') \<Longrightarrow>
    \<exists>c'. connect_txs mem b (Suc i) txs h undo c = Inr (undo @ us, c') \<and> cache_ok mem b c' \<and> view b c' = m' \<and> hashBlock c' = hashBlock c"
proof (induction txs arbitrary: c us undo i)
  case (Cons tx txs)
  obtain cs m1 us' where a: "abs_inputs tx (view b c) = Some (cs, m1)" "outputs_fresh tx m1" "us = cs # us'"
    "abs_connect h txs (add_outputs (GetHash tx) (vout tx) 0 h (IsCoinBase tx) (IsCoinStake tx) m1) = Some (us', m')"
    using abs_connect_Cons [OF Cons.prems(2)] .
  obtain c1 where c1: "UpdateCoins mem b tx [] h c = Inr (cs, c1)" "cache_ok mem b c1" "hashBlock c1 = hashBlock c"
    "view b c1 = add_outputs (GetHash tx) (vout tx) 0 h (IsCoinBase tx) (IsCoinStake tx) m1"
    using UpdateCoins_refines [OF assms Cons.prems(1) a(1,2)] by blast
  show ?case using Cons.IH [OF c1(2), of us' "Suc i" "undo @ [cs]"] a(3,4) c1 by simp
qed simp

section \<open>Disconnecting restores the map\<close>

lemma add_outputs_other:
  "\<forall>j. i \<le> j \<and> j < i + length os \<longrightarrow> p \<noteq> \<lparr>outHash = txid, outN = of_nat j\<rparr> \<Longrightarrow> add_outputs txid os i h cb cs m p = m p"
proof (induction os arbitrary: i m)
  case (Cons o' os)
  have "p \<noteq> \<lparr>outHash = txid, outN = of_nat i\<rparr>" using Cons.prems by auto
  then show ?case using Cons by simp
qed simp

lemma add_outputs_upd:
  "\<forall>j. i \<le> j \<and> j < i + length os \<longrightarrow> p \<noteq> \<lparr>outHash = txid, outN = of_nat j\<rparr> \<Longrightarrow>
     add_outputs txid os i h cb cs (m(p := x)) = (add_outputs txid os i h cb cs m)(p := x)"
proof (induction os arbitrary: i m)
  case (Cons o' os)
  have "\<lparr>outHash = txid, outN = of_nat i\<rparr> \<noteq> p" using Cons.prems by auto
  moreover have "\<forall>j. Suc i \<le> j \<and> j < Suc i + length os \<longrightarrow> p \<noteq> \<lparr>outHash = txid, outN = of_nat j\<rparr>" using Cons.prems by auto
  ultimately have "add_outputs txid os (Suc i) h cb cs ((m(p := x))(\<lparr>outHash = txid, outN = of_nat i\<rparr> := y)) =
      (add_outputs txid os (Suc i) h cb cs (m(\<lparr>outHash = txid, outN = of_nat i\<rparr> := y)))(p := x)"
    "add_outputs txid os (Suc i) h cb cs (m(p := x)) = (add_outputs txid os (Suc i) h cb cs m)(p := x)" for y
    using Cons.IH [of "Suc i"] fun_upd_twist [of p "\<lparr>outHash = txid, outN = of_nat i\<rparr>" m x y] by metis+
  then show ?case by (cases "IsUnspendable (scriptPubKey o')") (simp_all only: add_outputs.simps if_True if_False)
qed simp

lemma outpoint_index_neq:
  assumes "i < j" "j < 2 ^ 32"
  shows "\<lparr>outHash = txid, outN = of_nat i\<rparr> \<noteq> \<lparr>outHash = txid, outN = (of_nat j :: u32)\<rparr>"
  using assms of_nat_u32_inj [of i j] by auto

lemma disconnect_outputs_refines:
  assumes "unspent_view b" "mem [] = 0" "0 \<le> h" "h < 2 ^ 30"
  shows "cache_ok mem b c \<Longrightarrow> view b c = add_outputs txid os i h cb cs m \<Longrightarrow> i + length os \<le> 2 ^ 32 \<Longrightarrow>
    \<forall>j. i \<le> j \<and> j < i + length os \<longrightarrow> m \<lparr>outHash = txid, outN = of_nat j\<rparr> = None \<Longrightarrow>
    \<exists>c'. disconnect_outputs mem b txid os i h cb cs fClean c = (fClean, c') \<and> cache_ok mem b c' \<and> view b c' = m \<and> hashBlock c' = hashBlock c"
proof (induction os arbitrary: i c)
  case (Cons o' os)
  let ?p = "\<lparr>outHash = txid, outN = of_nat i\<rparr> :: COutPoint"
  have ne: "\<forall>j. Suc i \<le> j \<and> j < Suc i + length os \<longrightarrow> ?p \<noteq> \<lparr>outHash = txid, outN = of_nat j\<rparr>"
    using outpoint_index_neq [of i _ txid] Cons.prems(3) by (auto simp: Suc_le_eq)
  show ?case
  proof (cases "IsUnspendable (scriptPubKey o')")
    case True
    then show ?thesis using Cons.IH [of c "Suc i"] Cons.prems by simp
  next
    case False
    let ?cn = "mkCoin o' h cb cs"
    have v: "view b c = (add_outputs txid os (Suc i) h cb cs m)(?p \<mapsto> ?cn)"
      unfolding Cons.prems(2) add_outputs.simps if_not_P [OF False] by (rule add_outputs_upd [OF ne])
    obtain r c1 where r: "SpendCoin mem b ?p c = (r, c1)" by force
    note R = SpendCoin_refines [OF Cons.prems(1) assms(1,2) r]
    have "view b c ?p = Some ?cn" unfolding v by simp
    then have "r = Some ?cn" using R by blast
    moreover have "uint (coinHeight ?cn) = h" using assms(3,4) by (simp add: mkCoin_def uint_word_of_int_eq take_bit_int_eq_self)
    moreover have "out ?cn = o'" "fCoinBase ?cn = cb" "fCoinStake ?cn = cs" by (simp_all add: mkCoin_def)
    ultimately have d: "disconnect_outputs mem b txid (o' # os) i h cb cs fClean c = disconnect_outputs mem b txid os (Suc i) h cb cs fClean c1"
      using False r by (simp add: Let_def)
    have "add_outputs txid os (Suc i) h cb cs m ?p = None" using add_outputs_other [OF ne] Cons.prems(4) by simp
    then have "view b c1 = add_outputs txid os (Suc i) h cb cs m" unfolding conjunct1 [OF R] v by (simp add: fun_upd_idem)
    then show ?thesis using Cons.IH [of c1 "Suc i"] Cons.prems(3,4) R d by auto
  qed
qed simp

lemma disconnect_inputs_append:
  "disconnect_inputs mem b mo (xs @ ys) fc c =
     ebind (disconnect_inputs mem b mo xs fc c) (\<lambda>(r, c). case r of None \<Rightarrow> Inr (None, c) | Some fc \<Rightarrow> disconnect_inputs mem b mo ys fc c)"
proof (induction xs arbitrary: fc c)
  case (Cons x xs)
  then show ?case by (cases "ApplyTxInUndo mem b mo (snd x) (fst x) c") (auto split: prod.splits)
qed simp

lemma ApplyTxInUndo_restores:
  assumes "unspent_view b" "mem [] = 0" "cache_ok mem b c" "view b c p = None"
    "\<not> IsSpent cn" "\<not> IsUnspendable (scriptPubKey (out cn))" "coinHeight cn \<noteq> 0"
  shows "\<exists>c'. ApplyTxInUndo mem b mo cn p c = Inr (DISCONNECT_OK, c') \<and> cache_ok mem b c' \<and> hashBlock c' = hashBlock c \<and>
    view b c' = (view b c)(p \<mapsto> cn)"
proof -
  obtain r c1 where r: "HaveCoin mem b p c = (r, c1)" by force
  note R = HaveCoin_refines [OF assms(3,1) r]
  have n: "view b c1 p = None" using R assms(4) by metis
  obtain c2 where c2: "AddCoin mem p cn False c1 = Inr c2" "cache_ok mem b c2" "hashBlock c2 = hashBlock c1"
    "view b c2 = (view b c1)(p := Some cn)"
    using AddCoin_refines [of mem b c1 cn False p] R n assms(2,5,6) by auto
  have "\<not> r" using R assms(4) by simp
  then show ?thesis using r c2 R assms(7) by (simp add: ApplyTxInUndo_def)
qed

lemma disconnect_inputs_restore:
  assumes "unspent_view b" "mem [] = 0"
  shows "abs_spend ps m = Some (cs, m') \<Longrightarrow> good_view m \<Longrightarrow> cache_ok mem b c \<Longrightarrow> view b c = m' \<Longrightarrow>
    \<exists>c'. disconnect_inputs mem b mo (rev (zip ps cs)) fc c = Inr (Some fc, c') \<and> cache_ok mem b c' \<and> view b c' = m \<and> hashBlock c' = hashBlock c"
proof (induction ps arbitrary: m cs)
  case (Cons p ps)
  obtain cn cs' where s: "m p = Some cn" "abs_spend ps (m(p := None)) = Some (cs', m')" "cs = cn # cs'"
    using Cons.prems(1) by (auto split: option.splits)
  have "good_view (m(p := None))" using Cons.prems(2) by (auto simp: good_view_def)
  then obtain c1 where c1: "disconnect_inputs mem b mo (rev (zip ps cs')) fc c = Inr (Some fc, c1)" "cache_ok mem b c1"
    "view b c1 = m(p := None)" "hashBlock c1 = hashBlock c"
    using Cons.IH [OF s(2) _ Cons.prems(3,4)] by blast
  have g: "\<not> IsSpent cn" "\<not> IsUnspendable (scriptPubKey (out cn))" "coinHeight cn \<noteq> 0"
    using Cons.prems(2) s(1) by (auto simp: good_view_def)
  have "view b c1 p = None" unfolding c1(3) by simp
  then obtain c2 where c2: "ApplyTxInUndo mem b mo cn p c1 = Inr (DISCONNECT_OK, c2)" "cache_ok mem b c2" "hashBlock c2 = hashBlock c1"
    "view b c2 = (view b c1)(p \<mapsto> cn)"
    using ApplyTxInUndo_restores [OF assms c1(2) _ g] by blast
  have "view b c2 = m" unfolding c2(4) c1(3) using s(1) by (simp add: fun_upd_idem)
  then show ?case using c1 c2 s(3) by (simp add: disconnect_inputs_append)
qed simp

lemma disconnect_txs_append:
  "disconnect_txs mem b mo h (xs @ ys) fc c =
     ebind (disconnect_txs mem b mo h xs fc c) (\<lambda>(r, c). case r of None \<Rightarrow> Inr (None, c) | Some fc \<Rightarrow> disconnect_txs mem b mo h ys fc c)"
proof (induction xs arbitrary: fc c)
  case (Cons x xs)
  obtain tx u where x: "x = (tx, u)" by force
  obtain fc1 c1 where o: "disconnect_outputs mem b (GetHash tx) (vout tx) 0 h (IsCoinBase tx) (IsCoinStake tx) fc c = (fc1, c1)" by force
  show ?case
  proof (cases u)
    case None
    then show ?thesis using Cons.IH by (simp add: x o)
  next
    case (Some v)
    show ?thesis
    proof (cases "disconnect_inputs mem b mo (rev (zip (map prevout (vin tx)) v)) fc1 c1")
      case (Inr rc)
      then show ?thesis using Cons.IH by (cases rc; cases "fst rc") (simp_all add: x o Some)
    qed (simp add: x o Some)
  qed
qed simp

text \<open>One transaction taken back: its outputs first, then its inputs.\<close>

lemma disconnect_tx_restores:
  assumes "unspent_view b" "mem [] = 0" "0 \<le> h" "h < 2 ^ 30" and inp: "abs_inputs tx m = Some (cs, m1)" and f: "outputs_fresh tx m1" and g: "good_view m"
    and c: "cache_ok mem b c" "view b c = add_outputs (GetHash tx) (vout tx) 0 h (IsCoinBase tx) (IsCoinStake tx) m1"
  shows "\<exists>c'. disconnect_txs mem b mo h [(tx, if IsCoinBase tx then None else Some cs)] fc c = Inr (Some fc, c') \<and> cache_ok mem b c' \<and>
    view b c' = m \<and> hashBlock c' = hashBlock c"
proof -
  obtain c1 where c1: "disconnect_outputs mem b (GetHash tx) (vout tx) 0 h (IsCoinBase tx) (IsCoinStake tx) fc c = (fc, c1)" "cache_ok mem b c1"
    "view b c1 = m1" "hashBlock c1 = hashBlock c"
    using disconnect_outputs_refines [OF assms(1-4) c] f by (auto simp: outputs_fresh_def)
  show ?thesis
  proof (cases "IsCoinBase tx")
    case True
    then show ?thesis using c1 inp by (auto simp: abs_inputs_def)
  next
    case False
    then have s: "abs_spend (map prevout (vin tx)) m = Some (cs, m1)" using inp by (simp add: abs_inputs_def)
    obtain c2 where "disconnect_inputs mem b mo (rev (zip (map prevout (vin tx)) cs)) fc c1 = Inr (Some fc, c2)" "cache_ok mem b c2"
      "view b c2 = m" "hashBlock c2 = hashBlock c1"
      using disconnect_inputs_restore [OF assms(1,2) s g c1(2,3)] by blast
    then show ?thesis using False c1 abs_spend_len [OF s] by simp
  qed
qed

lemma disconnect_txs_restore:
  assumes "unspent_view b" "mem [] = 0" "0 \<le> h" "h < 2 ^ 30" "(of_int h :: 30 word) \<noteq> 0"
  shows "abs_connect h txs m = Some (us, m') \<Longrightarrow> good_view m \<Longrightarrow> cache_ok mem b c \<Longrightarrow> view b c = m' \<Longrightarrow>
    \<exists>c'. disconnect_txs mem b mo h (rev (map (\<lambda>(tx, u). (tx, if IsCoinBase tx then None else Some u)) (zip txs us))) fc c = Inr (Some fc, c') \<and>
      cache_ok mem b c' \<and> view b c' = m \<and> hashBlock c' = hashBlock c \<and> length us = length txs"
proof (induction txs arbitrary: m us)
  case (Cons tx txs)
  obtain cs m1 us' where a: "abs_inputs tx m = Some (cs, m1)" "outputs_fresh tx m1" "us = cs # us'"
    "abs_connect h txs (add_outputs (GetHash tx) (vout tx) 0 h (IsCoinBase tx) (IsCoinStake tx) m1) = Some (us', m')"
    using abs_connect_Cons [OF Cons.prems(1)] .
  let ?m2 = "add_outputs (GetHash tx) (vout tx) 0 h (IsCoinBase tx) (IsCoinStake tx) m1"
  have "good_view ?m2" by (rule outputs_good [OF abs_inputs_good [OF a(1) Cons.prems(2)] a(2) assms(5)])
  then obtain c1 where c1: "disconnect_txs mem b mo h (rev (map (\<lambda>(tx, u). (tx, if IsCoinBase tx then None else Some u)) (zip txs us'))) fc c = Inr (Some fc, c1)"
    "cache_ok mem b c1" "view b c1 = ?m2" "hashBlock c1 = hashBlock c" "length us' = length txs"
    using Cons.IH [OF a(4) _ Cons.prems(3,4)] by blast
  obtain c2 where "disconnect_txs mem b mo h [(tx, if IsCoinBase tx then None else Some cs)] fc c1 = Inr (Some fc, c2)" "cache_ok mem b c2"
    "view b c2 = m" "hashBlock c2 = hashBlock c1"
    using disconnect_tx_restores [OF assms(1-4) a(1,2) Cons.prems(2) c1(2,3)] by blast
  then show ?case using c1 a(3) by (simp only: zip_Cons_Cons list.map rev.simps prod.case disconnect_txs_append ebind_simps option.case list.size) simp
qed simp

lemma ConnectBlock_coins_refines:
  assumes "unspent_view b" "mem [] = 0" "cache_ok mem b c" "vtx block = cb # txs" "abs_connect h (cb # txs) (view b c) = Some (us, m')"
  shows "\<exists>c'. ConnectBlock_coins mem b block bh h c = Inr (tl us, c') \<and> cache_ok mem b c' \<and> view b c' = m' \<and> hashBlock c' = bh"
proof -
  obtain cs m1 us' where a: "abs_inputs cb (view b c) = Some (cs, m1)" "outputs_fresh cb m1" "us = cs # us'"
    "abs_connect h txs (add_outputs (GetHash cb) (vout cb) 0 h (IsCoinBase cb) (IsCoinStake cb) m1) = Some (us', m')"
    using abs_connect_Cons [OF assms(5)] .
  obtain c1 where c1: "UpdateCoins mem b cb [] h c = Inr (cs, c1)" "cache_ok mem b c1"
    "view b c1 = add_outputs (GetHash cb) (vout cb) 0 h (IsCoinBase cb) (IsCoinStake cb) m1"
    using UpdateCoins_refines [OF assms(1-3) a(1,2)] by blast
  obtain c2 where c2: "connect_txs mem b (Suc 0) txs h [] c1 = Inr ([] @ us', c2)" "cache_ok mem b c2" "view b c2 = m'"
    using connect_txs_refines [OF assms(1,2) c1(2), of h txs us' m' 0 "[]"] a(4) unfolding c1(3) by blast
  have "cache_ok mem b (SetBestBlock bh c2)" "view b (SetBestBlock bh c2) = view b c2"
    using c2(2) by (simp_all add: SetBestBlock_def hashBlock_irrelevant)
  then show ?thesis using c1(1) c2 a(3) by (simp add: ConnectBlock_coins_def assms(4) SetBestBlock_def)
qed

text \<open>
  C10: Property: disconnecting a block that has just been connected is clean and restores the coins.
  If the inputs of the block's transactions are unspent coins of the view, in order, and its outputs
  are new, then connecting the block applies it to the map of coins, and disconnecting it with the
  undo data so obtained returns \<open>DISCONNECT_OK\<close>, the map as it was and the previous best block.  The
  coins must not be of height zero, whose undo records lack the metadata.
\<close>

theorem disconnect_restores_coins:
  assumes "unspent_view b" "mem [] = 0" "cache_ok mem b c" "good_view (view b c)"
    "vtx block = cb # txs" "IsCoinBase cb" "list_all (\<lambda>tx. \<not> IsCoinBase tx) txs"
    "abs_connect h (vtx block) (view b c) = Some (us, m')" "0 < h" "h < 2 ^ 30" "\<not> uint256_IsNull blockHash"
  shows "\<exists>undo c1 c2. ConnectBlock_coins mem b block blockHash h c = Inr (undo, c1) \<and> view b c1 = m' \<and>
    DisconnectBlock mem b baseBest maxOutputs block (Some undo) blockHash prevHash h c1 = Inr (DISCONNECT_OK, c2) \<and>
    view b c2 = view b c \<and> cache_ok mem b c2 \<and> hashBlock c2 = prevHash"
proof -
  have ac: "abs_connect h (cb # txs) (view b c) = Some (us, m')" using assms(5,8) by simp
  obtain c1 where c1: "ConnectBlock_coins mem b block blockHash h c = Inr (tl us, c1)" "cache_ok mem b c1" "view b c1 = m'" "hashBlock c1 = blockHash"
    using ConnectBlock_coins_refines [OF assms(1-3,5) ac] by blast
  have h: "(of_int h :: 30 word) \<noteq> 0" "0 \<le> h"
    using assms(9,10) by (simp_all add: word_uint_eq_iff uint_word_of_int_eq take_bit_int_eq_self)
  obtain c2 where c2: "disconnect_txs mem b maxOutputs h (rev (map (\<lambda>(tx, u). (tx, if IsCoinBase tx then None else Some u)) (zip (cb # txs) us))) True c1 = Inr (Some True, c2)"
    "cache_ok mem b c2" "view b c2 = view b c" "length us = length (cb # txs)"
    using disconnect_txs_restore [OF assms(1,2) h(2) assms(10) h(1) ac assms(4) c1(2,3)] by blast
  obtain u us' where us: "us = u # us'" using c2(4) by (cases us) auto
  have "map (\<lambda>(tx, u). (tx, if IsCoinBase tx then None else Some u)) (zip txs us') = zip txs (map Some us')"
    using assms(7) by (induction txs us' rule: list_induct2') auto
  then have z: "map (\<lambda>(tx, u). (tx, if IsCoinBase tx then None else Some u)) (zip (cb # txs) us) = zip (vtx block) (None # map Some (tl us))"
    using assms(5,6) us by simp
  have best: "GetBestBlock baseBest c1 = (blockHash, c1)" using c1(4) assms(11) by (simp add: GetBestBlock_def)
  have l: "length (tl us) + 1 = length (vtx block)" using c2(4) us assms(5) by simp
  have d: "DisconnectBlock mem b baseBest maxOutputs block (Some (tl us)) blockHash prevHash h c1 = Inr (DISCONNECT_OK, SetBestBlock prevHash c2)"
    using c2(1) l unfolding z DisconnectBlock_def best by simp
  have "cache_ok mem b (SetBestBlock prevHash c2)" "view b (SetBestBlock prevHash c2) = view b c" "hashBlock (SetBestBlock prevHash c2) = prevHash"
    using c2(2,3) by (simp_all add: SetBestBlock_def hashBlock_irrelevant)
  then show ?thesis using c1 d by blast
qed

definition demo_out :: COutPoint where "demo_out = \<lparr>outHash = [], outN = 0\<rparr>"
definition demo_coin :: Coin where "demo_coin = mkCoin \<lparr>nValue = 50, scriptPubKey = [OP_1]\<rparr> 3 False False"
definition demo_coinbase :: CTransaction where
  "demo_coinbase = \<lparr>vin = [\<lparr>prevout = COutPoint_null, scriptSig = [], nSequence = 0, scriptWitness = []\<rparr>],
     vout = [\<lparr>nValue = 0, scriptPubKey = [OP_RETURN]\<rparr>], nVersion = 2, nLockTime = 0\<rparr>"
definition demo_spend :: CTransaction where
  "demo_spend = \<lparr>vin = [\<lparr>prevout = demo_out, scriptSig = [], nSequence = 0, scriptWitness = []\<rparr>],
     vout = [\<lparr>nValue = 40, scriptPubKey = [OP_1]\<rparr>], nVersion = 2, nLockTime = 0\<rparr>"

lemma demo_connect: "abs_connect 5 [demo_coinbase, demo_spend] [demo_out \<mapsto> demo_coin] =
    Some ([[], [demo_coin]], [\<lparr>outHash = GetHash demo_spend, outN = 0\<rparr> \<mapsto> mkCoin \<lparr>nValue = 40, scriptPubKey = [OP_1]\<rparr> 5 False False])"
proof -
  have cb: "IsCoinBase demo_coinbase" "\<not> IsCoinBase demo_spend" "\<not> IsCoinStake demo_spend" "\<not> IsCoinStake demo_coinbase"
    by (simp_all add: IsCoinBase_def IsCoinStake_def demo_coinbase_def demo_spend_def COutPoint_null_def COutPoint_IsNull_def demo_out_def uint256_IsNull_def uint256_null_def list_all_iff)
  have ne: "\<lparr>outHash = GetHash tx, outN = n\<rparr> \<noteq> demo_out" for tx n
    by (metis COutPoint.select_convs(1) demo_out_def length_GetHash list.size(3) zero_neq_numeral)
  have u: "IsUnspendable [OP_RETURN]" "\<not> IsUnspendable [OP_1]" by (simp_all add: IsUnspendable_def)
  have o: "vout demo_coinbase = [\<lparr>nValue = 0, scriptPubKey = [OP_RETURN]\<rparr>]" "vout demo_spend = [\<lparr>nValue = 40, scriptPubKey = [OP_1]\<rparr>]"
    "map prevout (vin demo_spend) = [demo_out]"
    by (simp_all add: demo_coinbase_def demo_spend_def)
  show ?thesis
    using cb ne u o by (simp add: abs_inputs_def outputs_fresh_def)
qed

theorem disconnect_restores_coins_witness:
  "\<exists>undo c1 c2. ConnectBlock_coins (\<lambda>_. 0) [demo_out \<mapsto> demo_coin] (CBlock_of_header CBlockHeader_null\<lparr>vtx := [demo_coinbase, demo_spend]\<rparr>) (replicate 32 1) 5 CCoinsViewCache_new = Inr (undo, c1) \<and>
    DisconnectBlock (\<lambda>_. 0) [demo_out \<mapsto> demo_coin] uint256_null 100 (CBlock_of_header CBlockHeader_null\<lparr>vtx := [demo_coinbase, demo_spend]\<rparr>) (Some undo) (replicate 32 1) (replicate 32 2) 5 c1 = Inr (DISCONNECT_OK, c2) \<and>
    view [demo_out \<mapsto> demo_coin] c2 = [demo_out \<mapsto> demo_coin]"
proof -
  let ?b = "[demo_out \<mapsto> demo_coin]" and ?blk = "CBlock_of_header CBlockHeader_null\<lparr>vtx := [demo_coinbase, demo_spend]\<rparr>"
  have sp: "\<not> IsSpent demo_coin" by (simp add: demo_coin_def mkCoin_def IsSpent_def CTxOut_IsNull_def)
  then have b: "unspent_view ?b" by (auto simp: unspent_view_def)
  have v: "view ?b CCoinsViewCache_new = ?b" by (simp add: view_new)
  have ok: "cache_ok (\<lambda>_. 0) ?b CCoinsViewCache_new" by (simp add: cache_ok_new)
  have g: "good_view (view ?b CCoinsViewCache_new)" unfolding v
    using sp by (auto simp: good_view_def demo_coin_def mkCoin_def IsUnspendable_def)
  have cb: "IsCoinBase demo_coinbase" "list_all (\<lambda>tx. \<not> IsCoinBase tx) [demo_spend]"
    by (simp_all add: IsCoinBase_def demo_coinbase_def demo_spend_def COutPoint_null_def COutPoint_IsNull_def demo_out_def uint256_IsNull_def uint256_null_def list_all_iff)
  have nn: "\<not> uint256_IsNull (replicate 32 1)" by (simp add: uint256_IsNull_def list_all_iff)
  have vt: "vtx ?blk = demo_coinbase # [demo_spend]" by simp
  show ?thesis
    using disconnect_restores_coins [OF b _ ok g vt cb _ _ _ nn, of 5 _ _ uint256_null 100 "replicate 32 2", unfolded v vt, OF _ demo_connect] by auto
qed

end
