(* ===== verification/Chain.thy ===== *)
theory Chain
  imports Hashes
begin

text \<open>
  The block index and the active chain (src/src/chain.h and src/src/chain.cpp).  Index entries are
  records in a heap of addresses; a pointer is an address or \<open>None\<close> for \<open>nullptr\<close>.  A function
  returns \<open>None\<close> where the code dereferences a pointer that points to no entry, leaves the bounds of
  a vector, overflows an \<open>int\<close> or fails an assertion.  Loops that follow parent pointers are partial
  functions, since only the well-formedness of the index makes them end.

  The lemmas show that the skip list finds the same ancestor as walking the parents, that the
  chain vector is the branch of its tip after every change of the tip, what forks, common
  ancestors and locators are, that the median time never goes back, and that the work of a block
  is the expected number of hashes.
\<close>

section \<open>Index entries\<close>

type_synonym ptr = nat

record CBlockIndex =
  phashBlock :: uint256
  pprev :: "ptr option"
  pskip :: "ptr option"
  nHeight :: int
  nFile :: int
  nDataPos :: u32
  nUndoPos :: u32
  nChainWork :: base_uint
  nTx :: u32
  nChainTx :: u32
  nStatus :: u32
  biVersion :: int
  biMerkleRoot :: uint256
  biTime :: u32
  biBits :: u32
  biNonce :: u32
  biStateRoot :: uint256
  biUTXORoot :: uint256
  biBlockSig :: bytes
  nStakeModifier :: uint256
  biPrevoutStake :: COutPoint
  hashProof :: uint256
  nMoneySupply :: u64
  nSequenceId :: int
  nTimeMax :: u32

type_synonym index_heap = "ptr \<rightharpoonup> CBlockIndex"

definition CBlockIndex_null :: CBlockIndex where
  "CBlockIndex_null =
     \<lparr>phashBlock = uint256_null, pprev = None, pskip = None, nHeight = 0, nFile = 0, nDataPos = 0, nUndoPos = 0,
      nChainWork = base_uint_zero, nTx = 0, nChainTx = 0, nStatus = 0,
      biVersion = 0, biMerkleRoot = uint256_null, biTime = 0, biBits = 0, biNonce = 0,
      biStateRoot = uint256_null, biUTXORoot = uint256_null, biBlockSig = [], nStakeModifier = uint256_null,
      biPrevoutStake = COutPoint_null, hashProof = uint256_null, nMoneySupply = 0, nSequenceId = 0, nTimeMax = 0\<rparr>"

definition CBlockIndex_of :: "CBlockHeader \<Rightarrow> CBlockIndex" where
  "CBlockIndex_of block =
     CBlockIndex_null
       \<lparr>biVersion := hVersion block, biMerkleRoot := hashMerkleRoot block, biTime := nTime block,
        biBits := nBits block, biNonce := nNonce block, nMoneySupply := 0,
        biStateRoot := hashStateRoot block, biUTXORoot := hashUTXORoot block,
        nStakeModifier := uint256_null, hashProof := uint256_null,
        biPrevoutStake := prevoutStake block, biBlockSig := vchBlockSig block\<rparr>"

definition GetBlockHeader :: "index_heap \<Rightarrow> CBlockIndex \<Rightarrow> CBlockHeader option" where
  "GetBlockHeader H e =
     (case (case pprev e of None \<Rightarrow> Some uint256_null | Some q \<Rightarrow> map_option phashBlock (H q)) of
        None \<Rightarrow> None
      | Some prev \<Rightarrow>
          Some \<lparr>hVersion = biVersion e, hashPrevBlock = prev, hashMerkleRoot = biMerkleRoot e,
                nTime = biTime e, nBits = biBits e, nNonce = biNonce e, hashStateRoot = biStateRoot e,
                hashUTXORoot = biUTXORoot e, prevoutStake = biPrevoutStake e, vchBlockSig = biBlockSig e\<rparr>)"

definition HaveTxsDownloaded :: "CBlockIndex \<Rightarrow> bool" where
  "HaveTxsDownloaded e \<longleftrightarrow> nChainTx e \<noteq> 0"

definition bi_GetBlockTime :: "CBlockIndex \<Rightarrow> int" where
  "bi_GetBlockTime e = uint (biTime e)"

definition GetBlockTimeMax :: "CBlockIndex \<Rightarrow> int" where
  "GetBlockTimeMax e = uint (nTimeMax e)"

definition bi_IsProofOfStake :: "CBlockIndex \<Rightarrow> bool" where
  "bi_IsProofOfStake e \<longleftrightarrow> \<not> COutPoint_IsNull (biPrevoutStake e)"

definition bi_IsProofOfWork :: "CBlockIndex \<Rightarrow> bool" where
  "bi_IsProofOfWork e \<longleftrightarrow> \<not> bi_IsProofOfStake e"

subsection \<open>Status flags\<close>

definition BLOCK_VALID_TREE :: u32 where "BLOCK_VALID_TREE = 2"
definition BLOCK_VALID_TRANSACTIONS :: u32 where "BLOCK_VALID_TRANSACTIONS = 3"
definition BLOCK_VALID_CHAIN :: u32 where "BLOCK_VALID_CHAIN = 4"
definition BLOCK_VALID_SCRIPTS :: u32 where "BLOCK_VALID_SCRIPTS = 5"
definition BLOCK_VALID_MASK :: u32 where "BLOCK_VALID_MASK = 1 OR 2 OR 3 OR 4 OR 5"
definition BLOCK_HAVE_DATA :: u32 where "BLOCK_HAVE_DATA = 8"
definition BLOCK_HAVE_UNDO :: u32 where "BLOCK_HAVE_UNDO = 16"
definition BLOCK_FAILED_VALID :: u32 where "BLOCK_FAILED_VALID = 32"
definition BLOCK_FAILED_CHILD :: u32 where "BLOCK_FAILED_CHILD = 64"
definition BLOCK_FAILED_MASK :: u32 where "BLOCK_FAILED_MASK = 32 OR 64"
definition BLOCK_OPT_WITNESS :: u32 where "BLOCK_OPT_WITNESS = 128"

lemmas block_status_defs =
  BLOCK_VALID_TREE_def BLOCK_VALID_TRANSACTIONS_def BLOCK_VALID_CHAIN_def BLOCK_VALID_SCRIPTS_def BLOCK_VALID_MASK_def
  BLOCK_HAVE_DATA_def BLOCK_HAVE_UNDO_def BLOCK_FAILED_VALID_def BLOCK_FAILED_CHILD_def BLOCK_FAILED_MASK_def BLOCK_OPT_WITNESS_def

text \<open>The position of a block in the block files; \<open>None\<close> is the null position.\<close>

definition GetBlockPos :: "CBlockIndex \<Rightarrow> (int \<times> u32) option" where
  "GetBlockPos e = (if nStatus e AND BLOCK_HAVE_DATA \<noteq> 0 then Some (nFile e, nDataPos e) else None)"

definition GetUndoPos :: "CBlockIndex \<Rightarrow> (int \<times> u32) option" where
  "GetUndoPos e = (if nStatus e AND BLOCK_HAVE_UNDO \<noteq> 0 then Some (nFile e, nUndoPos e) else None)"

definition IsValid :: "u32 \<Rightarrow> CBlockIndex \<Rightarrow> bool option" where
  "IsValid nUpTo e =
     (if nUpTo AND NOT BLOCK_VALID_MASK \<noteq> 0 then None
      else if nStatus e AND BLOCK_FAILED_MASK \<noteq> 0 then Some False
      else Some (nStatus e AND BLOCK_VALID_MASK \<ge> nUpTo))"

definition RaiseValidity :: "u32 \<Rightarrow> CBlockIndex \<Rightarrow> (bool \<times> CBlockIndex) option" where
  "RaiseValidity nUpTo e =
     (if nUpTo AND NOT BLOCK_VALID_MASK \<noteq> 0 then None
      else if nStatus e AND BLOCK_FAILED_MASK \<noteq> 0 then Some (False, e)
      else if nStatus e AND BLOCK_VALID_MASK < nUpTo
           then Some (True, e\<lparr>nStatus := (nStatus e AND NOT BLOCK_VALID_MASK) OR nUpTo\<rparr>)
      else Some (False, e))"

subsection \<open>Median time\<close>

definition nMedianTimeSpan :: nat where "nMedianTimeSpan = 11"

text \<open>The times of the last blocks, most recent first.\<close>

primrec recent_times :: "index_heap \<Rightarrow> nat \<Rightarrow> ptr option \<Rightarrow> int list option" where
  "recent_times H 0 p = Some []"
| "recent_times H (Suc i) p =
     (case p of None \<Rightarrow> Some []
      | Some q \<Rightarrow> (case H q of None \<Rightarrow> None
          | Some e \<Rightarrow> map_option ((#) (bi_GetBlockTime e)) (recent_times H i (pprev e))))"

definition GetMedianTimePast :: "index_heap \<Rightarrow> ptr \<Rightarrow> int option" where
  "GetMedianTimePast H p =
     map_option (\<lambda>ts. sort ts ! (length ts div 2)) (recent_times H nMedianTimeSpan (Some p))"

section \<open>The skip list\<close>

text \<open>The functions on heights are those of the code for nonnegative arguments.\<close>

definition InvertLowestOne :: "nat \<Rightarrow> nat" where
  "InvertLowestOne n = n AND (n - 1)"

definition GetSkipHeight :: "nat \<Rightarrow> nat" where
  "GetSkipHeight height =
     (if height < 2 then 0
      else if height AND 1 \<noteq> 0 then InvertLowestOne (InvertLowestOne (height - 1)) + 1
      else InvertLowestOne height)"

lemma InvertLowestOne_le: "InvertLowestOne n \<le> n - 1"
  by (metis InvertLowestOne_def and.commute le_antisym nat_le_linear of_nat_le_iff of_nat_and_eq AND_upper1 of_nat_0_le_iff)

lemma GetSkipHeight_less: "0 < h \<Longrightarrow> GetSkipHeight h < h"
  using InvertLowestOne_le [of h] InvertLowestOne_le [of "h - 1"] InvertLowestOne_le [of "InvertLowestOne (h - 1)"]
  by (auto simp: GetSkipHeight_def)

function ancestor_loop :: "index_heap \<Rightarrow> nat \<Rightarrow> ptr \<Rightarrow> nat \<Rightarrow> ptr option" where
  "ancestor_loop H height p heightWalk =
     (if heightWalk \<le> height then Some p
      else case H p of None \<Rightarrow> None
       | Some e \<Rightarrow>
           (let heightSkip = GetSkipHeight heightWalk; heightSkipPrev = GetSkipHeight (heightWalk - 1)
            in case (if heightSkip = height \<or>
                        (heightSkip > height \<and> \<not> (heightSkipPrev + 2 < heightSkip \<and> heightSkipPrev \<ge> height))
                     then pskip e else None) of
                 Some s \<Rightarrow> ancestor_loop H height s heightSkip
               | None \<Rightarrow> (case pprev e of None \<Rightarrow> None | Some q \<Rightarrow> ancestor_loop H height q (heightWalk - 1))))"
  by pat_completeness auto
termination
  by (relation "measure (\<lambda>(H, height, p, heightWalk). heightWalk)") (auto intro: GetSkipHeight_less split: if_splits)

declare ancestor_loop.simps [simp del]

definition GetAncestor :: "index_heap \<Rightarrow> ptr \<Rightarrow> int \<Rightarrow> ptr option option" where
  "GetAncestor H p height =
     (case H p of None \<Rightarrow> None
      | Some e \<Rightarrow>
          if height > nHeight e \<or> height < 0 then Some None
          else map_option Some (ancestor_loop H (nat height) p (nat (nHeight e))))"

definition BuildSkip :: "index_heap \<Rightarrow> CBlockIndex \<Rightarrow> CBlockIndex option" where
  "BuildSkip H e =
     (case pprev e of None \<Rightarrow> Some e
      | Some q \<Rightarrow> map_option (\<lambda>s. e\<lparr>pskip := s\<rparr>) (GetAncestor H q (int (GetSkipHeight (nat (nHeight e))))))"

section \<open>Work\<close>

definition GetBlockProof :: "u32 \<Rightarrow> uint_error + base_uint" where
  "GetBlockProof bits' =
     (case SetCompact bits' of (bnTarget, fNegative, fOverflow) \<Rightarrow>
        if fNegative \<or> fOverflow \<or> EqualTo bnTarget 0 then Inr base_uint_zero
        else map_sum id (\<lambda>q. op_add q (base_uint_of_u64 1))
               (op_div (op_not bnTarget) (op_add bnTarget (base_uint_of_u64 1))))"

definition GetBlockProofEquivalentTime :: "CBlockIndex \<Rightarrow> CBlockIndex \<Rightarrow> CBlockIndex \<Rightarrow> int \<Rightarrow> uint_error + int" where
  "GetBlockProofEquivalentTime to from tip nPowTargetSpacing =
     (let (r, sign) =
        (if op_gt (nChainWork to) (nChainWork from) then (op_sub (nChainWork to) (nChainWork from), 1)
         else (op_sub (nChainWork from) (nChainWork to), - 1))
      in ebind (GetBlockProof (biBits tip)) (\<lambda>proof.
         ebind (op_div (op_mul r (base_uint_of_u64 (of_int nPowTargetSpacing))) proof) (\<lambda>r.
           if bits r > 63 then Inr (sign * (2 ^ 63 - 1)) else Inr (sign * uint (GetLow64 r)))))"

section \<open>Common ancestors\<close>

partial_function (option) meet_loop :: "index_heap \<Rightarrow> ptr option \<Rightarrow> ptr option \<Rightarrow> (ptr option \<times> ptr option) option" where
  "meet_loop H pa pb =
     (case (pa, pb) of
        (Some a, Some b) \<Rightarrow>
          if a = b then Some (pa, pb)
          else (case (H a, H b) of
                  (Some ea, Some eb) \<Rightarrow> meet_loop H (pprev ea) (pprev eb)
                | _ \<Rightarrow> None)
      | _ \<Rightarrow> Some (pa, pb))"

definition LastCommonAncestor :: "index_heap \<Rightarrow> ptr \<Rightarrow> ptr \<Rightarrow> ptr option option" where
  "LastCommonAncestor H pa pb =
     (case (H pa, H pb) of
        (Some ea, Some eb) \<Rightarrow>
          (case (if nHeight ea > nHeight eb then map_option (\<lambda>a. (a, Some pb)) (GetAncestor H pa (nHeight eb))
                 else if nHeight eb > nHeight ea then map_option (\<lambda>b. (Some pa, b)) (GetAncestor H pb (nHeight ea))
                 else Some (Some pa, Some pb)) of
             None \<Rightarrow> None
           | Some (pa, pb) \<Rightarrow>
               (case meet_loop H pa pb of None \<Rightarrow> None
                | Some (pa, pb) \<Rightarrow> if pa = pb then Some pa else None))
      | _ \<Rightarrow> None)"

section \<open>The active chain\<close>

type_synonym CChain = "ptr option list"

definition chain_Genesis :: "CChain \<Rightarrow> ptr option" where
  "chain_Genesis vChain = (if length vChain > 0 then vChain ! 0 else None)"

definition chain_Tip :: "CChain \<Rightarrow> ptr option" where
  "chain_Tip vChain = (if length vChain > 0 then vChain ! (length vChain - 1) else None)"

definition chain_at :: "CChain \<Rightarrow> int \<Rightarrow> ptr option" where
  "chain_at vChain h = (if h < 0 \<or> h \<ge> int (length vChain) then None else vChain ! nat h)"

definition chain_Height :: "CChain \<Rightarrow> int" where
  "chain_Height vChain = int (length vChain) - 1"

definition chain_Contains :: "index_heap \<Rightarrow> CChain \<Rightarrow> ptr \<Rightarrow> bool option" where
  "chain_Contains H vChain p = map_option (\<lambda>e. chain_at vChain (nHeight e) = Some p) (H p)"

definition chain_Next :: "index_heap \<Rightarrow> CChain \<Rightarrow> ptr \<Rightarrow> ptr option option" where
  "chain_Next H vChain p =
     map_option (\<lambda>e. if chain_at vChain (nHeight e) = Some p then chain_at vChain (nHeight e + 1) else None) (H p)"

text \<open>Comparing two chains reads the last elements, which an empty chain does not have.\<close>

definition chain_eq :: "CChain \<Rightarrow> CChain \<Rightarrow> bool option" where
  "chain_eq a b =
     (if length a \<noteq> length b then Some False
      else if length a = 0 then None
      else Some (a ! (length a - 1) = b ! (length b - 1)))"

partial_function (option) settip_loop :: "index_heap \<Rightarrow> ptr option \<Rightarrow> CChain \<Rightarrow> CChain option" where
  "settip_loop H pindex vChain =
     (case pindex of None \<Rightarrow> Some vChain
      | Some p \<Rightarrow> (case H p of None \<Rightarrow> None
          | Some e \<Rightarrow>
              if nHeight e < 0 \<or> nHeight e \<ge> int (length vChain) then None
              else if vChain ! nat (nHeight e) = Some p then Some vChain
              else settip_loop H (pprev e) (vChain[nat (nHeight e) := Some p])))"

definition resize :: "nat \<Rightarrow> CChain \<Rightarrow> CChain" where
  "resize n vChain = take n vChain @ replicate (n - length vChain) None"

definition SetTip :: "index_heap \<Rightarrow> ptr option \<Rightarrow> CChain \<Rightarrow> CChain option" where
  "SetTip H pindex vChain =
     (case pindex of None \<Rightarrow> Some []
      | Some p \<Rightarrow> (case H p of None \<Rightarrow> None
          | Some e \<Rightarrow>
              if nHeight e < 0 then None
              else settip_loop H pindex (resize (nat (nHeight e) + 1) vChain)))"

partial_function (option) locator_loop :: "index_heap \<Rightarrow> CChain \<Rightarrow> ptr option \<Rightarrow> int \<Rightarrow> uint256 list \<Rightarrow> uint256 list option" where
  "locator_loop H vChain pindex nStep vHave =
     (case pindex of None \<Rightarrow> Some vHave
      | Some p \<Rightarrow> (case H p of None \<Rightarrow> None
          | Some e \<Rightarrow>
              (let vHave = vHave @ [phashBlock e]
               in if nHeight e = 0 then Some vHave
                  else
                    (let h = max (nHeight e - nStep) 0
                     in case (if chain_at vChain (nHeight e) = Some p then Some (chain_at vChain h)
                              else GetAncestor H p h) of
                          None \<Rightarrow> None
                        | Some pindex \<Rightarrow>
                            if length vHave > 10 then
                              (if nStep * 2 < 2 ^ 31 then locator_loop H vChain pindex (nStep * 2) vHave else None)
                            else locator_loop H vChain pindex nStep vHave))))"

definition GetLocator :: "index_heap \<Rightarrow> CChain \<Rightarrow> ptr option \<Rightarrow> uint256 list option" where
  "GetLocator H vChain pindex =
     locator_loop H vChain (if pindex = None then chain_Tip vChain else pindex) 1 []"

partial_function (option) fork_loop :: "index_heap \<Rightarrow> CChain \<Rightarrow> ptr option \<Rightarrow> ptr option option" where
  "fork_loop H vChain pindex =
     (case pindex of None \<Rightarrow> Some None
      | Some p \<Rightarrow> (case H p of None \<Rightarrow> None
          | Some e \<Rightarrow> if chain_at vChain (nHeight e) = Some p then Some pindex else fork_loop H vChain (pprev e)))"

definition FindFork :: "index_heap \<Rightarrow> CChain \<Rightarrow> ptr option \<Rightarrow> ptr option option" where
  "FindFork H vChain pindex =
     (case pindex of None \<Rightarrow> Some None
      | Some p \<Rightarrow> (case H p of None \<Rightarrow> None
          | Some e \<Rightarrow>
              (case (if nHeight e > chain_Height vChain then GetAncestor H p (chain_Height vChain) else Some pindex) of
                 None \<Rightarrow> None | Some pindex \<Rightarrow> fork_loop H vChain pindex)))"

text \<open>
  The binary search \<open>std::lower_bound\<close> with a comparison that may fail: the first position in
  \<open>first, \<dots>, first + len\<close> at which the comparison does not hold, if it holds on an initial part.
\<close>

function lower_bound :: "('a \<Rightarrow> bool option) \<Rightarrow> 'a list \<Rightarrow> nat \<Rightarrow> nat \<Rightarrow> nat option" where
  "lower_bound before xs first len =
     (if len = 0 then Some first
      else
        (let half = len div 2; middle = first + half
         in if middle \<ge> length xs then None
            else case before (xs ! middle) of
              None \<Rightarrow> None
            | Some True \<Rightarrow> lower_bound before xs (middle + 1) (len - half - 1)
            | Some False \<Rightarrow> lower_bound before xs first half))"
  by pat_completeness auto
termination by (relation "measure (\<lambda>(before, xs, first, len). len)") auto

declare lower_bound.simps [simp del]

definition FindEarliestAtLeast :: "index_heap \<Rightarrow> CChain \<Rightarrow> int \<Rightarrow> int \<Rightarrow> ptr option option" where
  "FindEarliestAtLeast H vChain time height =
     (case lower_bound (\<lambda>p. map_option (\<lambda>e. GetBlockTimeMax e < time \<or> nHeight e < height) (Option.bind p H))
             vChain 0 (length vChain) of
        None \<Rightarrow> None
      | Some lower \<Rightarrow> Some (if lower = length vChain then None else vChain ! lower))"

section \<open>Block file statistics\<close>

record CBlockFileInfo =
  nBlocks :: u32
  nSize :: u32
  nUndoSize :: u32
  nHeightFirst :: u32
  nHeightLast :: u32
  nTimeFirst :: u64
  nTimeLast :: u64

definition CBlockFileInfo_null :: CBlockFileInfo where
  "CBlockFileInfo_null =
     \<lparr>nBlocks = 0, nSize = 0, nUndoSize = 0, nHeightFirst = 0, nHeightLast = 0, nTimeFirst = 0, nTimeLast = 0\<rparr>"

definition AddBlock :: "u32 \<Rightarrow> u64 \<Rightarrow> CBlockFileInfo \<Rightarrow> CBlockFileInfo" where
  "AddBlock nHeightIn nTimeIn f =
     (let f = (if nBlocks f = 0 \<or> nHeightFirst f > nHeightIn then f\<lparr>nHeightFirst := nHeightIn\<rparr> else f);
          f = (if nBlocks f = 0 \<or> nTimeFirst f > nTimeIn then f\<lparr>nTimeFirst := nTimeIn\<rparr> else f);
          f = f\<lparr>nBlocks := nBlocks f + 1\<rparr>;
          f = (if nHeightIn > nHeightLast f then f\<lparr>nHeightLast := nHeightIn\<rparr> else f)
      in if nTimeIn > nTimeLast f then f\<lparr>nTimeLast := nTimeIn\<rparr> else f)"

section \<open>Well-formed indexes\<close>

text \<open>The ancestor a number of parent pointers away.\<close>

primrec up :: "index_heap \<Rightarrow> nat \<Rightarrow> ptr \<Rightarrow> ptr option" where
  "up H 0 p = Some p"
| "up H (Suc k) p = Option.bind (Option.bind (H p) pprev) (up H k)"

definition entry_ok :: "index_heap \<Rightarrow> ptr \<Rightarrow> CBlockIndex \<Rightarrow> bool" where
  "entry_ok H p e \<longleftrightarrow> 0 \<le> nHeight e \<and>
     (case pprev e of None \<Rightarrow> nHeight e = 0 | Some q \<Rightarrow> \<exists>d. H q = Some d \<and> nHeight e = nHeight d + 1) \<and>
     (\<forall>s. pskip e = Some s \<longrightarrow> up H (nat (nHeight e) - GetSkipHeight (nat (nHeight e))) p = Some s)"

definition index_ok :: "index_heap \<Rightarrow> bool" where
  "index_ok H \<longleftrightarrow> (\<forall>p e. H p = Some e \<longrightarrow> entry_ok H p e)"

lemma index_okD:
  assumes "index_ok H" "H p = Some e"
  shows "0 \<le> nHeight e" "pprev e = None \<Longrightarrow> nHeight e = 0"
    "pprev e = Some q \<Longrightarrow> \<exists>d. H q = Some d \<and> nHeight e = nHeight d + 1"
    "pskip e = Some s \<Longrightarrow> up H (nat (nHeight e) - GetSkipHeight (nat (nHeight e))) p = Some s"
proof -
  have "entry_ok H p e" using assms by (simp add: index_ok_def)
  then show "0 \<le> nHeight e" "pprev e = None \<Longrightarrow> nHeight e = 0"
    "pprev e = Some q \<Longrightarrow> \<exists>d. H q = Some d \<and> nHeight e = nHeight d + 1"
    "pskip e = Some s \<Longrightarrow> up H (nat (nHeight e) - GetSkipHeight (nat (nHeight e))) p = Some s"
    by (simp_all add: entry_ok_def split: option.splits)
qed

lemma index_ok_parent:
  assumes "index_ok H" "H p = Some e" "0 < nHeight e"
  obtains q d where "pprev e = Some q" "H q = Some d" "nHeight e = nHeight d + 1"
  using index_okD [OF assms(1,2)] assms(3) by (cases "pprev e") auto

lemma up_add: "up H (j + k) p = Option.bind (up H j p) (up H k)"
  by (induction j arbitrary: p) (auto simp: bind_eq_None_conv split: bind_splits)

lemma up_Some:
  assumes "index_ok H" "H p = Some e" "int k \<le> nHeight e"
  obtains q d where "up H k p = Some q" "H q = Some d" "nHeight d = nHeight e - int k"
  using assms
proof (induction k arbitrary: p e thesis)
  case (Suc k)
  obtain q d where q: "pprev e = Some q" "H q = Some d" "nHeight e = nHeight d + 1"
    using index_ok_parent [OF Suc.prems(2,3)] Suc.prems(4) by (metis of_nat_Suc add_strict_increasing2 of_nat_0_le_iff order_less_le_trans zero_less_one add.commute)
  obtain r c where "up H k q = Some r" "H r = Some c" "nHeight c = nHeight d - int k"
    using Suc.IH [OF _ Suc.prems(2) q(2)] Suc.prems(4) q(3) by auto
  then show ?case using Suc.prems(1,3) q by simp
qed auto

lemma up_ex:
  "index_ok H \<Longrightarrow> H p = Some e \<Longrightarrow> int k \<le> nHeight e \<Longrightarrow>
   \<exists>q d. up H k p = Some q \<and> H q = Some d \<and> nHeight d = nHeight e - int k"
  using up_Some [of H p e k] by blast

lemma up_None: "index_ok H \<Longrightarrow> H p = Some e \<Longrightarrow> nHeight e < int k \<Longrightarrow> up H k p = None"
proof (induction k arbitrary: p e)
  case 0
  then show ?case using index_okD(1) by fastforce
next
  case (Suc k)
  show ?case
  proof (cases "pprev e")
    case (Some q)
    then obtain d where "H q = Some d" "nHeight e = nHeight d + 1" using index_okD(3) [OF Suc.prems(1,2)] by blast
    then show ?thesis using Suc Some by simp
  qed (use Suc.prems in simp)
qed

lemma ancestor_loop_up:
  "index_ok H \<Longrightarrow> H p = Some e \<Longrightarrow> nHeight e = int hw \<Longrightarrow> height \<le> hw \<Longrightarrow> ancestor_loop H height p hw = up H (hw - height) p"
proof (induction H height p hw arbitrary: e rule: ancestor_loop.induct)
  case (1 H height p hw)
  show ?case
  proof (cases "hw \<le> height")
    case True
    then show ?thesis using "1.prems" by (simp add: ancestor_loop.simps)
  next
    case False
    let ?s = "GetSkipHeight hw"
    let ?c = "?s = height \<or> (?s > height \<and> \<not> (GetSkipHeight (hw - 1) + 2 < ?s \<and> GetSkipHeight (hw - 1) \<ge> height))"
    have lt: "?s < hw" using False GetSkipHeight_less [of hw] by simp
    show ?thesis
    proof (cases "if ?c then pskip e else None")
      case (Some s)
      then have c: "?c" "pskip e = Some s" by (auto split: if_splits)
      have u: "up H (hw - ?s) p = Some s" using index_okD(4) [OF "1.prems"(1,2) c(2)] "1.prems"(3) by simp
      obtain d where d: "H s = Some d" "nHeight d = int ?s"
        using up_Some [OF "1.prems"(1,2), of "hw - ?s"] "1.prems"(3) u lt by (auto simp: of_nat_diff)
      have "ancestor_loop H height s ?s = up H (?s - height) s"
        using "1.IH"(2) [OF False "1.prems"(2) refl refl Some "1.prems"(1) d] c(1) by auto
      moreover have "up H (hw - height) p = up H (?s - height) s"
        using up_add [of H "hw - ?s" "?s - height" p] u c(1) lt by auto
      ultimately show ?thesis
        using Some False "1.prems"(2) by (subst ancestor_loop.simps) (simp add: Let_def)
    next
      case None
      obtain q d where q: "pprev e = Some q" "H q = Some d" "nHeight e = nHeight d + 1"
        using index_ok_parent [OF "1.prems"(1,2)] False "1.prems"(3) by auto
      have "ancestor_loop H height q (hw - 1) = up H (hw - 1 - height) q"
        using "1.IH"(1) [OF False "1.prems"(2) refl refl None q(1) "1.prems"(1) q(2)] q(3) "1.prems"(3) False by auto
      moreover have "hw - height = Suc (hw - 1 - height)" using False by simp
      then have "up H (hw - height) p = up H (hw - 1 - height) q"
        using q(1) "1.prems"(2) by simp
      ultimately show ?thesis
        using None False "1.prems"(2) q(1) by (subst ancestor_loop.simps) (simp add: Let_def)
    qed
  qed
qed

lemma GetAncestor_up:
  assumes "index_ok H" "H p = Some e"
  shows "GetAncestor H p h = Some (if 0 \<le> h \<and> h \<le> nHeight e then up H (nat (nHeight e - h)) p else None)"
proof (cases "0 \<le> h \<and> h \<le> nHeight e")
  case True
  obtain q d where "up H (nat (nHeight e - h)) p = Some q" using up_Some [OF assms, of "nat (nHeight e - h)"] True by auto
  moreover have "ancestor_loop H (nat h) p (nat (nHeight e)) = up H (nat (nHeight e - h)) p"
    using ancestor_loop_up [OF assms, of "nat (nHeight e)" "nat h"] True by (simp add: nat_diff_distrib nat_mono)
  ultimately show ?thesis using True assms(2) by (simp add: GetAncestor_def)
qed (use assms(2) in \<open>auto simp: GetAncestor_def\<close>)

text \<open>A new entry at a new address changes no branch.\<close>

lemma up_insert:
  assumes "index_ok H" "H p = None" "q \<noteq> p"
  shows "up (H(p \<mapsto> e)) k q = up H k q"
  using assms(3)
proof (induction k arbitrary: q)
  case (Suc k)
  show ?case
  proof (cases "H q")
    case None
    then show ?thesis using Suc.prems by simp
  next
    case (Some d)
    show ?thesis
    proof (cases "pprev d")
      case (Some r)
      then have "r \<noteq> p" using index_okD(3) [OF assms(1) \<open>H q = Some d\<close>] assms(2) by auto
      then show ?thesis using Suc Some \<open>H q = Some d\<close> by simp
    qed (use Some Suc.prems in simp)
  qed
qed simp

lemma index_ok_insert:
  assumes ok: "index_ok H" and p: "H p = None" and e: "entry_ok (H(p \<mapsto> e)) p e"
  shows "index_ok (H(p \<mapsto> e))"
proof -
  have "entry_ok (H(p \<mapsto> e)) r c" if r: "H r = Some c" for r c
  proof -
    have rp: "r \<noteq> p" using r p by auto
    have "entry_ok H r c" using ok r by (simp add: index_ok_def)
    then show ?thesis using p by (auto simp: entry_ok_def up_insert [OF ok p rp] split: option.splits)
  qed
  then show ?thesis using e by (auto simp: index_ok_def)
qed

lemma index_ok_insert_child:
  assumes ok: "index_ok H" and p: "H p = None" and q: "pprev e = Some q" "H q = Some d" "nHeight e = nHeight d + 1"
    and s: "pskip e = None \<or> pskip e = up H (nat (nHeight d) - GetSkipHeight (nat (nHeight e))) q"
  shows "index_ok (H(p \<mapsto> e))"
proof (rule index_ok_insert [OF ok p])
  have d0: "0 \<le> nHeight d" using index_okD(1) [OF ok q(2)] .
  then have "GetSkipHeight (nat (nHeight e)) < nat (nHeight e)" using q(3) GetSkipHeight_less by simp
  then have "nat (nHeight e) - GetSkipHeight (nat (nHeight e)) = Suc (nat (nHeight d) - GetSkipHeight (nat (nHeight e)))"
    using q(3) d0 by auto
  moreover have "q \<noteq> p" using p q(2) by auto
  ultimately show "entry_ok (H(p \<mapsto> e)) p e"
    using q d0 s by (auto simp: entry_ok_def up_insert [OF ok p])
qed

lemma index_ok_insert_root:
  "index_ok H \<Longrightarrow> H p = None \<Longrightarrow> pprev e = None \<Longrightarrow> nHeight e = 0 \<Longrightarrow> pskip e = None \<Longrightarrow> index_ok (H(p \<mapsto> e))"
  by (rule index_ok_insert) (auto simp: entry_ok_def)

text \<open>The skip pointer of an entry that is in the index.\<close>

lemma BuildSkip_up:
  assumes ok: "index_ok H" and q: "pprev e = Some q" "H q = Some d" "nHeight e = nHeight d + 1"
  shows "BuildSkip H e = Some (e\<lparr>pskip := up H (nat (nHeight d) - GetSkipHeight (nat (nHeight e))) q\<rparr>)"
proof -
  have d0: "0 \<le> nHeight d" using index_okD(1) [OF ok q(2)] .
  then have "GetSkipHeight (nat (nHeight e)) < nat (nHeight e)" using q(3) GetSkipHeight_less by simp
  then have "int (GetSkipHeight (nat (nHeight e))) \<le> nHeight d"
    "nat (nHeight d - int (GetSkipHeight (nat (nHeight e)))) = nat (nHeight d) - GetSkipHeight (nat (nHeight e))"
    using q(3) d0 by auto
  then show ?thesis by (simp add: BuildSkip_def q(1) GetAncestor_up [OF ok q(2)])
qed

text \<open>Changes of an entry that keep its place in the tree.\<close>

definition same_place :: "CBlockIndex \<Rightarrow> CBlockIndex \<Rightarrow> bool" where
  "same_place e e' \<longleftrightarrow> pprev e' = pprev e \<and> pskip e' = pskip e \<and> nHeight e' = nHeight e"

lemma up_update: "H p = Some e \<Longrightarrow> same_place e e' \<Longrightarrow> up (H(p \<mapsto> e')) k q = up H k q"
proof (induction k arbitrary: q)
  case (Suc k)
  then have "up (H(p \<mapsto> e')) k = up H k" by blast
  moreover have "Option.bind ((H(p \<mapsto> e')) q) pprev = Option.bind (H q) pprev" using Suc.prems by (auto simp: same_place_def)
  ultimately show ?case by (simp only: up.simps)
qed simp

lemma index_ok_update:
  assumes "index_ok H" "H p = Some e" "same_place e e'"
  shows "index_ok (H(p \<mapsto> e'))"
proof -
  have *: "entry_ok (H(p \<mapsto> e')) r c" if r: "entry_ok H r c" for r c
  proof -
    have "up (H(p \<mapsto> e')) k r = up H k r" for k by (rule up_update) (rule assms)+
    then show ?thesis using r assms(2,3) by (auto simp: entry_ok_def same_place_def split: option.splits)
  qed
  have "entry_ok H p e" using assms by (simp add: index_ok_def)
  then have "entry_ok H p e'" using assms(3) by (simp add: entry_ok_def same_place_def split: option.splits)
  then show ?thesis using * assms(1) by (simp add: index_ok_def)
qed

section \<open>The chain vector\<close>

text \<open>The vector holds the branch of its last entry.\<close>

definition chain_ok :: "index_heap \<Rightarrow> CChain \<Rightarrow> bool" where
  "chain_ok H v \<longleftrightarrow> (\<forall>i < length v. \<exists>p e. v ! i = Some p \<and> H p = Some e \<and> nHeight e = int i \<and>
     (0 < i \<longrightarrow> pprev e = v ! (i - 1)))"

lemma chain_okD:
  assumes "chain_ok H v" "i < length v"
  obtains p e where "v ! i = Some p" "H p = Some e" "nHeight e = int i" "0 < i \<Longrightarrow> pprev e = v ! (i - 1)"
  using assms by (auto simp: chain_ok_def)

lemma chain_ex: "chain_ok H v \<Longrightarrow> i < length v \<Longrightarrow> v ! i = Some p \<Longrightarrow> \<exists>e. H p = Some e \<and> nHeight e = int i"
  by (auto elim: chain_okD [of H v i])

definition linked :: "index_heap \<Rightarrow> CChain \<Rightarrow> nat \<Rightarrow> bool" where
  "linked H v i \<longleftrightarrow> (\<forall>p. v ! i = Some p \<longrightarrow> (\<exists>e. H p = Some e \<and> nHeight e = int i \<and> (0 < i \<longrightarrow> pprev e = v ! (i - 1))))"

lemma linked_down: "index_ok H \<Longrightarrow> (\<And>i. i \<le> n \<Longrightarrow> linked H v i) \<Longrightarrow> v ! n \<noteq> None \<Longrightarrow> i \<le> n \<Longrightarrow> v ! i \<noteq> None"
proof (induction n)
  case (Suc n)
  obtain p e where p: "v ! Suc n = Some p" "H p = Some e" "nHeight e = int (Suc n)" "pprev e = v ! n"
    using Suc.prems(2) [of "Suc n"] Suc.prems(3) by (auto simp: linked_def)
  then have "v ! n \<noteq> None" using index_okD(2) [OF Suc.prems(1) p(2)] by auto
  then show ?case using Suc by (cases "i = Suc n") auto
qed simp

lemma chain_ok_linked: "chain_ok H v \<longleftrightarrow> (\<forall>i < length v. linked H v i \<and> v ! i \<noteq> None)"
  by (fastforce simp: chain_ok_def linked_def)

text \<open>During the loop the part from \<open>n\<close> on is the branch of the new tip; below it, the old chain.\<close>

lemma settip_loop_ok:
  assumes ok: "index_ok H"
  shows "(case pindex of None \<Rightarrow> n = 0 | Some p \<Rightarrow> \<exists>e. H p = Some e \<and> nHeight e + 1 = int n) \<Longrightarrow> n \<le> length v \<Longrightarrow>
     (\<And>i. i < length v \<Longrightarrow> i \<noteq> n \<Longrightarrow> linked H v i) \<Longrightarrow>
     (n < length v \<Longrightarrow> \<exists>p e. v ! n = Some p \<and> H p = Some e \<and> nHeight e = int n \<and> (0 < n \<longrightarrow> pprev e = pindex)) \<Longrightarrow>
     (\<And>i. i < length v \<Longrightarrow> n \<le> i \<Longrightarrow> v ! i \<noteq> None) \<Longrightarrow>
     \<exists>v'. settip_loop H pindex v = Some v' \<and> chain_ok H v' \<and> length v' = length v \<and>
       (0 < length v \<longrightarrow> chain_Tip v' = (if n = length v then pindex else chain_Tip v))"
proof (induction n arbitrary: pindex v)
  case 0
  then have "pindex = None" using index_okD(1) [OF ok] by (cases pindex) fastforce+
  moreover have "linked H v i" if "i < length v" for i
    using 0(3,4) that by (cases "i = 0") (auto simp: linked_def)
  then have "chain_ok H v" using 0(5) by (simp add: chain_ok_linked)
  ultimately show ?case by (simp add: settip_loop.simps)
next
  case (Suc n)
  obtain p e where p: "pindex = Some p" "H p = Some e" "nHeight e = int n" using Suc.prems(1) by (cases pindex) auto
  have n: "n < length v" using Suc.prems(2) by simp
  show ?case
  proof (cases "v ! n = Some p")
    case True
    have l: "linked H v i" if "i < length v" for i
      using Suc.prems(3,4) that True p(1) by (cases "i = Suc n") (auto simp: linked_def)
    have "v ! i \<noteq> None" if "i \<le> n" for i
      by (rule linked_down [OF ok, of n]) (use l n that True in auto)
    moreover have "v ! i \<noteq> None" if "i < length v" "\<not> i \<le> n" for i
      using Suc.prems(5) that by auto
    ultimately have "chain_ok H v" using l by (auto simp: chain_ok_linked)
    moreover have "settip_loop H pindex v = Some v" using p True n by (simp add: settip_loop.simps)
    moreover have "chain_Tip v = Some p" if "Suc n = length v" using True that by (simp add: chain_Tip_def flip: that)
    ultimately show ?thesis using p(1) by auto
  next
    case False
    let ?v = "v[n := Some p]"
    have "\<exists>v'. settip_loop H (pprev e) ?v = Some v' \<and> chain_ok H v' \<and> length v' = length ?v \<and>
       (0 < length ?v \<longrightarrow> chain_Tip v' = (if n = length ?v then pprev e else chain_Tip ?v))"
    proof (rule Suc.IH)
      show "case pprev e of None \<Rightarrow> n = 0 | Some q \<Rightarrow> \<exists>d. H q = Some d \<and> nHeight d + 1 = int n"
        using index_okD(2,3) [OF ok p(2)] p(3) by (auto split: option.splits)
      show "linked H ?v i" if i: "i < length ?v" "i \<noteq> n" for i
      proof (cases "i = Suc n")
        case True
        then show ?thesis using Suc.prems(4) i p(1) n by (auto simp: linked_def)
      next
        case False
        then have "linked H v i" "v ! (i - 1) = ?v ! (i - 1) \<or> i = 0" using Suc.prems(3) i by auto
        then show ?thesis using i by (auto simp: linked_def)
      qed
    qed (use n p Suc.prems(5) in \<open>auto simp: nth_list_update\<close>)
    moreover have "settip_loop H pindex v = settip_loop H (pprev e) ?v"
      using p False n by (subst settip_loop.simps) simp
    moreover have "chain_Tip ?v = (if Suc n = length v then pindex else chain_Tip v)"
      using n p(1) by (auto simp: chain_Tip_def nth_list_update)
    ultimately show ?thesis using n by auto
  qed
qed

lemma SetTip_ok:
  assumes ok: "index_ok H" and c: "chain_ok H v" and p: "H p = Some e"
  shows "\<exists>v'. SetTip H (Some p) v = Some v' \<and> chain_ok H v' \<and> int (length v') = nHeight e + 1 \<and> chain_Tip v' = Some p"
proof -
  let ?n = "nat (nHeight e) + 1" and ?v = "resize (nat (nHeight e) + 1) v"
  have e0: "0 \<le> nHeight e" using index_okD(1) [OF ok p] .
  have l: "length ?v = ?n" by (simp add: resize_def min_def)
  have nth: "?v ! i = (if i < length v then v ! i else None)" if "i < ?n" for i
    using that by (auto simp: resize_def nth_append min_def)
  have "\<exists>v'. settip_loop H (Some p) ?v = Some v' \<and> chain_ok H v' \<and> length v' = length ?v \<and>
       (0 < length ?v \<longrightarrow> chain_Tip v' = (if ?n = length ?v then Some p else chain_Tip ?v))"
  proof (rule settip_loop_ok [OF ok])
    show "linked H ?v i" if "i < length ?v" "i \<noteq> ?n" for i
    proof -
      have i: "i < ?n" "i - 1 < ?n" using that l by auto
      then have "?v ! i = (if i < length v then v ! i else None)" "i < length v \<Longrightarrow> ?v ! (i - 1) = v ! (i - 1)"
        using nth by auto
      moreover have "i < length v \<Longrightarrow> linked H v i" using c by (simp add: chain_ok_linked)
      ultimately show ?thesis by (simp add: linked_def split: if_splits)
    qed
  qed (use p e0 l in auto)
  then show ?thesis using p e0 l by (auto simp: SetTip_def)
qed

text \<open>A chain is determined by its tip.\<close>

lemma chain_ok_up:
  assumes "chain_ok H v" "i + k < length v"
  shows "\<exists>p. v ! (i + k) = Some p \<and> up H k p = v ! i"
  using assms(2)
proof (induction k)
  case 0
  then show ?case by (auto elim: chain_okD [OF assms(1), of i])
next
  case (Suc k)
  obtain q where q: "v ! (i + k) = Some q" "up H k q = v ! i" using Suc by auto
  obtain p e where "v ! (i + Suc k) = Some p" "H p = Some e" "pprev e = v ! (i + k)"
    by (rule chain_okD [OF assms(1) Suc.prems]) auto
  then show ?case using q by auto
qed

lemma chain_at_up:
  assumes c: "chain_ok H v" and p: "chain_Tip v = Some p" "0 \<le> h" "h < int (length v)"
  shows "chain_at v h = up H (length v - 1 - nat h) p"
proof -
  have "nat h + (length v - 1 - nat h) = length v - 1" "0 < length v" using p by auto
  then show ?thesis
    using chain_ok_up [OF c, of "nat h" "length v - 1 - nat h"] p by (auto simp: chain_at_def chain_Tip_def)
qed

subsection \<open>Forks and common ancestors\<close>

lemma chain_at_member:
  assumes "chain_ok H v" "H p = Some e" "0 \<le> nHeight e"
  shows "chain_at v (nHeight e) = Some p \<longleftrightarrow> Some p \<in> set v"
proof
  assume "chain_at v (nHeight e) = Some p"
  then have "nat (nHeight e) < length v" "v ! nat (nHeight e) = Some p" using assms(3) by (auto simp: chain_at_def split: if_splits)
  then show "Some p \<in> set v" by (metis nth_mem)
next
  assume "Some p \<in> set v"
  then obtain i where i: "i < length v" "v ! i = Some p" by (metis in_set_conv_nth)
  then have "nHeight e = int i" using assms(2) chain_ex [OF assms(1)] by fastforce
  then show "chain_at v (nHeight e) = Some p" using i by (simp add: chain_at_def)
qed

text \<open>The first block of a branch, going down, that is in the chain.\<close>

definition is_fork :: "index_heap \<Rightarrow> CChain \<Rightarrow> ptr \<Rightarrow> ptr option \<Rightarrow> bool" where
  "is_fork H v p r \<longleftrightarrow>
     (case r of None \<Rightarrow> \<forall>k q. up H k p = Some q \<longrightarrow> Some q \<notin> set v
      | Some f \<Rightarrow> Some f \<in> set v \<and> (\<exists>k. up H k p = Some f \<and> (\<forall>j < k. \<forall>q. up H j p = Some q \<longrightarrow> Some q \<notin> set v)))"

lemma is_fork_parent:
  assumes "H p = Some e" "pprev e = Some q" "Some p \<notin> set v" "is_fork H v q r"
  shows "is_fork H v p r"
proof (cases r)
  case None
  have "Some x \<notin> set v" if "up H k p = Some x" for k x
    using that assms None by (cases k) (auto simp: is_fork_def)
  then show ?thesis using None by (simp add: is_fork_def)
next
  case (Some f)
  obtain k where k: "up H k q = Some f" "\<forall>j < k. \<forall>x. up H j q = Some x \<longrightarrow> Some x \<notin> set v"
    using assms(4) Some by (auto simp: is_fork_def)
  have "up H (Suc k) p = Some f" using assms k(1) by simp
  moreover have "Some x \<notin> set v" if "j < Suc k" "up H j p = Some x" for j x
    using that assms k(2) by (cases j) auto
  ultimately show ?thesis using Some assms(4) by (auto simp: is_fork_def intro!: exI [of _ "Suc k"] simp del: up.simps)
qed

lemma fork_loop_ok:
  assumes ok: "index_ok H" and c: "chain_ok H v"
  shows "H p = Some e \<Longrightarrow> \<exists>r. fork_loop H v (Some p) = Some r \<and> is_fork H v p r"
proof (induction "nat (nHeight e)" arbitrary: p e rule: less_induct)
  case less
  have e0: "0 \<le> nHeight e" using index_okD(1) [OF ok less.prems] .
  have at: "chain_at v (nHeight e) = Some p \<longleftrightarrow> Some p \<in> set v" by (rule chain_at_member [OF c less.prems e0])
  show ?case
  proof (cases "Some p \<in> set v")
    case True
    have "up H 0 p = Some p" by simp
    then have "is_fork H v p (Some p)" using True by (auto simp: is_fork_def intro!: exI [of _ 0])
    moreover have "fork_loop H v (Some p) = Some (Some p)" using True at less.prems by (subst fork_loop.simps) simp
    ultimately show ?thesis by blast
  next
    case False
    show ?thesis
    proof (cases "pprev e")
      case None
      have "is_fork H v p None"
        unfolding is_fork_def
      proof (simp, intro allI impI)
        fix k q
        assume "up H k p = Some q"
        then show "Some q \<notin> set v" using False None less.prems by (cases k) auto
      qed
      moreover have "fork_loop H v (Some p) = Some None"
        using None False at less.prems by (simp add: fork_loop.simps [of H v "Some p"] fork_loop.simps [of H v None])
      ultimately show ?thesis by blast
    next
      case (Some q)
      obtain d where d: "H q = Some d" "nHeight e = nHeight d + 1" using index_okD(3) [OF ok less.prems Some] by blast
      then obtain r where r: "fork_loop H v (Some q) = Some r" "is_fork H v q r"
        using less.hyps [OF _ d(1)] index_okD(1) [OF ok d(1)] by auto
      moreover have "fork_loop H v (Some p) = fork_loop H v (Some q)"
        using Some False at less.prems by (subst fork_loop.simps) simp
      ultimately show ?thesis using is_fork_parent [of H p e q v r] less.prems Some False by auto
    qed
  qed
qed

lemma is_fork_up:
  assumes "up H n p = Some q" "is_fork H v q r" "\<And>j x. j < n \<Longrightarrow> up H j p = Some x \<Longrightarrow> Some x \<notin> set v"
  shows "is_fork H v p r"
  using assms
proof (induction n arbitrary: p)
  case (Suc n)
  obtain e s where e: "H p = Some e" "pprev e = Some s" "up H n s = Some q"
    using Suc.prems(1) by (auto simp: bind_eq_Some_conv)
  have "is_fork H v s r"
  proof (rule Suc.IH [OF e(3) Suc.prems(2)])
    show "Some x \<notin> set v" if "j < n" "up H j s = Some x" for j x
      using Suc.prems(3) [of "Suc j" x] that e by simp
  qed
  moreover have "Some p \<notin> set v" using Suc.prems(3) [of 0 p] by simp
  ultimately show ?case using is_fork_parent [of H p e s v r] e by blast
qed simp

lemma FindFork_ok:
  assumes ok: "index_ok H" and c: "chain_ok H v" and p: "H p = Some e"
  shows "\<exists>r. FindFork H v (Some p) = Some r \<and> is_fork H v p r"
proof (cases "nHeight e > chain_Height v")
  case False
  then show ?thesis using fork_loop_ok [OF ok c p] p by (simp add: FindFork_def)
next
  case high: True
  show ?thesis
  proof (cases "v = []")
    case True
    have "FindFork H v (Some p) = fork_loop H v None" using True p high by (simp add: FindFork_def chain_Height_def GetAncestor_def)
    also have "\<dots> = Some None" by (subst fork_loop.simps) simp
    finally show ?thesis using True by (simp add: is_fork_def)
  next
    case False
    let ?n = "nat (nHeight e - chain_Height v)"
    have h0: "0 \<le> chain_Height v" using False by (cases v) (auto simp: chain_Height_def)
    obtain q d where q: "up H ?n p = Some q" "H q = Some d"
      using up_ex [OF ok p, of ?n] high h0 by auto
    have "Some x \<notin> set v" if j: "j < ?n" "up H j p = Some x" for j x
    proof
      assume "Some x \<in> set v"
      then obtain i where i: "i < length v" "v ! i = Some x" by (metis in_set_conv_nth)
      have jle: "int j \<le> nHeight e" using j(1) h0 by linarith
      obtain y c' where "up H j p = Some y" "H y = Some c'" "nHeight c' = nHeight e - int j"
        using up_ex [OF ok p, of j] jle by blast
      then show False using i j chain_ex [OF c i] by (auto simp: chain_Height_def)
    qed
    then have "is_fork H v p r" if "is_fork H v q r" for r using is_fork_up [OF q(1) that] by blast
    moreover have "GetAncestor H p (chain_Height v) = Some (Some q)"
      using q(1) high h0 by (simp add: GetAncestor_up [OF ok p])
    ultimately show ?thesis using fork_loop_ok [OF ok c q(2)] high p by (auto simp: FindFork_def)
  qed
qed

lemma meet_loop_ok:
  assumes ok: "index_ok H"
  shows "H a = Some ea \<Longrightarrow> H b = Some eb \<Longrightarrow> nHeight ea = int n \<Longrightarrow> nHeight eb = int n \<Longrightarrow> up H n a = up H n b \<Longrightarrow>
     \<exists>k c. meet_loop H (Some a) (Some b) = Some (Some c, Some c) \<and> k \<le> n \<and> up H k a = Some c \<and> up H k b = Some c \<and>
       (\<forall>j < k. up H j a \<noteq> up H j b)"
proof (induction n arbitrary: a b ea eb)
  case 0
  then have "a = b" by simp
  moreover have "meet_loop H (Some a) (Some a) = Some (Some a, Some a)" by (subst meet_loop.simps) simp
  ultimately show ?case by simp
next
  case (Suc n)
  show ?case
  proof (cases "a = b")
    case True
    have "up H 0 a = Some a" "up H 0 b = Some a" using True by simp_all
    moreover have "meet_loop H (Some a) (Some b) = Some (Some a, Some a)" using True by (subst meet_loop.simps) simp
    ultimately show ?thesis by (intro exI [of _ 0] exI [of _ a]) simp
  next
    case False
    obtain qa da where a: "pprev ea = Some qa" "H qa = Some da" "nHeight ea = nHeight da + 1"
      using index_ok_parent [OF ok Suc.prems(1)] Suc.prems(3) by auto
    obtain qb db where b: "pprev eb = Some qb" "H qb = Some db" "nHeight eb = nHeight db + 1"
      using index_ok_parent [OF ok Suc.prems(2)] Suc.prems(4) by auto
    obtain k c where k: "meet_loop H (Some qa) (Some qb) = Some (Some c, Some c)" "k \<le> n" "up H k qa = Some c" "up H k qb = Some c"
      "\<forall>j < k. up H j qa \<noteq> up H j qb"
      using Suc.IH [OF a(2) b(2)] a b Suc.prems by auto
    have "up H j a \<noteq> up H j b" if "j < Suc k" for j
      using that k(5) False a b Suc.prems(1,2) by (cases j) auto
    moreover have "meet_loop H (Some a) (Some b) = meet_loop H (Some qa) (Some qb)"
      using False a(1) b(1) Suc.prems(1,2) by (subst meet_loop.simps) simp
    moreover have "up H (Suc k) a = Some c" "up H (Suc k) b = Some c" using k a b Suc.prems(1,2) by simp_all
    ultimately show ?thesis using k(1,2) by (intro exI [of _ "Suc k"] exI [of _ c]) simp
  qed
qed

text \<open>The highest block on both branches.\<close>

definition ancestors :: "index_heap \<Rightarrow> ptr \<Rightarrow> ptr set" where
  "ancestors H p = {q. \<exists>k. up H k p = Some q}"

definition is_last_common :: "index_heap \<Rightarrow> ptr \<Rightarrow> ptr \<Rightarrow> ptr \<Rightarrow> bool" where
  "is_last_common H a b c \<longleftrightarrow> c \<in> ancestors H a \<inter> ancestors H b \<and> ancestors H a \<inter> ancestors H b \<subseteq> ancestors H c"

lemma ancestors_up: "up H n p = Some q \<Longrightarrow> ancestors H q \<subseteq> ancestors H p"
proof
  fix x
  assume u: "up H n p = Some q" and "x \<in> ancestors H q"
  then obtain k where "up H k q = Some x" by (auto simp: ancestors_def)
  then have "up H (n + k) p = Some x" using u by (simp add: up_add)
  then show "x \<in> ancestors H p" by (auto simp: ancestors_def)
qed

lemma up_height:
  assumes "index_ok H" "H p = Some e" "up H k p = Some q"
  shows "\<exists>d. H q = Some d \<and> nHeight d = nHeight e - int k \<and> int k \<le> nHeight e"
  using assms up_ex [OF assms(1,2), of k] up_None [OF assms(1,2), of k] by (cases "int k \<le> nHeight e") auto

lemma meet_is_last_common:
  assumes ok: "index_ok H" and h: "H a = Some ea" "H b = Some eb" "nHeight ea = nHeight eb"
    and k: "up H k a = Some c" "up H k b = Some c" "\<forall>j < k. up H j a \<noteq> up H j b"
  shows "is_last_common H a b c"
proof -
  have "x \<in> ancestors H c" if x: "up H i a = Some x" "up H j b = Some x" for x i j
  proof -
    have "i = j"
      using up_height [OF ok h(1) x(1)] up_height [OF ok h(2) x(2)] h(3) by auto
    then have "k \<le> i" using k(3) x by (metis not_le)
    then have "up H (i - k) c = Some x" using up_add [of H k "i - k" a] k(1) x(1) by simp
    then show ?thesis by (auto simp: ancestors_def)
  qed
  then show ?thesis using k(1,2) by (auto simp: is_last_common_def ancestors_def)
qed

lemma is_last_common_up:
  assumes ok: "index_ok H" and h: "H a = Some ea" "H b = Some eb" "int n \<le> nHeight ea" "nHeight ea - int n = nHeight eb"
    and u: "up H n a = Some a'" and l: "is_last_common H a' b c"
  shows "is_last_common H a b c"
proof -
  have "x \<in> ancestors H a'" if x: "up H i a = Some x" "up H j b = Some x" for x i j
  proof -
    have "n \<le> i"
      using up_height [OF ok h(1) x(1)] up_height [OF ok h(2) x(2)] h(4) by auto
    then have "up H (i - n) a' = Some x" using up_add [of H n "i - n" a] u x(1) by simp
    then show ?thesis by (auto simp: ancestors_def)
  qed
  then have "ancestors H a \<inter> ancestors H b \<subseteq> ancestors H a' \<inter> ancestors H b" by (auto simp: ancestors_def)
  then show ?thesis using l ancestors_up [OF u] unfolding is_last_common_def by blast
qed

lemma is_last_common_sym: "is_last_common H a b c \<Longrightarrow> is_last_common H b a c"
  by (auto simp: is_last_common_def)

lemma LastCommonAncestor_ok:
  assumes ok: "index_ok H" and h: "H a = Some ea" "H b = Some eb"
    and root: "up H (nat (nHeight ea)) a = up H (nat (nHeight eb)) b"
  shows "\<exists>c. LastCommonAncestor H a b = Some (Some c) \<and> is_last_common H a b c"
proof -
  have *: "\<exists>c. meet_loop H (Some a) (Some b) = Some (Some c, Some c) \<and> is_last_common H a b c"
    if ab: "H a = Some ea" "H b = Some eb" "nHeight ea = nHeight eb" "up H (nat (nHeight ea)) a = up H (nat (nHeight eb)) b" for a b ea eb
    using meet_loop_ok [OF ok ab(1,2), of "nat (nHeight ea)"] meet_is_last_common [OF ok ab(1-3)] ab(3,4)
      index_okD(1) [OF ok ab(1)] by fastforce
  have **: "\<exists>a' c c'. GetAncestor H a (nHeight eb) = Some (Some a') \<and> is_last_common H a b c \<and> is_last_common H a b c' \<and>
      meet_loop H (Some a') (Some b) = Some (Some c, Some c) \<and> meet_loop H (Some b) (Some a') = Some (Some c', Some c')"
    if ab: "H a = Some ea" "H b = Some eb" "nHeight ea > nHeight eb" "up H (nat (nHeight ea)) a = up H (nat (nHeight eb)) b" for a b ea eb
  proof -
    let ?n = "nat (nHeight ea - nHeight eb)"
    have b0: "0 \<le> nHeight eb" using index_okD(1) [OF ok ab(2)] .
    obtain a' ea' where a': "up H ?n a = Some a'" "H a' = Some ea'" "nHeight ea' = nHeight eb"
      using up_ex [OF ok ab(1), of ?n] ab(3) b0 by auto
    have "nat (nHeight ea) = ?n + nat (nHeight eb)" using ab(3) b0 by simp
    then have r: "up H (nat (nHeight ea')) a' = up H (nat (nHeight eb)) b"
      using ab(4) a' by (simp add: up_add)
    obtain c where c: "meet_loop H (Some a') (Some b) = Some (Some c, Some c)" "is_last_common H a' b c"
      using * [OF a'(2) ab(2) a'(3) r] by blast
    obtain c' where c': "meet_loop H (Some b) (Some a') = Some (Some c', Some c')" "is_last_common H b a' c'"
      using * [OF ab(2) a'(2) a'(3) [symmetric] r [symmetric]] by blast
    have "is_last_common H a b x" if "is_last_common H a' b x" for x
      by (rule is_last_common_up [OF ok ab(1,2) _ _ a'(1) that]) (use ab(3) b0 in auto)
    then show ?thesis using a'(1) c c' is_last_common_sym [of H b a' c'] ab(3) b0 by (auto simp: GetAncestor_up [OF ok ab(1)])
  qed
  consider "nHeight ea = nHeight eb" | "nHeight ea > nHeight eb" | "nHeight eb > nHeight ea" by linarith
  then show ?thesis
  proof cases
    case 1
    then show ?thesis using * [OF h 1 root] h by (auto simp: LastCommonAncestor_def)
  next
    case 2
    then show ?thesis using ** [OF h 2 root] h by (auto simp: LastCommonAncestor_def)
  next
    case 3
    then show ?thesis using ** [OF h(2,1) 3 root [symmetric]] h is_last_common_sym by (auto simp: LastCommonAncestor_def)
  qed
qed

subsection \<open>Locators\<close>

text \<open>How far the entry number \<open>i\<close> of a locator lies below its first block.\<close>

definition locator_offset :: "nat \<Rightarrow> nat" where
  "locator_offset i = (if i \<le> 10 then i else 9 + 2 ^ (i - 10))"

definition locator_step :: "nat \<Rightarrow> int" where
  "locator_step i = (if i \<le> 10 then 1 else 2 ^ (i - 10))"

lemma locator_offset_Suc: "int (locator_offset (Suc i)) = int (locator_offset i) + locator_step i"
proof (cases "i \<le> 10")
  case True
  then consider "i < 10" | "i = 10" by linarith
  then show ?thesis by cases (auto simp: locator_offset_def locator_step_def)
next
  case False
  then have "Suc i - 10 = Suc (i - 10)" by simp
  then show ?thesis using False by (simp add: locator_offset_def locator_step_def del: diff_Suc_numeral)
qed

lemma locator_step_Suc: "locator_step (Suc i) = (if 10 \<le> i then 2 * locator_step i else locator_step i)"
proof (cases "10 \<le> i")
  case True
  then have "Suc i - 10 = Suc (i - 10)" by simp
  then show ?thesis using True by (auto simp: locator_step_def simp del: diff_Suc_numeral)
qed (simp add: locator_step_def)

lemma locator_step_pos: "1 \<le> locator_step i"
  by (simp add: locator_step_def)

lemma locator_step_bound: "int (locator_offset i) < 2 ^ 30 \<Longrightarrow> 10 \<le> i \<Longrightarrow> locator_step i * 2 < 2 ^ 31"
proof (cases "i = 10")
  case False
  assume a: "int (locator_offset i) < 2 ^ 30" "10 \<le> i"
  then have "locator_offset i = 9 + 2 ^ (i - 10)" "locator_step i = 2 ^ (i - 10)"
    using False by (simp_all add: locator_offset_def locator_step_def)
  then have "int (locator_offset i) = 9 + locator_step i" by simp
  then show ?thesis using a(1) by simp
qed (simp add: locator_step_def)

definition locator_entry :: "index_heap \<Rightarrow> ptr \<Rightarrow> int \<Rightarrow> nat \<Rightarrow> uint256" where
  "locator_entry H p h i = phashBlock (the (H (the (up H (min (nat h) (locator_offset i)) p))))"

lemma locator_loop_ok:
  assumes ok: "index_ok H" and c: "chain_ok H v" and p: "H p = Some e" "nHeight e < 2 ^ 30"
  shows "up H (min (nat (nHeight e)) (locator_offset i)) p = Some q \<Longrightarrow> (\<forall>j < i. int (locator_offset j) < nHeight e) \<Longrightarrow>
     \<exists>m. i \<le> m \<and> nHeight e \<le> int (locator_offset m) \<and> (\<forall>j < m. int (locator_offset j) < nHeight e) \<and>
       locator_loop H v (Some q) (locator_step i) (map (locator_entry H p (nHeight e)) [0..<i]) =
         Some (map (locator_entry H p (nHeight e)) [0..<Suc m])"
proof (induction "nat (nHeight e) - locator_offset i" arbitrary: i q rule: less_induct)
  case less
  let ?h = "nHeight e"
  have h0: "0 \<le> ?h" using index_okD(1) [OF ok p(1)] .
  obtain d where d: "H q = Some d" "nHeight d = ?h - int (min (nat ?h) (locator_offset i))"
    using up_height [OF ok p(1) less.prems(1)] by blast
  let ?L = "map (locator_entry H p ?h)"
  have push: "?L [0..<i] @ [phashBlock d] = ?L [0..<Suc i]"
    using less.prems(1) d(1) by (simp add: locator_entry_def)
  show ?case
  proof (cases "?h \<le> int (locator_offset i)")
    case True
    then have "nHeight d = 0" using d(2) h0 by simp
    then have "locator_loop H v (Some q) (locator_step i) (?L [0..<i]) = Some (?L [0..<Suc i])"
      using d(1) push by (subst locator_loop.simps) (simp add: Let_def)
    then show ?thesis using True less.prems(2) by (intro exI [of _ i]) simp
  next
    case False
    then have dh: "nHeight d = ?h - int (locator_offset i)" using d(2) by simp
    let ?t = "max (nHeight d - locator_step i) 0"
    have t: "?t = ?h - int (min (nat ?h) (locator_offset (Suc i)))"
      using dh h0 locator_offset_Suc [of i] by auto
    obtain r where r: "up H (min (nat ?h) (locator_offset (Suc i))) p = Some r"
      using up_ex [OF ok p(1), of "min (nat ?h) (locator_offset (Suc i))"] min.cobounded1 [of "nat ?h" "locator_offset (Suc i)"] h0
      by (metis int_nat_eq of_nat_le_iff)
    have qr: "up H (nat (nHeight d - ?t)) q = Some r"
    proof -
      have "locator_offset i + nat (nHeight d - ?t) = min (nat ?h) (locator_offset (Suc i))"
        using t dh False locator_offset_Suc [of i] locator_step_pos [of i] by (auto simp: min_def max_def split: if_splits)
      moreover have "min (nat ?h) (locator_offset i) = locator_offset i" using False by simp
      ultimately show ?thesis
        using up_add [of H "locator_offset i" "nat (nHeight d - ?t)" p] less.prems(1) r by simp
    qed
    have g: "GetAncestor H q ?t = Some (Some r)"
      using qr dh False locator_step_pos [of i] by (simp add: GetAncestor_up [OF ok d(1)])
    have nxt: "(if chain_at v (nHeight d) = Some q then Some (chain_at v ?t) else GetAncestor H q ?t) = Some (Some r)"
    proof -
      have "chain_at v ?t = Some r" if q: "chain_at v (nHeight d) = Some q"
      proof -
        have i: "nat ?t + nat (nHeight d - ?t) = nat (nHeight d)" "0 \<le> nHeight d" "nHeight d < int (length v)" "v ! nat (nHeight d) = Some q"
          using q dh False locator_step_pos [of i] by (auto simp: chain_at_def split: if_splits)
        then have "v ! nat ?t = Some r" "nat ?t < length v"
          using chain_ok_up [OF c, of "nat ?t" "nat (nHeight d - ?t)"] qr by auto
        then show ?thesis by (auto simp: chain_at_def)
      qed
      then show ?thesis using g by simp
    qed
    have lt: "nat ?h - locator_offset (Suc i) < nat ?h - locator_offset i"
      using locator_offset_Suc [of i] locator_step_pos [of i] False by linarith
    have "\<exists>m. Suc i \<le> m \<and> ?h \<le> int (locator_offset m) \<and> (\<forall>j < m. int (locator_offset j) < ?h) \<and>
       locator_loop H v (Some r) (locator_step (Suc i)) (?L [0..<Suc i]) = Some (?L [0..<Suc m])"
      using less.hyps [OF lt r] less.prems(2) False by (simp only: less_Suc_eq) auto
    moreover have "locator_loop H v (Some q) (locator_step i) (?L [0..<i]) =
        locator_loop H v (Some r) (locator_step (Suc i)) (?L [0..<Suc i])"
    proof -
      have s: "10 \<le> i \<Longrightarrow> locator_step i * 2 < 2 ^ 31" using locator_step_bound [of i] False p(2) by simp
      have "nHeight d \<noteq> 0" using dh False by simp
      then show ?thesis
        using d(1) push nxt s
        by (subst locator_loop.simps) (auto simp add: Let_def locator_step_Suc mult.commute simp del: upt_Suc)
    qed
    ultimately show ?thesis by (metis Suc_leD)
  qed
qed

lemma GetLocator_ok:
  assumes ok: "index_ok H" and c: "chain_ok H v" and p: "H p = Some e" "nHeight e < 2 ^ 30"
  shows "\<exists>m. nHeight e \<le> int (locator_offset m) \<and> (\<forall>j < m. int (locator_offset j) < nHeight e) \<and>
     GetLocator H v (Some p) = Some (map (locator_entry H p (nHeight e)) [0..<Suc m])"
proof -
  have "up H (min (nat (nHeight e)) (locator_offset 0)) p = Some p" by (simp add: locator_offset_def)
  then show ?thesis using locator_loop_ok [OF assms, of 0 p] by (auto simp: GetLocator_def locator_step_def)
qed

section \<open>Median times\<close>

text \<open>Counting: the middle of the sorted times is at least \<open>m\<close> as long as no more than half of them
  are below \<open>m\<close>.\<close>

lemma sorted_nth_ge:
  assumes "sorted (xs :: int list)" "i < length xs" "length (filter (\<lambda>x. x < m) xs) \<le> i"
  shows "m \<le> xs ! i"
proof (rule ccontr)
  assume a: "\<not> m \<le> xs ! i"
  have "x < m" if x: "x \<in> set (take (Suc i) xs)" for x
  proof -
    obtain j where "j < Suc i" "j < length xs" "x = xs ! j" using x by (auto simp: in_set_conv_nth)
    then show ?thesis using a sorted_nth_mono [OF assms(1), of j i] assms(2) by auto
  qed
  then have "filter (\<lambda>x. x < m) (take (Suc i) xs) = take (Suc i) xs" by (simp add: filter_id_conv)
  then have "Suc i \<le> length (filter (\<lambda>x. x < m) (take (Suc i) xs))" using assms(2) by simp
  also have "\<dots> \<le> length (filter (\<lambda>x. x < m) xs)"
    by (metis append_take_drop_id filter_append le_add1 length_append)
  finally show False using assms(3) by simp
qed

lemma sorted_nth_le:
  assumes "sorted (xs :: int list)" "i < length xs"
  shows "length (filter (\<lambda>x. x < xs ! i) xs) \<le> i"
proof -
  have "filter (\<lambda>x. x < xs ! i) (drop i xs) = []"
    using assms by (auto simp: filter_empty_conv in_set_conv_nth not_less sorted_iff_nth_mono)
  then have "filter (\<lambda>x. x < xs ! i) xs = filter (\<lambda>x. x < xs ! i) (take i xs)"
    by (metis append_Nil2 append_take_drop_id filter_append)
  then show ?thesis using length_filter_le [of "\<lambda>x. x < xs ! i" "take i xs"] assms(2) by simp
qed

lemma length_filter_sort: "length (filter P (sort xs)) = length (filter P xs)"
  by (simp add: filter_sort)

lemma median_window:
  fixes t :: int
  assumes "ts \<noteq> []" "sort ts ! (length ts div 2) \<le> t" and that: "length ts \<le> n" "0 < n"
  shows "sort ts ! (length ts div 2) \<le> sort (take n (t # ts)) ! (length (take n (t # ts)) div 2)"
proof (rule sorted_nth_ge)
  let ?m = "sort ts ! (length ts div 2)" and ?w = "take n (t # ts)"
  show "sorted (sort ?w)" by simp
  show "length ?w div 2 < length (sort ?w)" using that by (auto simp: min_def)
  have "length ts div 2 < length ts" using assms(1) by (cases ts) auto
  then have "length (filter (\<lambda>x. x < ?m) ts) \<le> length ts div 2"
    using sorted_nth_le [of "sort ts" "length ts div 2"] by (simp add: length_filter_sort)
  moreover have "length (filter (\<lambda>x. x < ?m) ?w) \<le> length (filter (\<lambda>x. x < ?m) (t # ts))"
    by (metis append_take_drop_id filter_append le_add1 length_append)
  moreover have "length ts div 2 \<le> length ?w div 2" using that by (simp add: min_def div_le_mono)
  ultimately show "length (filter (\<lambda>x. x < ?m) (sort ?w)) \<le> length ?w div 2"
    using assms(2) by (simp add: length_filter_sort)
qed

lemma recent_times_Some:
  assumes "index_ok H"
  shows "(case p of None \<Rightarrow> True | Some q \<Rightarrow> H q \<noteq> None) \<Longrightarrow> \<exists>ts. recent_times H n p = Some ts \<and> length ts \<le> n"
proof (induction n arbitrary: p)
  case (Suc n)
  show ?case
  proof (cases p)
    case (Some q)
    then obtain e where e: "H q = Some e" using Suc.prems by auto
    have "case pprev e of None \<Rightarrow> True | Some r \<Rightarrow> H r \<noteq> None"
      using index_okD(3) [OF assms e] by (auto split: option.split)
    then show ?thesis using Suc.IH [of "pprev e"] Some e by auto
  qed simp
qed simp

lemma recent_times_take: "recent_times H n p = Some ts \<Longrightarrow> k \<le> n \<Longrightarrow> recent_times H k p = Some (take k ts)"
proof (induction k arbitrary: n p ts)
  case (Suc k)
  obtain n' where n: "n = Suc n'" "k \<le> n'" using Suc.prems(2) by (cases n) auto
  show ?case
  proof (cases p)
    case None
    then show ?thesis using Suc.prems(1) n by simp
  next
    case (Some q)
    then show ?thesis using Suc.prems(1) n Suc.IH [of n'] by (auto split: option.splits)
  qed
qed simp

lemma GetMedianTimePast_Some: "index_ok H \<Longrightarrow> H p = Some e \<Longrightarrow> \<exists>m. GetMedianTimePast H p = Some m"
  using recent_times_Some [of H "Some p" nMedianTimeSpan] by (auto simp: GetMedianTimePast_def)

lemma GetMedianTimePast_mono:
  assumes ok: "index_ok H" and p: "H p = Some e" "pprev e = Some q"
    and m: "GetMedianTimePast H q = Some m" "m \<le> bi_GetBlockTime e"
  shows "\<exists>m'. GetMedianTimePast H p = Some m' \<and> m \<le> m'"
proof -
  obtain d where d: "H q = Some d" using index_okD(3) [OF ok p] by blast
  obtain ts where ts: "recent_times H 11 (Some q) = Some ts" "length ts \<le> 11"
    using recent_times_Some [OF ok, of "Some q" 11] d by auto
  have "ts \<noteq> []" using ts(1) d by (auto simp: numeral_eq_Suc)
  moreover have "m = sort ts ! (length ts div 2)" using m(1) ts(1) by (simp add: GetMedianTimePast_def nMedianTimeSpan_def)
  moreover have "recent_times H 10 (Some q) = Some (take 10 ts)" using recent_times_take [OF ts(1), of 10] by simp
  then have "recent_times H (Suc 10) (Some p) = Some (take 11 (bi_GetBlockTime e # ts))"
    unfolding recent_times.simps using p by (simp add: take_Cons')
  ultimately show ?thesis
    using median_window [of ts "bi_GetBlockTime e" 11] ts(2) m(2) by (simp add: GetMedianTimePast_def nMedianTimeSpan_def)
qed

section \<open>Binary search\<close>

lemma lower_bound_ok:
  "(\<forall>i < k. before (xs ! i) = Some True) \<Longrightarrow> (\<forall>i. k \<le> i \<longrightarrow> i < length xs \<longrightarrow> before (xs ! i) = Some False) \<Longrightarrow>
   first \<le> k \<Longrightarrow> k \<le> first + len \<Longrightarrow> first + len \<le> length xs \<Longrightarrow> lower_bound before xs first len = Some k"
proof (induction before xs first len rule: lower_bound.induct)
  case (1 before xs first len)
  show ?case
  proof (cases "len = 0")
    case True
    then show ?thesis using "1.prems"(3,4) by (subst lower_bound.simps) simp
  next
    case False
    let ?m = "first + len div 2"
    have m: "?m < length xs" "len div 2 < len" using "1.prems"(5) False by auto
    have nm: "\<not> length xs \<le> ?m" using m(1) by simp
    show ?thesis
    proof (cases "?m < k")
      case True
      then have b: "before (xs ! ?m) = Some True" using "1.prems"(1) by blast
      have "lower_bound before xs (?m + 1) (len - len div 2 - 1) = Some k"
        by (rule "1.IH"(1) [OF False refl refl nm b]) (use "1.prems" True m in auto)
      then show ?thesis using b m False by (subst lower_bound.simps) (simp add: Let_def)
    next
      case f: False
      then have b: "before (xs ! ?m) = Some False" using "1.prems"(2) m by auto
      have "lower_bound before xs first (len div 2) = Some k"
        by (rule "1.IH"(2) [OF False refl refl nm b]) (use "1.prems" f m in auto)
      then show ?thesis using b m False by (subst lower_bound.simps) (simp add: Let_def)
    qed
  qed
qed

text \<open>Entries whose maximal time is that of their branch.\<close>

definition times_ok :: "index_heap \<Rightarrow> bool" where
  "times_ok H \<longleftrightarrow> (\<forall>p e. H p = Some e \<longrightarrow>
     nTimeMax e = (case Option.bind (pprev e) H of None \<Rightarrow> biTime e | Some d \<Rightarrow> max (nTimeMax d) (biTime e)))"

lemma chain_times_mono:
  assumes ok: "times_ok H" and c: "chain_ok H v"
  shows "j < length v \<Longrightarrow> i \<le> j \<Longrightarrow> v ! i = Some p \<Longrightarrow> v ! j = Some q \<Longrightarrow> H p = Some d \<Longrightarrow> H q = Some e \<Longrightarrow> nTimeMax d \<le> nTimeMax e"
proof (induction j arbitrary: q e)
  case (Suc j)
  show ?case
  proof (cases "i = Suc j")
    case False
    have jl: "j < length v" "i \<le> j" using Suc.prems(1,2) False by auto
    obtain r f where r: "v ! j = Some r" "H r = Some f" using chain_okD [OF c jl(1)] by metis
    have "pprev e = Some r" using chain_okD [OF c Suc.prems(1)] Suc.prems(4,6) r(1) by (metis diff_Suc_1 option.inject zero_less_Suc)
    then have "nTimeMax e = max (nTimeMax f) (biTime e)" using ok Suc.prems(6) r(2) by (simp add: times_ok_def)
    then have "nTimeMax f \<le> nTimeMax e" by simp
    then show ?thesis using Suc.IH [OF jl Suc.prems(3) r(1) Suc.prems(5) r(2)] by (rule order_trans [rotated])
  qed (use Suc.prems in simp)
qed simp

lemma FindEarliestAtLeast_ok:
  assumes t: "times_ok H" and c: "chain_ok H v"
  shows "\<exists>k \<le> length v. FindEarliestAtLeast H v time height = Some (if k = length v then None else v ! k) \<and>
     (\<forall>i < length v. \<forall>p e. v ! i = Some p \<longrightarrow> H p = Some e \<longrightarrow> (k \<le> i \<longleftrightarrow> time \<le> GetBlockTimeMax e \<and> height \<le> nHeight e))"
proof -
  define good where "good i \<longleftrightarrow> (\<exists>p e. v ! i = Some p \<and> H p = Some e \<and> time \<le> GetBlockTimeMax e \<and> height \<le> nHeight e)" for i
  define k where "k = (if \<exists>i < length v. good i then LEAST i. i < length v \<and> good i else length v)"
  define bf where "bf = (\<lambda>p. map_option (\<lambda>e. GetBlockTimeMax e < time \<or> nHeight e < height) (Option.bind p H))"
  have kl: "k \<le> length v" and below: "\<And>i. i < k \<Longrightarrow> i < length v \<and> \<not> good i"
    and kgood: "k < length v \<Longrightarrow> good k"
  proof -
    show "k \<le> length v"
    proof (cases "\<exists>i < length v. good i")
      case True
      then obtain i where "i < length v \<and> good i" by blast
      then show ?thesis using Least_le [of "\<lambda>i. i < length v \<and> good i" i] True unfolding k_def by auto
    qed (auto simp: k_def)
    show "i < length v \<and> \<not> good i" if "i < k" for i
      using that not_less_Least [of i "\<lambda>i. i < length v \<and> good i"] \<open>k \<le> length v\<close> unfolding k_def by (auto split: if_splits)
    show "good k" if "k < length v"
      using that LeastI [of "\<lambda>i. i < length v \<and> good i"] unfolding k_def by (auto split: if_splits)
  qed
  have above: "good i" if i: "k \<le> i" "i < length v" for i
  proof -
    obtain p e where p: "v ! k = Some p" "H p = Some e" "time \<le> GetBlockTimeMax e" "height \<le> nHeight e"
      using kgood i by (auto simp: good_def)
    obtain q d where q: "v ! i = Some q" "H q = Some d" "nHeight d = int i" using chain_okD [OF c i(2)] by metis
    have "nTimeMax e \<le> nTimeMax d" by (rule chain_times_mono [OF t c i(2,1) p(1) q(1) p(2) q(2)])
    moreover have "nHeight e = int k" using chain_ex [OF c _ p(1)] i p(2) by auto
    ultimately show ?thesis using p q i by (auto simp: good_def GetBlockTimeMax_def word_le_def)
  qed
  have b: "bf (v ! i) = Some (\<not> good i)" if i: "i < length v" for i
  proof -
    obtain p e where "v ! i = Some p" "H p = Some e" by (rule chain_okD [OF c i])
    then show ?thesis by (auto simp: good_def bf_def)
  qed
  have "\<forall>i < k. bf (v ! i) = Some True" "\<forall>i. k \<le> i \<longrightarrow> i < length v \<longrightarrow> bf (v ! i) = Some False"
    using b below above by simp_all
  then have "lower_bound bf v 0 (length v) = Some k" using kl by (intro lower_bound_ok) auto
  then have "FindEarliestAtLeast H v time height = Some (if k = length v then None else v ! k)"
    by (simp add: FindEarliestAtLeast_def bf_def)
  moreover have "k \<le> i \<longleftrightarrow> time \<le> GetBlockTimeMax e \<and> height \<le> nHeight e" if "i < length v" "v ! i = Some p" "H p = Some e" for i p e
  proof -
    have "good i \<longleftrightarrow> time \<le> GetBlockTimeMax e \<and> height \<le> nHeight e" using that by (simp add: good_def)
    then show ?thesis using below [of i] above [of i] that(1) by (metis not_le)
  qed
  ultimately show ?thesis using kl by blast
qed

section \<open>The work of a block\<close>

lemma compact_value_nonneg: "0 \<le> compact_value c"
  by (simp add: compact_value_def Let_def pos_imp_zdiv_nonneg_iff)

lemma compact_value_not_max: "compact_value c \<noteq> 2 ^ 256 - 1"
proof
  assume c: "compact_value c = 2 ^ 256 - 1"
  define m where "m = uint c mod 2 ^ 23"
  define e where "e = nat (uint c div 2 ^ 24)"
  have cv: "compact_value c = (if e \<le> 3 then m div 256 ^ (3 - e) else m * 256 ^ (e - 3))"
    by (simp only: compact_value_def Let_def e_def m_def)
  have m: "0 \<le> m" "m < 2 ^ 23" by (simp_all add: m_def)
  show False
  proof (cases "e \<le> 3")
    case True
    have "m div 256 ^ (3 - e) \<le> m" using m(1) zdiv_mono2 [of m 1 "256 ^ (3 - e)"] by simp
    then show False using c cv True m(2) by simp
  next
    case False
    then have "256 dvd compact_value c" using cv by (simp add: dvd_power)
    then show False unfolding c by simp
  qed
qed

lemma GetBlockProof_ok:
  "\<exists>w. GetBlockProof c = Inr w \<and> length w = WIDTH \<and>
     bn w = (if compact_value c = 0 \<or> 2 ^ 256 \<le> compact_value c \<or> bit c 23 then 0 else 2 ^ 256 div (compact_value c + 1))"
proof -
  obtain r neg ovf where r: "SetCompact c = (r, neg, ovf)" "length r = WIDTH" "bn r = compact_value c mod 2 ^ 256"
    "ovf \<longleftrightarrow> 2 ^ 256 \<le> compact_value c" "neg \<longleftrightarrow> compact_value c \<noteq> 0 \<and> bit c 23"
    by (rule SetCompact_eq)
  show ?thesis
  proof (cases "compact_value c = 0 \<or> 2 ^ 256 \<le> compact_value c \<or> bit c 23")
    case True
    then show ?thesis using r EqualTo_bn [OF r(2), of 0] by (auto simp: GetBlockProof_def)
  next
    case False
    let ?t = "compact_value c"
    have t: "0 < ?t" "?t + 1 < 2 ^ 256" "bn r = ?t"
      using False compact_value_nonneg [of c] compact_value_not_max [of c] r(3) by auto
    have a: "bn (op_add r (base_uint_of_u64 1)) = ?t + 1" "length (op_add r (base_uint_of_u64 1)) = WIDTH"
      using t r(2) by (simp_all add: bn_op_add)
    obtain q where q: "op_div (op_not r) (op_add r (base_uint_of_u64 1)) = Inr q" "length q = WIDTH"
      "bn q = (2 ^ 256 - 1 - ?t) div (?t + 1)"
      using op_div_correct [of "op_not r" "op_add r (base_uint_of_u64 1)"] a r(2) t by (auto simp: bn_op_not)
    have "(2 ^ 256 - 1 - ?t) div (?t + 1) + 1 = 2 ^ 256 div (?t + 1)"
      using t(1) div_add_self2 [of "?t + 1" "2 ^ 256 - 1 - ?t"] by simp
    moreover have "2 ^ 256 div (?t + 1) < 2 ^ 256" using t by (intro int_div_less_self) auto
    moreover have "0 \<le> 2 ^ 256 div (?t + 1)" using t by (simp add: pos_imp_zdiv_nonneg_iff)
    ultimately have "bn (op_add q (base_uint_of_u64 1)) = 2 ^ 256 div (?t + 1)"
      using q by (simp add: bn_op_add)
    then show ?thesis using False r q t EqualTo_bn [OF r(2), of 0] by (auto simp: GetBlockProof_def)
  qed
qed

section \<open>Properties\<close>

text \<open>
  C20: Property: setting the tip of the active chain succeeds and makes the chain the branch of the new
  tip.  From a well-formed index and a chain vector that is a branch, \<open>SetTip\<close> returns a vector
  that is a branch again, ends with the new tip and has at every height the ancestor of the tip
  at that height, although its loop stops at the first entry that was already in place.
\<close>

theorem set_tip_installs_branch:
  assumes "index_ok H" "chain_ok H v" "H p = Some e"
  shows "\<exists>v'. SetTip H (Some p) v = Some v' \<and> chain_ok H v' \<and> chain_Tip v' = Some p \<and> chain_Height v' = nHeight e \<and>
    (\<forall>h. chain_at v' h = (if 0 \<le> h \<and> h \<le> nHeight e then up H (nat (nHeight e - h)) p else None))"
proof -
  obtain v' where v': "SetTip H (Some p) v = Some v'" "chain_ok H v'" "int (length v') = nHeight e + 1" "chain_Tip v' = Some p"
    using SetTip_ok [OF assms] by blast
  have "chain_at v' h = (if 0 \<le> h \<and> h \<le> nHeight e then up H (nat (nHeight e - h)) p else None)" for h
  proof (cases "0 \<le> h \<and> h \<le> nHeight e")
    case True
    then have "length v' - 1 - nat h = nat (nHeight e - h)" using v'(3) by auto
    then show ?thesis using chain_at_up [OF v'(2,4), of h] True v'(3) by auto
  qed (use v'(3) in \<open>auto simp: chain_at_def\<close>)
  then show ?thesis using v' by (auto simp: chain_Height_def)
qed

definition demo_entry :: "ptr option \<Rightarrow> int \<Rightarrow> CBlockIndex" where
  "demo_entry q h = CBlockIndex_null\<lparr>pprev := q, nHeight := h\<rparr>"

definition demo_index :: index_heap where
  "demo_index = [0 \<mapsto> demo_entry None 0, 1 \<mapsto> demo_entry (Some 0) 1, 2 \<mapsto> demo_entry (Some 0) 1]"

lemma demo_index_ok: "index_ok demo_index"
  by (auto simp: index_ok_def entry_ok_def demo_index_def demo_entry_def CBlockIndex_null_def split: if_splits)

lemma demo_chain_ok: "chain_ok demo_index [Some 0, Some 1]"
  by (auto simp: chain_ok_def demo_index_def demo_entry_def nth_Cons split: nat.splits)

theorem set_tip_installs_branch_witness:
  "\<exists>v'. SetTip demo_index (Some 2) [Some 0, Some 1] = Some v' \<and> chain_at v' 1 = Some 2 \<and> chain_at v' 0 = Some 0"
proof -
  have e: "demo_index 2 = Some (demo_entry (Some 0) 1)" "nHeight (demo_entry (Some 0) 1) = 1"
    by (simp_all add: demo_index_def demo_entry_def)
  have u: "up demo_index 1 2 = Some 0" by (simp add: demo_index_def demo_entry_def)
  show ?thesis
    using set_tip_installs_branch [OF demo_index_ok demo_chain_ok e(1)] u unfolding e(2) by fastforce
qed

text \<open>
  C21: Property: the fork of a block with the active chain is the first block of its branch, going down,
  that is in the chain, and the last common ancestor of two blocks of one tree is a block of
  both branches below which all common blocks lie.  Both searches return although they follow
  pointers.
\<close>

theorem forks_and_common_ancestors:
  assumes "index_ok H" "chain_ok H v" "H a = Some ea" "H b = Some eb"
    "up H (nat (nHeight ea)) a = up H (nat (nHeight eb)) b"
  shows "(\<exists>r. FindFork H v (Some a) = Some r \<and> is_fork H v a r) \<and>
    (\<exists>c. LastCommonAncestor H a b = Some (Some c) \<and> is_last_common H a b c)"
  using FindFork_ok [OF assms(1-3)] LastCommonAncestor_ok [OF assms(1,3-5)] by blast

theorem forks_and_common_ancestors_witness:
  "(\<exists>r. FindFork demo_index [Some 0, Some 1] (Some 2) = Some r \<and> is_fork demo_index [Some 0, Some 1] 2 r) \<and>
   (\<exists>c. LastCommonAncestor demo_index 2 1 = Some (Some c) \<and> is_last_common demo_index 2 1 c)"
proof -
  have e: "demo_index 2 = Some (demo_entry (Some 0) 1)" "demo_index 1 = Some (demo_entry (Some 0) 1)" by (simp_all add: demo_index_def)
  have "up demo_index (nat (nHeight (demo_entry (Some 0) 1))) 2 = up demo_index (nat (nHeight (demo_entry (Some 0) 1))) 1"
    by (simp add: demo_index_def demo_entry_def)
  from forks_and_common_ancestors [OF demo_index_ok demo_chain_ok e this] show ?thesis .
qed

text \<open>
  C24: Property: for every block below height \<open>2 ^ 30\<close> the construction of a locator ends, without
  overflow of its step, and the locator goes back to the genesis block: its entry number \<open>i\<close> is
  the hash of the ancestor \<open>locator_offset i\<close> below the block, ten blocks one by one and then with
  doubling distance, and the last entry, the first whose offset reaches the height, is at height zero.
\<close>

theorem locator_reaches_genesis:
  assumes "index_ok H" "chain_ok H v" "H p = Some e" "nHeight e < 2 ^ 30"
  shows "\<exists>m. nHeight e \<le> int (locator_offset m) \<and> (\<forall>j < m. int (locator_offset j) < nHeight e) \<and>
     GetLocator H v (Some p) =
       Some (map (\<lambda>i. phashBlock (the (H (the (up H (min (nat (nHeight e)) (locator_offset i)) p))))) [0..<Suc m])"
  using GetLocator_ok [OF assms] unfolding locator_entry_def .

theorem locator_reaches_genesis_witness:
  "\<exists>m. GetLocator demo_index [Some 0, Some 1] (Some 2) =
       Some (map (\<lambda>i. phashBlock (the (demo_index (the (up demo_index (min 1 (locator_offset i)) 2))))) [0..<Suc m])"
proof -
  have e: "demo_index 2 = Some (demo_entry (Some 0) 1)" "nHeight (demo_entry (Some 0) 1) < 2 ^ 30"
    by (simp_all add: demo_index_def demo_entry_def)
  from locator_reaches_genesis [OF demo_index_ok demo_chain_ok e] show ?thesis by (auto simp: demo_entry_def)
qed

text \<open>
  C25: Property: the work credited to a block is the expected number of hashes for its target: the
  whole part of \<open>2 ^ 256 / (target + 1)\<close>, computed without a 257-bit number and without ever
  dividing by zero, and no work for a target that is zero, negative or too large.
\<close>

theorem block_proof_is_expected_work:
  "\<exists>w. GetBlockProof c = Inr w \<and> wf_uint w \<and>
     bn w = (if compact_value c = 0 \<or> 2 ^ 256 \<le> compact_value c \<or> bit c 23 then 0 else 2 ^ 256 div (compact_value c + 1))"
  using GetBlockProof_ok by (simp add: wf_uint_def)

end
