(* ===== verification/BlockIndex.thy ===== *)
theory BlockIndex
  imports Chain
begin

text \<open>
  The operations of src/src/validation.cpp on the block index: new headers (\<open>AddToBlockIndex\<close>), arrival
  of block data (\<open>ReceivedBlockTransactions\<close>), reconstruction from disk (\<open>LoadBlockIndex\<close>), failed
  blocks and the choice of the best chain (\<open>FindMostWorkChain\<close>), and the stake modifier of
  src/src/pos.cpp.

  The state has the heap of index entries with the next free address, the map from hashes to
  entries and the sets and pointers of the chain state.  The ordered set of candidates is a list
  without duplicates whose order is that of the comparison object.  The multimap of unlinked
  blocks is a list of pairs.  \<open>None\<close> stands for a failed assertion, a dangling pointer or an
  overflow.

  The lemmas show that every reachable index is well-formed (skip pointers, times, work, best
  header), that a block counts as downloaded exactly if its whole branch is, and that the
  choice of the best chain ends and is optimal.
\<close>

section \<open>State\<close>

record block_state =
  entries :: index_heap
  nextAddr :: ptr
  m_block_index :: "uint256 \<rightharpoonup> ptr"
  m_blocks_unlinked :: "(ptr \<times> ptr) list"
  m_failed_blocks :: "ptr set"
  setBlockIndexCandidates :: "ptr list"
  setDirtyBlockIndex :: "ptr set"
  setStakeSeen :: "(COutPoint \<times> u32) set"
  pindexBestHeader :: "ptr option"
  pindexBestInvalid :: "ptr option"
  nBlockSequenceId :: int
  m_chain :: CChain

text \<open>The order of candidates; \<open>None\<close> if a pointer is dangling.\<close>

definition work_less :: "CBlockIndex \<Rightarrow> ptr \<Rightarrow> CBlockIndex \<Rightarrow> ptr \<Rightarrow> bool" where
  "work_less a pa b pb =
     (if op_gt (nChainWork a) (nChainWork b) then False
      else if op_lt (nChainWork a) (nChainWork b) then True
      else if nSequenceId a < nSequenceId b then False
      else if nSequenceId a > nSequenceId b then True
      else if pa < pb then False
      else if pa > pb then True
      else False)"

definition CBlockIndexWorkComparator :: "index_heap \<Rightarrow> ptr \<Rightarrow> ptr \<Rightarrow> bool option" where
  "CBlockIndexWorkComparator H pa pb =
     (case (H pa, H pb) of (Some a, Some b) \<Rightarrow> Some (work_less a pa b pb) | _ \<Rightarrow> None)"

definition candidates_insert :: "ptr \<Rightarrow> ptr list \<Rightarrow> ptr list" where
  "candidates_insert p cs = (if p \<in> set cs then cs else p # cs)"

definition candidates_erase :: "ptr \<Rightarrow> ptr list \<Rightarrow> ptr list" where
  "candidates_erase p cs = filter (\<lambda>q. q \<noteq> p) cs"

text \<open>The last element of the set in its order.\<close>

primrec best_of :: "index_heap \<Rightarrow> ptr list \<Rightarrow> ptr \<Rightarrow> ptr option" where
  "best_of H [] b = Some b"
| "best_of H (c # cs) b =
     (case CBlockIndexWorkComparator H b c of None \<Rightarrow> None
      | Some lt \<Rightarrow> best_of H cs (if lt then c else b))"

section \<open>New headers\<close>

definition ComputeStakeModifier :: "CBlockIndex option \<Rightarrow> uint256 \<Rightarrow> uint256" where
  "ComputeStakeModifier pindexPrev kernel' =
     (case pindexPrev of None \<Rightarrow> uint256_null
      | Some prev \<Rightarrow> Hash (kernel' @ nStakeModifier prev))"

definition header_IsProofOfStake :: "CBlockHeader \<Rightarrow> bool" where
  "header_IsProofOfStake block \<longleftrightarrow> \<not> COutPoint_IsNull (prevoutStake block)"

text \<open>The parent is looked up after the new entry has been inserted.\<close>

definition link_parent :: "block_state \<Rightarrow> ptr \<Rightarrow> CBlockHeader \<Rightarrow> CBlockIndex \<Rightarrow> (CBlockIndex option \<times> CBlockIndex) option" where
  "link_parent s p block e =
     (case m_block_index s (hashPrevBlock block) of None \<Rightarrow> Some (None, e)
      | Some q \<Rightarrow>
          (case entries s q of None \<Rightarrow> None
           | Some d \<Rightarrow>
               if nHeight d + 1 \<ge> 2 ^ 31 then None
               else
                 (let e = e\<lparr>pprev := Some q, nHeight := nHeight d + 1\<rparr>
                  in map_option (\<lambda>e. (Some d, e)) (BuildSkip ((entries s)(p \<mapsto> e)) e))))"

text \<open>Time, work, stake modifier and validity of the new entry, given its parent.\<close>

definition complete_entry :: "CBlockHeader \<Rightarrow> uint256 \<Rightarrow> CBlockIndex option \<Rightarrow> CBlockIndex \<Rightarrow> CBlockIndex option" where
  "complete_entry block hash prev e =
     (case GetBlockProof (biBits e) of Inl err \<Rightarrow> None
      | Inr proof \<Rightarrow>
          (let e = e\<lparr>nTimeMax := (case prev of None \<Rightarrow> biTime e | Some d \<Rightarrow> max (nTimeMax d) (biTime e)),
                     nChainWork := op_add (case prev of None \<Rightarrow> base_uint_of_u64 0 | Some d \<Rightarrow> nChainWork d) proof,
                     nStakeModifier := ComputeStakeModifier prev
                       (if \<not> header_IsProofOfStake block then hash else outHash (prevoutStake block))\<rparr>
           in map_option snd (RaiseValidity BLOCK_VALID_TREE e)))"

definition update_best_header :: "ptr \<Rightarrow> CBlockIndex \<Rightarrow> block_state \<Rightarrow> block_state option" where
  "update_best_header p e s =
     (case pindexBestHeader s of None \<Rightarrow> Some (s\<lparr>pindexBestHeader := Some p\<rparr>)
      | Some b \<Rightarrow>
          (case entries s b of None \<Rightarrow> None
           | Some eb \<Rightarrow> Some (if op_lt (nChainWork eb) (nChainWork e) then s\<lparr>pindexBestHeader := Some p\<rparr> else s)))"

definition AddToBlockIndex :: "CBlockHeader \<Rightarrow> block_state \<Rightarrow> (ptr \<times> block_state) option" where
  "AddToBlockIndex block s =
     (let hash = block_GetHash block
      in case m_block_index s hash of Some p \<Rightarrow> Some (p, s)
       | None \<Rightarrow>
           (let p = nextAddr s;
                e = (CBlockIndex_of block)\<lparr>nSequenceId := 0, phashBlock := hash\<rparr>;
                s = s\<lparr>nextAddr := p + 1, entries := (entries s)(p \<mapsto> e), m_block_index := (m_block_index s)(hash \<mapsto> p)\<rparr>;
                s = (if bi_IsProofOfStake e
                     then s\<lparr>setStakeSeen := insert (biPrevoutStake e, biTime e) (setStakeSeen s)\<rparr> else s)
            in case link_parent s p block e of None \<Rightarrow> None
             | Some (prev, e) \<Rightarrow>
                 (case complete_entry block hash prev e of None \<Rightarrow> None
                  | Some e \<Rightarrow>
                      map_option (\<lambda>s. (p, s\<lparr>setDirtyBlockIndex := insert p (setDirtyBlockIndex s)\<rparr>))
                        (update_best_header p e (s\<lparr>entries := (entries s)(p \<mapsto> e)\<rparr>)))))"

section \<open>Arrival of blocks\<close>

definition IsWitnessEnabled :: "index_heap \<Rightarrow> int \<Rightarrow> ptr option \<Rightarrow> bool option" where
  "IsWitnessEnabled H SegwitHeight pindexPrev =
     (case pindexPrev of None \<Rightarrow> Some (0 \<ge> SegwitHeight)
      | Some q \<Rightarrow> map_option (\<lambda>d. nHeight d + 1 \<ge> SegwitHeight) (H q))"

text \<open>The number of transactions below a block, and whether a block can compete with the tip.\<close>

definition chain_tx_below :: "index_heap \<Rightarrow> CBlockIndex \<Rightarrow> u32 option" where
  "chain_tx_below H e = (case pprev e of None \<Rightarrow> Some 0 | Some q \<Rightarrow> map_option nChainTx (H q))"

definition competes_with_tip :: "ptr \<Rightarrow> block_state \<Rightarrow> bool option" where
  "competes_with_tip p s =
     (case chain_Tip (m_chain s) of None \<Rightarrow> Some True
      | Some t \<Rightarrow> map_option Not (CBlockIndexWorkComparator (entries s) p t))"

text \<open>The queue of blocks whose ancestors are all downloaded.\<close>

definition link_block :: "ptr \<Rightarrow> block_state \<Rightarrow> block_state option" where
  "link_block p s =
     (case entries s p of None \<Rightarrow> None
      | Some e \<Rightarrow>
          (case chain_tx_below (entries s) e of None \<Rightarrow> None
           | Some below \<Rightarrow>
               if nBlockSequenceId s + 1 \<ge> 2 ^ 31 then None
               else
                 (let e = e\<lparr>nChainTx := below + nTx e, nSequenceId := nBlockSequenceId s\<rparr>;
                      s = s\<lparr>entries := (entries s)(p \<mapsto> e), nBlockSequenceId := nBlockSequenceId s + 1\<rparr>
                  in map_option
                       (\<lambda>candidate. s\<lparr>setBlockIndexCandidates :=
                          if candidate then candidates_insert p (setBlockIndexCandidates s) else setBlockIndexCandidates s\<rparr>)
                       (competes_with_tip p s))))"

lemma link_block_unlinked: "link_block p s = Some s' \<Longrightarrow> m_blocks_unlinked s' = m_blocks_unlinked s"
  by (auto simp: link_block_def Let_def split: option.splits if_splits)

function link_queue :: "ptr list \<Rightarrow> block_state \<Rightarrow> block_state option" where
  "link_queue [] s = Some s"
| "link_queue (p # queue) s =
     (case link_block p s of None \<Rightarrow> None
      | Some s' \<Rightarrow>
          link_queue (queue @ map snd (filter (\<lambda>pq. fst pq = p) (m_blocks_unlinked s')))
            (s'\<lparr>m_blocks_unlinked := filter (\<lambda>pq. fst pq \<noteq> p) (m_blocks_unlinked s')\<rparr>))"
  by pat_completeness auto
termination
proof (relation "measure (\<lambda>(queue, s). length queue + 2 * length (m_blocks_unlinked s))")
  fix p queue s s'
  assume "link_block p s = Some s'"
  then have "m_blocks_unlinked s' = m_blocks_unlinked s" by (rule link_block_unlinked)
  moreover have "length (filter (\<lambda>pq. fst pq = p) (m_blocks_unlinked s)) + length (filter (\<lambda>pq. fst pq \<noteq> p) (m_blocks_unlinked s)) =
      length (m_blocks_unlinked s)" by (rule sum_length_filter_compl)
  ultimately show "((queue @ map snd (filter (\<lambda>pq. fst pq = p) (m_blocks_unlinked s')),
        s'\<lparr>m_blocks_unlinked := filter (\<lambda>pq. fst pq \<noteq> p) (m_blocks_unlinked s')\<rparr>), p # queue, s)
      \<in> measure (\<lambda>(queue, s). length queue + 2 * length (m_blocks_unlinked s))" by simp
qed simp

definition receive_entry :: "index_heap \<Rightarrow> int \<Rightarrow> CBlock \<Rightarrow> int \<times> u32 \<Rightarrow> CBlockIndex \<Rightarrow> CBlockIndex option" where
  "receive_entry H SegwitHeight block pos e =
     (case IsWitnessEnabled H SegwitHeight (pprev e) of None \<Rightarrow> None
      | Some witness \<Rightarrow>
          (let e = e\<lparr>nTx := of_nat (length (vtx block)), nChainTx := 0, nFile := fst pos, nDataPos := snd pos,
                     nUndoPos := 0, nStatus := nStatus e OR BLOCK_HAVE_DATA\<rparr>;
               e = (if witness then e\<lparr>nStatus := nStatus e OR BLOCK_OPT_WITNESS\<rparr> else e)
           in map_option snd (RaiseValidity BLOCK_VALID_TRANSACTIONS e)))"

definition receive_link :: "ptr \<Rightarrow> CBlockIndex \<Rightarrow> block_state \<Rightarrow> block_state option" where
  "receive_link p e s =
     (case pprev e of None \<Rightarrow> link_queue [p] s
      | Some q \<Rightarrow>
          (case entries s q of None \<Rightarrow> None
           | Some d \<Rightarrow>
               if HaveTxsDownloaded d then link_queue [p] s
               else
                 map_option (\<lambda>valid. if valid then s\<lparr>m_blocks_unlinked := m_blocks_unlinked s @ [(q, p)]\<rparr> else s)
                   (IsValid BLOCK_VALID_TREE d)))"

definition ReceivedBlockTransactions :: "int \<Rightarrow> CBlock \<Rightarrow> ptr \<Rightarrow> int \<times> u32 \<Rightarrow> block_state \<Rightarrow> block_state option" where
  "ReceivedBlockTransactions SegwitHeight block p pos s =
     (case entries s p of None \<Rightarrow> None
      | Some e \<Rightarrow>
          (case receive_entry (entries s) SegwitHeight block pos e of None \<Rightarrow> None
           | Some e \<Rightarrow>
               receive_link p e
                 (s\<lparr>entries := (entries s)(p \<mapsto> e), setDirtyBlockIndex := insert p (setDirtyBlockIndex s)\<rparr>)))"

section \<open>Failed blocks\<close>

definition InvalidChainFound :: "ptr \<Rightarrow> block_state \<Rightarrow> block_state option" where
  "InvalidChainFound p s =
     (case (case pindexBestInvalid s of None \<Rightarrow> Some True
            | Some b \<Rightarrow> (case (entries s p, entries s b) of
                (Some e, Some eb) \<Rightarrow> Some (op_gt (nChainWork e) (nChainWork eb)) | _ \<Rightarrow> None)) of
        None \<Rightarrow> None
      | Some worse \<Rightarrow>
          if chain_Tip (m_chain s) = None then None
          else Some (if worse then s\<lparr>pindexBestInvalid := Some p\<rparr> else s))"

definition InvalidBlockFound :: "ptr \<Rightarrow> bool \<Rightarrow> block_state \<Rightarrow> block_state option" where
  "InvalidBlockFound p mutated s =
     (if mutated then Some s
      else case entries s p of None \<Rightarrow> None
       | Some e \<Rightarrow>
           InvalidChainFound p
             (s\<lparr>entries := (entries s)(p \<mapsto> e\<lparr>nStatus := nStatus e OR BLOCK_FAILED_VALID\<rparr>),
                m_failed_blocks := insert p (m_failed_blocks s),
                setDirtyBlockIndex := insert p (setDirtyBlockIndex s),
                setBlockIndexCandidates := candidates_erase p (setBlockIndexCandidates s)\<rparr>))"

section \<open>The best chain\<close>

text \<open>
  The blocks of a candidate outside the active chain, from the candidate down: \<open>Some None\<close> if all can
  be used, otherwise the first that cannot, and whether it failed.
\<close>

partial_function (option) test_loop :: "index_heap \<Rightarrow> CChain \<Rightarrow> ptr option \<Rightarrow> (ptr \<times> bool) option option" where
  "test_loop H v pindexTest =
     (case pindexTest of None \<Rightarrow> Some None
      | Some p \<Rightarrow> (case H p of None \<Rightarrow> None
          | Some e \<Rightarrow>
              if chain_at v (nHeight e) = Some p then Some None
              else if \<not> (HaveTxsDownloaded e \<or> nHeight e = 0) then None
              else
                (let fFailedChain = (nStatus e AND BLOCK_FAILED_MASK \<noteq> 0);
                     fMissingData = (nStatus e AND BLOCK_HAVE_DATA = 0)
                 in if fFailedChain \<or> fMissingData then Some (Some (p, fFailedChain))
                    else test_loop H v (pprev e))))"

partial_function (option) remove_chain :: "ptr \<Rightarrow> bool \<Rightarrow> ptr \<Rightarrow> block_state \<Rightarrow> block_state option" where
  "remove_chain pindexTest fFailedChain f s =
     (if f = pindexTest then Some s
      else case entries s f of None \<Rightarrow> None
       | Some e \<Rightarrow>
           (case pprev e of None \<Rightarrow> None
            | Some q \<Rightarrow>
                (let s = (if fFailedChain
                          then s\<lparr>entries := (entries s)(f \<mapsto> e\<lparr>nStatus := nStatus e OR BLOCK_FAILED_CHILD\<rparr>)\<rparr>
                          else s\<lparr>m_blocks_unlinked := m_blocks_unlinked s @ [(q, f)]\<rparr>)
                 in remove_chain pindexTest fFailedChain q
                      (s\<lparr>setBlockIndexCandidates := candidates_erase f (setBlockIndexCandidates s)\<rparr>))))"

definition mark_best_invalid :: "bool \<Rightarrow> ptr \<Rightarrow> block_state \<Rightarrow> block_state option" where
  "mark_best_invalid fFailedChain p s =
     (if \<not> fFailedChain then Some s
      else case pindexBestInvalid s of None \<Rightarrow> Some (s\<lparr>pindexBestInvalid := Some p\<rparr>)
       | Some b \<Rightarrow>
           (case (entries s p, entries s b) of
              (Some e, Some eb) \<Rightarrow>
                Some (if op_gt (nChainWork e) (nChainWork eb) then s\<lparr>pindexBestInvalid := Some p\<rparr> else s)
            | _ \<Rightarrow> None))"

partial_function (option) FindMostWorkChain :: "block_state \<Rightarrow> (ptr option \<times> block_state) option" where
  "FindMostWorkChain s =
     (case setBlockIndexCandidates s of [] \<Rightarrow> Some (None, s)
      | c # cs \<Rightarrow>
          (case best_of (entries s) cs c of None \<Rightarrow> None
           | Some pindexNew \<Rightarrow>
               (case test_loop (entries s) (m_chain s) (Some pindexNew) of None \<Rightarrow> None
                | Some None \<Rightarrow> Some (Some pindexNew, s)
                | Some (Some (pindexTest, fFailedChain)) \<Rightarrow>
                    (case mark_best_invalid fFailedChain pindexNew s of None \<Rightarrow> None
                     | Some s \<Rightarrow>
                         (case remove_chain pindexTest fFailedChain pindexNew s of None \<Rightarrow> None
                          | Some s \<Rightarrow>
                              FindMostWorkChain
                                (s\<lparr>setBlockIndexCandidates := candidates_erase pindexTest (setBlockIndexCandidates s)\<rparr>))))))"

text \<open>The candidates before the tip in the order of the set are its first elements.\<close>

definition PruneBlockIndexCandidates :: "block_state \<Rightarrow> block_state option" where
  "PruneBlockIndexCandidates s =
     (case chain_Tip (m_chain s) of None \<Rightarrow> None
      | Some t \<Rightarrow>
          (let cs = setBlockIndexCandidates s
           in if entries s t = None \<or> (\<exists>c \<in> set cs. entries s c = None) then None
              else
                (let cs = filter (\<lambda>c. CBlockIndexWorkComparator (entries s) c t \<noteq> Some True) cs
                 in if cs = [] then None else Some (s\<lparr>setBlockIndexCandidates := cs\<rparr>))))"

section \<open>Loading the index\<close>

text \<open>The entries as they were read from disk, with parents and heights set, are completed in the
  order of their heights.\<close>

definition load_entry :: "ptr \<Rightarrow> block_state \<Rightarrow> block_state option" where
  "load_entry p s =
     (case entries s p of None \<Rightarrow> None
      | Some e \<Rightarrow>
          (case (case pprev e of None \<Rightarrow> Some None | Some q \<Rightarrow> map_option Some (entries s q)) of None \<Rightarrow> None
           | Some prev \<Rightarrow>
               (case GetBlockProof (biBits e) of Inl err \<Rightarrow> None
                | Inr proof \<Rightarrow>
                    (let e = e\<lparr>nChainWork := op_add (case prev of None \<Rightarrow> base_uint_of_u64 0 | Some d \<Rightarrow> nChainWork d) proof,
                               nTimeMax := (case prev of None \<Rightarrow> biTime e | Some d \<Rightarrow> max (nTimeMax d) (biTime e))\<rparr>;
                         (e, unlinked) =
                           (if nTx e > 0 then
                              (case (prev, pprev e) of
                                 (Some d, Some q) \<Rightarrow>
                                   if HaveTxsDownloaded d then (e\<lparr>nChainTx := nChainTx d + nTx e\<rparr>, [])
                                   else (e\<lparr>nChainTx := 0\<rparr>, [(q, p)])
                               | _ \<Rightarrow> (e\<lparr>nChainTx := nTx e\<rparr>, []))
                            else (e, []));
                         failed = (nStatus e AND BLOCK_FAILED_MASK = 0 \<and>
                                   (case prev of None \<Rightarrow> False | Some d \<Rightarrow> nStatus d AND BLOCK_FAILED_MASK \<noteq> 0));
                         e = (if failed then e\<lparr>nStatus := nStatus e OR BLOCK_FAILED_CHILD\<rparr> else e);
                         s = s\<lparr>m_blocks_unlinked := m_blocks_unlinked s @ unlinked,
                               setDirtyBlockIndex := (if failed then insert p (setDirtyBlockIndex s) else setDirtyBlockIndex s)\<rparr>
                     in case (IsValid BLOCK_VALID_TRANSACTIONS e, BuildSkip ((entries s)(p \<mapsto> e)) e, IsValid BLOCK_VALID_TREE e) of
                          (Some v, Some e, Some t) \<Rightarrow>
                            (let s = s\<lparr>entries := (entries s)(p \<mapsto> e)\<rparr>;
                                 s = (if v \<and> (HaveTxsDownloaded e \<or> pprev e = None)
                                      then s\<lparr>setBlockIndexCandidates := candidates_insert p (setBlockIndexCandidates s)\<rparr> else s)
                             in case mark_best_invalid (nStatus e AND BLOCK_FAILED_MASK \<noteq> 0) p s of None \<Rightarrow> None
                              | Some s \<Rightarrow>
                                  (case (case pindexBestHeader s of None \<Rightarrow> Some True
                                         | Some b \<Rightarrow> CBlockIndexWorkComparator (entries s) b p) of None \<Rightarrow> None
                                   | Some better \<Rightarrow> Some (if t \<and> better then s\<lparr>pindexBestHeader := Some p\<rparr> else s)))
                        | _ \<Rightarrow> None))))"

primrec load_entries :: "ptr list \<Rightarrow> block_state \<Rightarrow> block_state option" where
  "load_entries [] s = Some s"
| "load_entries (p # ps) s = (case load_entry p s of None \<Rightarrow> None | Some s \<Rightarrow> load_entries ps s)"

definition LoadBlockIndex :: "block_state \<Rightarrow> block_state option" where
  "LoadBlockIndex s =
     load_entries (sort_key (\<lambda>p. nHeight (the (entries s p))) (filter (\<lambda>p. entries s p \<noteq> None) [0..<nextAddr s])) s"

section \<open>Well-formed states\<close>

text \<open>The part of an entry that its place in the tree determines.\<close>

definition tree_of where
  "tree_of e = (pprev e, pskip e, nHeight e, nTimeMax e, biTime e, nChainWork e, biBits e, phashBlock e)"

definition tree_eq :: "index_heap \<Rightarrow> index_heap \<Rightarrow> bool" where
  "tree_eq H H' \<longleftrightarrow> (\<forall>p. map_option tree_of (H' p) = map_option tree_of (H p))"

lemma tree_eq_refl [simp]: "tree_eq H H"
  by (simp add: tree_eq_def)

lemma tree_eq_trans: "tree_eq H H' \<Longrightarrow> tree_eq H' H'' \<Longrightarrow> tree_eq H H''"
  by (simp add: tree_eq_def)

lemma tree_eq_update: "H p = Some e \<Longrightarrow> tree_of e' = tree_of e \<Longrightarrow> tree_eq H (H(p \<mapsto> e'))"
  by (simp add: tree_eq_def)

lemma tree_eqD:
  assumes "tree_eq H H'" "H' p = Some e'"
  shows "\<exists>e. H p = Some e \<and> pprev e' = pprev e \<and> pskip e' = pskip e \<and> nHeight e' = nHeight e \<and> nTimeMax e' = nTimeMax e \<and>
    biTime e' = biTime e \<and> nChainWork e' = nChainWork e \<and> biBits e' = biBits e \<and> phashBlock e' = phashBlock e"
proof -
  have "map_option tree_of (H p) = Some (tree_of e')" using assms by (metis option.simps(9) tree_eq_def)
  then show ?thesis by (auto simp: tree_of_def)
qed

lemma tree_eq_sym: "tree_eq H H' \<Longrightarrow> tree_eq H' H"
  by (simp add: tree_eq_def)

lemma up_tree_eq: "tree_eq H H' \<Longrightarrow> up H' k p = up H k p"
proof (induction k arbitrary: p)
  case (Suc k)
  have "Option.bind (H' p) pprev = Option.bind (H p) pprev"
    using tree_eqD [OF Suc.prems, of p] tree_eqD [OF tree_eq_sym [OF Suc.prems], of p]
    by (cases "H p"; cases "H' p") auto
  moreover have "up H' k = up H k" using Suc.IH [OF Suc.prems] by (rule ext)
  ultimately show ?case by (simp only: up.simps)
qed simp

text \<open>Work and times accumulate along the branches, and skip pointers exist.\<close>

definition parent :: "index_heap \<Rightarrow> CBlockIndex \<Rightarrow> CBlockIndex option" where
  "parent H e = Option.bind (pprev e) H"

lemma times_ok_parent:
  "times_ok H \<longleftrightarrow> (\<forall>p e. H p = Some e \<longrightarrow>
     nTimeMax e = (case parent H e of None \<Rightarrow> biTime e | Some d \<Rightarrow> max (nTimeMax d) (biTime e)))"
  by (simp only: times_ok_def parent_def)

lemma times_okD:
  "times_ok H \<Longrightarrow> H p = Some e \<Longrightarrow> nTimeMax e = (case parent H e of None \<Rightarrow> biTime e | Some d \<Rightarrow> max (nTimeMax d) (biTime e))"
  unfolding times_ok_parent by blast

definition work_ok :: "index_heap \<Rightarrow> bool" where
  "work_ok H \<longleftrightarrow> (\<forall>p e. H p = Some e \<longrightarrow> length (nChainWork e) = WIDTH \<and> (\<exists>w. GetBlockProof (biBits e) = Inr w \<and>
     nChainWork e = op_add (case parent H e of None \<Rightarrow> base_uint_of_u64 0 | Some d \<Rightarrow> nChainWork d) w))"

lemma work_okD:
  "work_ok H \<Longrightarrow> H p = Some e \<Longrightarrow> length (nChainWork e) = WIDTH \<and> (\<exists>w. GetBlockProof (biBits e) = Inr w \<and>
     nChainWork e = op_add (case parent H e of None \<Rightarrow> base_uint_of_u64 0 | Some d \<Rightarrow> nChainWork d) w)"
  by (simp add: work_ok_def)

definition skips_ok :: "index_heap \<Rightarrow> bool" where
  "skips_ok H \<longleftrightarrow> (\<forall>p e. H p = Some e \<longrightarrow> (pprev e = None \<longleftrightarrow> pskip e = None))"

definition tree_ok :: "index_heap \<Rightarrow> bool" where
  "tree_ok H \<longleftrightarrow> index_ok H \<and> times_ok H \<and> work_ok H \<and> skips_ok H"

definition best_ok :: "index_heap \<Rightarrow> ptr option \<Rightarrow> bool" where
  "best_ok H b \<longleftrightarrow>
     (case b of None \<Rightarrow> H = Map.empty
      | Some b \<Rightarrow> \<exists>eb. H b = Some eb \<and> (\<forall>p e. H p = Some e \<longrightarrow> bn (nChainWork e) \<le> bn (nChainWork eb)))"

definition hashes_ok :: "index_heap \<Rightarrow> (uint256 \<rightharpoonup> ptr) \<Rightarrow> bool" where
  "hashes_ok H m \<longleftrightarrow> (\<forall>h p. m h = Some p \<longleftrightarrow> (\<exists>e. H p = Some e \<and> phashBlock e = h))"

definition blocks_ok :: "block_state \<Rightarrow> bool" where
  "blocks_ok s \<longleftrightarrow> tree_ok (entries s) \<and> best_ok (entries s) (pindexBestHeader s) \<and>
     hashes_ok (entries s) (m_block_index s) \<and> (\<forall>p \<ge> nextAddr s. entries s p = None)"

lemma index_ok_tree_eq:
  assumes t: "tree_eq H H'" and ok: "index_ok H"
  shows "index_ok H'"
  unfolding index_ok_def
proof (intro allI impI)
  fix p e'
  assume "H' p = Some e'"
  then obtain e where e: "H p = Some e" "pprev e' = pprev e" "pskip e' = pskip e" "nHeight e' = nHeight e"
    using tree_eqD [OF t] by blast
  have ent: "entry_ok H p e" using ok e(1) by (simp add: index_ok_def)
  have par: "\<exists>d'. H' q = Some d' \<and> nHeight d' = nHeight d" if "H q = Some d" for q d
    using tree_eqD [OF tree_eq_sym [OF t] that] by auto
  show "entry_ok H' p e'"
  proof (cases "pprev e")
    case None
    then show ?thesis using ent unfolding entry_ok_def e up_tree_eq [OF t] by auto
  next
    case (Some q)
    then obtain d where d: "H q = Some d" "nHeight e = nHeight d + 1" using ent by (auto simp: entry_ok_def)
    obtain d' where "H' q = Some d'" "nHeight d' = nHeight d" using par [OF d(1)] by blast
    then show ?thesis using ent e d Some by (simp add: entry_ok_def up_tree_eq [OF t])
  qed
qed

lemma parent_tree_eq:
  assumes "tree_eq H H'" "pprev e' = pprev e"
  shows "map_option tree_of (parent H' e') = map_option tree_of (parent H e)"
  using assms by (cases "pprev e") (auto simp: parent_def tree_eq_def)

lemma parent_cases_tree_eq:
  assumes t: "tree_eq H H'" and e: "pprev e' = pprev e"
  shows "(parent H e = None \<and> parent H' e' = None) \<or>
    (\<exists>d d'. parent H e = Some d \<and> parent H' e' = Some d' \<and> nTimeMax d' = nTimeMax d \<and> nChainWork d' = nChainWork d)"
  using parent_tree_eq [OF t e] by (cases "parent H e"; cases "parent H' e'") (auto simp: tree_of_def)

lemma tree_ok_tree_eq:
  assumes t: "tree_eq H H'" and ok: "tree_ok H"
  shows "tree_ok H'"
proof -
  have "times_ok H'"
    unfolding times_ok_parent
  proof (intro allI impI)
    fix p e'
    assume "H' p = Some e'"
    then obtain e where e: "H p = Some e" "pprev e' = pprev e" "nTimeMax e' = nTimeMax e" "biTime e' = biTime e"
      using tree_eqD [OF t] by blast
    then show "nTimeMax e' = (case parent H' e' of None \<Rightarrow> biTime e' | Some d \<Rightarrow> max (nTimeMax d) (biTime e'))"
      using parent_cases_tree_eq [OF t e(2)] ok times_okD [of H p e] by (auto simp: tree_ok_def)
  qed
  moreover have "work_ok H'"
    unfolding work_ok_def
  proof (intro allI impI)
    fix p e'
    assume "H' p = Some e'"
    then obtain e where e: "H p = Some e" "pprev e' = pprev e" "nChainWork e' = nChainWork e" "biBits e' = biBits e"
      using tree_eqD [OF t] by blast
    then show "length (nChainWork e') = WIDTH \<and> (\<exists>w. GetBlockProof (biBits e') = Inr w \<and>
       nChainWork e' = op_add (case parent H' e' of None \<Rightarrow> base_uint_of_u64 0 | Some d \<Rightarrow> nChainWork d) w)"
      using parent_cases_tree_eq [OF t e(2)] ok work_okD [of H p e] e(1) by (auto simp: tree_ok_def)
  qed
  moreover have "skips_ok H'"
    unfolding skips_ok_def
  proof (intro allI impI)
    fix p e'
    assume "H' p = Some e'"
    then obtain e where "H p = Some e" "pprev e' = pprev e" "pskip e' = pskip e" using tree_eqD [OF t] by blast
    then show "(pprev e' = None) = (pskip e' = None)" using ok by (simp add: tree_ok_def skips_ok_def)
  qed
  ultimately show ?thesis using ok index_ok_tree_eq [OF t] by (simp add: tree_ok_def)
qed

lemma best_ok_tree_eq:
  assumes t: "tree_eq H H'" and ok: "best_ok H b"
  shows "best_ok H' b"
proof (cases b)
  case None
  then have "H' p = None" for p using ok t by (auto simp: best_ok_def tree_eq_def)
  then show ?thesis using None by (auto simp: best_ok_def)
next
  case (Some q)
  then obtain eb where eb: "H q = Some eb" "\<forall>p e. H p = Some e \<longrightarrow> bn (nChainWork e) \<le> bn (nChainWork eb)"
    using ok by (auto simp: best_ok_def)
  obtain eb' where "H' q = Some eb'" "nChainWork eb = nChainWork eb'" using tree_eqD [OF tree_eq_sym [OF t] eb(1)] by auto
  moreover have "bn (nChainWork e') \<le> bn (nChainWork eb)" if "H' p = Some e'" for p e'
    using tree_eqD [OF t that] eb(2) by auto
  ultimately show ?thesis using Some by (auto simp: best_ok_def)
qed

lemma hashes_ok_tree_eq:
  assumes t: "tree_eq H H'" and ok: "hashes_ok H m"
  shows "hashes_ok H' m"
proof -
  have "(\<exists>e. H' p = Some e \<and> phashBlock e = h) \<longleftrightarrow> (\<exists>e. H p = Some e \<and> phashBlock e = h)" for p h
    using tree_eqD [OF t, of p] tree_eqD [OF tree_eq_sym [OF t], of p] by fastforce
  then show ?thesis using ok by (simp add: hashes_ok_def)
qed

lemma blocks_ok_tree_eq:
  assumes "tree_eq (entries s) (entries s')" "blocks_ok s" "pindexBestHeader s' = pindexBestHeader s"
    "m_block_index s' = m_block_index s" "nextAddr s' = nextAddr s"
  shows "blocks_ok s'"
proof -
  have "entries s' p = None" if "entries s p = None" for p
    using assms(1) that unfolding tree_eq_def by (metis map_option_is_None)
  then show ?thesis
    using assms tree_ok_tree_eq [OF assms(1)] best_ok_tree_eq [OF assms(1)] hashes_ok_tree_eq [OF assms(1)]
    by (simp add: blocks_ok_def)
qed

section \<open>New headers keep the index well-formed\<close>

lemma parent_insert: "index_ok H \<Longrightarrow> H p = None \<Longrightarrow> H r = Some c \<Longrightarrow> parent (H(p \<mapsto> e)) c = parent H c"
proof (cases "pprev c")
  case (Some q)
  assume "index_ok H" "H p = None" "H r = Some c"
  then show ?thesis using index_okD(3) [of H r c q] Some by (auto simp: parent_def)
qed (simp add: parent_def)

lemma tree_ok_insert:
  assumes ok: "tree_ok H" and p: "H p = None" and i: "index_ok (H(p \<mapsto> e))" and par: "parent (H(p \<mapsto> e)) e = prev" "pprev e = None \<longleftrightarrow> pskip e = None"
    and t: "nTimeMax e = (case prev of None \<Rightarrow> biTime e | Some d \<Rightarrow> max (nTimeMax d) (biTime e))"
    and w: "GetBlockProof (biBits e) = Inr w" "nChainWork e = op_add (case prev of None \<Rightarrow> base_uint_of_u64 0 | Some d \<Rightarrow> nChainWork d) w"
      "length (nChainWork e) = WIDTH"
  shows "tree_ok (H(p \<mapsto> e))"
proof -
  have iH: "index_ok H" using ok by (simp add: tree_ok_def)
  have old: "r \<noteq> p" "parent (H(p \<mapsto> e)) c = parent H c" if "H r = Some c" for r c
    using that p parent_insert [OF iH p that] by auto
  have "times_ok (H(p \<mapsto> e))"
    unfolding times_ok_parent
  proof (intro allI impI)
    fix r c
    assume "(H(p \<mapsto> e)) r = Some c"
    then consider "r = p" "c = e" | "H r = Some c" by (metis fun_upd_apply option.inject)
    then show "nTimeMax c = (case parent (H(p \<mapsto> e)) c of None \<Rightarrow> biTime c | Some d \<Rightarrow> max (nTimeMax d) (biTime c))"
    proof cases
      case 1
      show ?thesis unfolding 1 par(1) by (rule t)
    next
      case 2
      have "times_ok H" using ok by (simp add: tree_ok_def)
      then show ?thesis unfolding old(2) [OF 2] using 2 by (rule times_okD)
    qed
  qed
  moreover have "work_ok (H(p \<mapsto> e))"
    unfolding work_ok_def
  proof (intro allI impI)
    fix r c
    assume "(H(p \<mapsto> e)) r = Some c"
    then consider "r = p" "c = e" | "H r = Some c" by (metis fun_upd_apply option.inject)
    then show "length (nChainWork c) = WIDTH \<and> (\<exists>w. GetBlockProof (biBits c) = Inr w \<and>
       nChainWork c = op_add (case parent (H(p \<mapsto> e)) c of None \<Rightarrow> base_uint_of_u64 0 | Some d \<Rightarrow> nChainWork d) w)"
    proof cases
      case 1
      show ?thesis unfolding 1 par(1) using w by blast
    next
      case 2
      have "work_ok H" using ok by (simp add: tree_ok_def)
      then show ?thesis unfolding old(2) [OF 2] using 2 by (rule work_okD)
    qed
  qed
  moreover have "skips_ok (H(p \<mapsto> e))" using ok par(2) by (auto simp: tree_ok_def skips_ok_def)
  ultimately show ?thesis using i by (simp add: tree_ok_def)
qed

lemma RaiseValidity_keeps:
  assumes "RaiseValidity u e = Some (b, e')"
  shows "tree_of e' = tree_of e" "nTx e' = nTx e" "nChainTx e' = nChainTx e" "nSequenceId e' = nSequenceId e" "biPrevoutStake e' = biPrevoutStake e"
  using assms by (auto simp: RaiseValidity_def tree_of_def split: if_splits)

lemma RaiseValidity_levels:
  "RaiseValidity BLOCK_VALID_TREE e \<noteq> None" "RaiseValidity BLOCK_VALID_TRANSACTIONS e \<noteq> None"
proof -
  have "BLOCK_VALID_TREE AND NOT BLOCK_VALID_MASK = 0" "BLOCK_VALID_TRANSACTIONS AND NOT BLOCK_VALID_MASK = 0"
    unfolding block_status_defs by code_simp+
  then show "RaiseValidity BLOCK_VALID_TREE e \<noteq> None" "RaiseValidity BLOCK_VALID_TRANSACTIONS e \<noteq> None"
    by (auto simp: RaiseValidity_def)
qed

lemma GetBlockProof_Some: obtains w where "GetBlockProof c = Inr w" "length w = WIDTH"
  using GetBlockProof_ok [of c] by blast

lemma link_parent_ok:
  assumes ok: "index_ok H" "skips_ok H" and p: "H p = None" and m: "\<forall>q. m_block_index s (hashPrevBlock block) = Some q \<longrightarrow> H q \<noteq> None"
    and e: "entries s = H(p \<mapsto> e0)" "pprev e0 = None" "pskip e0 = None" "nHeight e0 = 0"
    and h: "\<forall>q d. m_block_index s (hashPrevBlock block) = Some q \<longrightarrow> H q = Some d \<longrightarrow> nHeight d + 1 < 2 ^ 31"
  shows "\<exists>e prev. link_parent s p block e0 = Some (prev, e) \<and> index_ok (H(p \<mapsto> e)) \<and> parent (H(p \<mapsto> e)) e = prev \<and>
    (pprev e = None \<longleftrightarrow> pskip e = None) \<and> pprev e = m_block_index s (hashPrevBlock block) \<and>
    nTx e = nTx e0 \<and> nChainTx e = nChainTx e0 \<and> nStatus e = nStatus e0 \<and> phashBlock e = phashBlock e0"
proof (cases "m_block_index s (hashPrevBlock block)")
  case None
  have "link_parent s p block e0 = Some (None, e0)" using None by (simp add: link_parent_def)
  moreover have "index_ok (H(p \<mapsto> e0))" using index_ok_insert_root [OF ok(1) p e(2,4,3)] .
  ultimately show ?thesis using e None by (auto simp: parent_def)
next
  case (Some q)
  obtain d where d: "H q = Some d" using m Some by blast
  have qp: "q \<noteq> p" using d p by auto
  define e1 where "e1 = e0\<lparr>pprev := Some q, nHeight := nHeight d + 1\<rparr>"
  let ?k = "up H (nat (nHeight d) - GetSkipHeight (nat (nHeight e1))) q"
  let ?e = "e1\<lparr>pskip := ?k\<rparr>"
  have e1: "pprev e1 = Some q" "nHeight e1 = nHeight d + 1" "pskip e1 = None" using e(3) by (simp_all add: e1_def)
  have i1: "index_ok (H(p \<mapsto> e1))" by (rule index_ok_insert_child [OF ok(1) p e1(1) d e1(2)]) (simp add: e1(3))
  have "BuildSkip (H(p \<mapsto> e1)) e1 = Some ?e"
    using BuildSkip_up [OF i1 e1(1) _ e1(2)] d qp by (simp add: up_insert [OF ok(1) p qp])
  then have "link_parent s p block e0 = Some (Some d, ?e)"
    using Some d qp h e(1) by (simp add: link_parent_def e1_def [symmetric])
  moreover have "index_ok (H(p \<mapsto> ?e))" by (rule index_ok_insert_child [OF ok(1) p, of _ q d]) (use e1 d in simp_all)
  moreover have "int (nat (nHeight d) - GetSkipHeight (nat (nHeight e1))) \<le> nHeight d"
    using index_okD(1) [OF ok(1) d] by linarith
  then have "?k \<noteq> None" using up_ex [OF ok(1) d] by auto
  moreover have "nTx ?e = nTx e0" "nChainTx ?e = nChainTx e0" "nStatus ?e = nStatus e0" "phashBlock ?e = phashBlock e0"
    by (simp_all add: e1_def)
  ultimately show ?thesis using e1 d qp Some by (intro exI [of _ ?e] exI [of _ "Some d"]) (auto simp: parent_def)
qed

lemma complete_entry_ok:
  assumes "nStatus e = 0"
  shows "\<exists>w x. GetBlockProof (biBits e) = Inr w \<and> length w = WIDTH \<and> complete_entry block hash prev e =
    Some (e\<lparr>nTimeMax := (case prev of None \<Rightarrow> biTime e | Some d \<Rightarrow> max (nTimeMax d) (biTime e)),
      nChainWork := op_add (case prev of None \<Rightarrow> base_uint_of_u64 0 | Some d \<Rightarrow> nChainWork d) w,
      nStakeModifier := x, nStatus := BLOCK_VALID_TREE\<rparr>)"
proof -
  obtain w where "GetBlockProof (biBits e) = Inr w" "length w = WIDTH" by (rule GetBlockProof_Some)
  moreover have "BLOCK_VALID_TREE AND NOT BLOCK_VALID_MASK = 0" "0 AND BLOCK_VALID_MASK < BLOCK_VALID_TREE"
    unfolding block_status_defs by code_simp+
  ultimately show ?thesis using assms by (auto simp: complete_entry_def RaiseValidity_def Let_def)
qed

lemma update_best_header_ok:
  assumes b: "best_ok H (pindexBestHeader s)" "H p = None" "work_ok H" and e: "length (nChainWork e) = WIDTH" and s: "entries s = H(p \<mapsto> e)"
  shows "\<exists>b. update_best_header p e s = Some (s\<lparr>pindexBestHeader := b\<rparr>) \<and> best_ok (H(p \<mapsto> e)) b"
proof (cases "pindexBestHeader s")
  case None
  then have "H = Map.empty" using b(1) by (simp add: best_ok_def)
  then show ?thesis using None by (intro exI [of _ "Some p"]) (simp add: best_ok_def update_best_header_def)
next
  case (Some q)
  then obtain eb where eb: "H q = Some eb" "\<forall>r d. H r = Some d \<longrightarrow> bn (nChainWork d) \<le> bn (nChainWork eb)"
    using b(1) by (auto simp: best_ok_def)
  have "length (nChainWork eb) = WIDTH" using work_okD [OF b(3) eb(1)] by simp
  then have lt: "op_lt (nChainWork eb) (nChainWork e) \<longleftrightarrow> bn (nChainWork eb) < bn (nChainWork e)" using e by simp
  have q: "q \<noteq> p" using eb(1) b(2) by auto
  have "update_best_header p e s = Some (s\<lparr>pindexBestHeader := if bn (nChainWork eb) < bn (nChainWork e) then Some p else Some q\<rparr>)"
    using Some q eb(1) s lt by (simp add: update_best_header_def)
  moreover have "best_ok (H(p \<mapsto> e)) (if bn (nChainWork eb) < bn (nChainWork e) then Some p else Some q)"
    using q eb by (fastforce simp: best_ok_def)
  ultimately show ?thesis by blast
qed

lemma AddToBlockIndex_new:
  assumes ok: "blocks_ok s" and new: "m_block_index s (block_GetHash block) = None" and loop: "hashPrevBlock block \<noteq> block_GetHash block"
    and h: "\<forall>q d. m_block_index s (hashPrevBlock block) = Some q \<longrightarrow> entries s q = Some d \<longrightarrow> nHeight d + 1 < 2 ^ 31"
  shows "\<exists>e s'. AddToBlockIndex block s = Some (nextAddr s, s') \<and> blocks_ok s' \<and> entries s' = (entries s)(nextAddr s \<mapsto> e) \<and>
    phashBlock e = block_GetHash block \<and> pprev e = m_block_index s (hashPrevBlock block) \<and> nTx e = 0 \<and> nChainTx e = 0 \<and>
    m_blocks_unlinked s' = m_blocks_unlinked s \<and> m_chain s' = m_chain s \<and> nStatus e = BLOCK_VALID_TREE \<and>
    nBlockSequenceId s' = nBlockSequenceId s \<and> setBlockIndexCandidates s' = setBlockIndexCandidates s \<and> pindexBestInvalid s' = pindexBestInvalid s"
proof -
  let ?p = "nextAddr s" and ?H = "entries s" and ?hash = "block_GetHash block"
  have t: "tree_ok ?H" "index_ok ?H" "skips_ok ?H" "?H ?p = None" "hashes_ok ?H (m_block_index s)" "best_ok ?H (pindexBestHeader s)"
    using ok by (simp_all add: blocks_ok_def tree_ok_def)
  define e0 where "e0 = (CBlockIndex_of block)\<lparr>nSequenceId := 0, phashBlock := ?hash\<rparr>"
  define s1 where "s1 = s\<lparr>nextAddr := ?p + 1, entries := ?H(?p \<mapsto> e0), m_block_index := (m_block_index s)(?hash \<mapsto> ?p)\<rparr>"
  define s2 where "s2 = (if bi_IsProofOfStake e0 then s1\<lparr>setStakeSeen := insert (biPrevoutStake e0, biTime e0) (setStakeSeen s1)\<rparr> else s1)"
  have e0: "pprev e0 = None" "pskip e0 = None" "nHeight e0 = 0" "nTx e0 = 0" "nChainTx e0 = 0" "nStatus e0 = 0" "phashBlock e0 = ?hash"
    by (simp_all add: e0_def CBlockIndex_of_def CBlockIndex_null_def)
  have s2: "entries s2 = ?H(?p \<mapsto> e0)" "m_block_index s2 (hashPrevBlock block) = m_block_index s (hashPrevBlock block)"
    "pindexBestHeader s2 = pindexBestHeader s" "m_block_index s2 = (m_block_index s)(?hash \<mapsto> ?p)" "nextAddr s2 = Suc ?p"
    "m_blocks_unlinked s2 = m_blocks_unlinked s" "m_chain s2 = m_chain s"
    "nBlockSequenceId s2 = nBlockSequenceId s" "setBlockIndexCandidates s2 = setBlockIndexCandidates s" "pindexBestInvalid s2 = pindexBestInvalid s"
    using loop by (simp_all add: s2_def s1_def)
  have m: "\<forall>q. m_block_index s (hashPrevBlock block) = Some q \<longrightarrow> ?H q \<noteq> None"
    using t(5) by (auto simp: hashes_ok_def)
  from link_parent_ok [where block = block, OF t(2,3,4) _ s2(1) e0(1-3), unfolded s2(2) e0(4-7), OF m h]
  obtain e prev where e: "link_parent s2 ?p block e0 = Some (prev, e)" "index_ok (?H(?p \<mapsto> e))" "parent (?H(?p \<mapsto> e)) e = prev"
    "pprev e = None \<longleftrightarrow> pskip e = None" "pprev e = m_block_index s (hashPrevBlock block)"
    "nTx e = 0" "nChainTx e = 0" "nStatus e = 0" "phashBlock e = ?hash"
    by (elim exE conjE)
  obtain w x where w: "GetBlockProof (biBits e) = Inr w" "length w = WIDTH" and c: "complete_entry block ?hash prev e =
    Some (e\<lparr>nTimeMax := (case prev of None \<Rightarrow> biTime e | Some d \<Rightarrow> max (nTimeMax d) (biTime e)),
      nChainWork := op_add (case prev of None \<Rightarrow> base_uint_of_u64 0 | Some d \<Rightarrow> nChainWork d) w,
      nStakeModifier := x, nStatus := BLOCK_VALID_TREE\<rparr>)" (is "_ = Some ?e3")
    using complete_entry_ok [OF e(8)] by blast
  define e3 where "e3 = ?e3"
  let ?H' = "?H(?p \<mapsto> e3)"
  have i: "index_ok ?H'"
  proof -
    have "index_ok ((?H(?p \<mapsto> e))(?p \<mapsto> e3))"
      by (rule index_ok_update [OF e(2), of _ e]) (simp_all add: same_place_def e3_def)
    then show ?thesis by simp
  qed
  have par': "parent (?H(?p \<mapsto> x)) y = parent ?H e" if "pprev y = pprev e" for x y
  proof (cases "pprev e")
    case (Some q)
    then have "?H q \<noteq> None" using m e(5) by simp
    then show ?thesis using that Some t(4) by (cases "q = ?p") (auto simp: parent_def)
  qed (use that in \<open>simp add: parent_def\<close>)
  then have prev: "prev = parent ?H e" using e(3) by simp
  have par: "parent ?H' e3 = prev" unfolding prev by (rule par') (simp add: e3_def)
  have len: "length (nChainWork e3) = WIDTH"
  proof (cases prev)
    case (Some d)
    then obtain q where "?H q = Some d" using prev by (auto simp: parent_def bind_eq_Some_conv)
    then have "length (nChainWork d) = WIDTH" using t(1) by (simp add: tree_ok_def work_ok_def)
    then show ?thesis using Some w(2) by (simp add: e3_def)
  qed (simp add: e3_def w(2))
  have tree: "tree_ok ?H'"
    by (rule tree_ok_insert [OF t(1,4) i par, where w = w]) (use e len w(1) in \<open>simp_all add: e3_def split: option.split\<close>)
  have ph: "phashBlock e3 = ?hash" using e by (simp add: e3_def)
  have hash: "hashes_ok ?H' ((m_block_index s)(?hash \<mapsto> ?p))"
    unfolding hashes_ok_def
  proof (intro allI)
    fix g q
    have "m_block_index s g \<noteq> Some ?p" "\<not> (\<exists>d. ?H q = Some d \<and> phashBlock d = ?hash)"
      using t(4,5) new unfolding hashes_ok_def by (metis option.distinct(1))+
    then show "((m_block_index s)(?hash \<mapsto> ?p)) g = Some q \<longleftrightarrow> (\<exists>d. ?H' q = Some d \<and> phashBlock d = g)"
      using t(5) ph by (auto simp: hashes_ok_def)
  qed
  obtain b where b: "update_best_header ?p e3 (s2\<lparr>entries := ?H'\<rparr>) = Some (s2\<lparr>entries := ?H', pindexBestHeader := b\<rparr>)" "best_ok ?H' b"
    using update_best_header_ok [of ?H "s2\<lparr>entries := ?H'\<rparr>" ?p e3] len t(1,4,6) s2(3) by (auto simp: tree_ok_def)
  define s' where "s' = s2\<lparr>entries := ?H', pindexBestHeader := b, setDirtyBlockIndex := insert ?p (setDirtyBlockIndex s2)\<rparr>"
  have "AddToBlockIndex block s = (case link_parent s2 ?p block e0 of None \<Rightarrow> None
     | Some (prev, e) \<Rightarrow> (case complete_entry block ?hash prev e of None \<Rightarrow> None
        | Some e \<Rightarrow> map_option (\<lambda>s. (?p, s\<lparr>setDirtyBlockIndex := insert ?p (setDirtyBlockIndex s)\<rparr>))
            (update_best_header ?p e (s2\<lparr>entries := (entries s2)(?p \<mapsto> e)\<rparr>))))"
    unfolding AddToBlockIndex_def Let_def new option.case s2_def s1_def e0_def by (rule refl)
  then have "AddToBlockIndex block s = Some (?p, s')"
    using e(1) c b(1) s2(1) by (simp add: e3_def [symmetric] s'_def)
  moreover have "blocks_ok s'"
    using tree b(2) hash ok s2 by (simp add: blocks_ok_def s'_def)
  moreover have "entries s' = ?H'" "m_blocks_unlinked s' = m_blocks_unlinked s" "m_chain s' = m_chain s" "nBlockSequenceId s' = nBlockSequenceId s"
    "setBlockIndexCandidates s' = setBlockIndexCandidates s" "pindexBestInvalid s' = pindexBestInvalid s" using s2 by (simp_all add: s'_def)
  moreover have "phashBlock e3 = ?hash" "pprev e3 = m_block_index s (hashPrevBlock block)" "nTx e3 = 0" "nChainTx e3 = 0" "nStatus e3 = BLOCK_VALID_TREE"
    using e by (simp_all add: e3_def)
  ultimately show ?thesis by blast
qed

section \<open>The other operations keep the tree\<close>

definition frame :: "block_state \<Rightarrow> block_state \<Rightarrow> bool" where
  "frame s s' \<longleftrightarrow> tree_eq (entries s) (entries s') \<and> pindexBestHeader s' = pindexBestHeader s \<and>
     m_block_index s' = m_block_index s \<and> nextAddr s' = nextAddr s \<and> m_chain s' = m_chain s"

lemma frame_refl [simp]: "frame s s"
  by (simp add: frame_def)

lemma frame_trans: "frame s s' \<Longrightarrow> frame s' s'' \<Longrightarrow> frame s s''"
  using tree_eq_trans by (auto simp: frame_def)

lemma frame_blocks_ok: "frame s s' \<Longrightarrow> blocks_ok s \<Longrightarrow> blocks_ok s'"
  using blocks_ok_tree_eq by (auto simp: frame_def)

lemma frame_update:
  "entries s p = Some e \<Longrightarrow> tree_of e' = tree_of e \<Longrightarrow> entries s' = (entries s)(p \<mapsto> e') \<Longrightarrow> pindexBestHeader s' = pindexBestHeader s \<Longrightarrow>
   m_block_index s' = m_block_index s \<Longrightarrow> nextAddr s' = nextAddr s \<Longrightarrow> m_chain s' = m_chain s \<Longrightarrow> frame s s'"
  by (simp add: frame_def tree_eq_update)

lemma link_block_cases:
  assumes "link_block p s = Some s'"
  obtains e below cs where "entries s p = Some e" "chain_tx_below (entries s) e = Some below"
    "s' = s\<lparr>entries := (entries s)(p \<mapsto> e\<lparr>nChainTx := below + nTx e, nSequenceId := nBlockSequenceId s\<rparr>),
       nBlockSequenceId := nBlockSequenceId s + 1, setBlockIndexCandidates := cs\<rparr>"
proof -
  obtain e where e: "entries s p = Some e" using assms by (cases "entries s p") (auto simp: link_block_def)
  obtain below where b: "chain_tx_below (entries s) e = Some below"
    using assms e by (cases "chain_tx_below (entries s) e") (auto simp: link_block_def)
  have n: "\<not> nBlockSequenceId s + 1 \<ge> 2 ^ 31" using assms e b by (auto simp: link_block_def)
  show ?thesis using assms e b n by (auto simp: link_block_def Let_def intro: that [OF e b])
qed

lemma link_block_frame:
  assumes "link_block p s = Some s'"
  shows "frame s s'"
  by (rule link_block_cases [OF assms], rule frame_update, assumption) (simp_all add: tree_of_def)

lemma link_queue_frame: "link_queue q s = Some s' \<Longrightarrow> frame s s'"
proof (induction q s rule: link_queue.induct)
  case (2 p queue s)
  then obtain s1 where s1: "link_block p s = Some s1" by (auto split: option.splits)
  have "frame s1 (s1\<lparr>m_blocks_unlinked := filter (\<lambda>pq. fst pq \<noteq> p) (m_blocks_unlinked s1)\<rparr>)" by (simp add: frame_def)
  moreover have "frame (s1\<lparr>m_blocks_unlinked := filter (\<lambda>pq. fst pq \<noteq> p) (m_blocks_unlinked s1)\<rparr>) s'"
    using "2.IH" [OF s1] "2.prems" s1 by simp
  ultimately show ?case using link_block_frame [OF s1] frame_trans by blast
qed simp

lemma receive_entry_Some:
  assumes "receive_entry H seg block pos e = Some e'"
  shows "tree_of e' = tree_of e" "nTx e' = of_nat (length (vtx block))" "nChainTx e' = 0"
  using assms RaiseValidity_keeps
  by (auto simp: receive_entry_def Let_def tree_of_def split: option.splits if_splits)

lemma receive_link_frame: "receive_link p e s = Some s' \<Longrightarrow> frame s s'"
  by (auto simp: receive_link_def split: option.splits if_splits dest: link_queue_frame simp del: link_queue.simps) (simp_all add: frame_def)

lemma ReceivedBlockTransactions_cases:
  assumes "ReceivedBlockTransactions seg block p pos s = Some s'"
  obtains e e' where "entries s p = Some e" "receive_entry (entries s) seg block pos e = Some e'"
    "receive_link p e' (s\<lparr>entries := (entries s)(p \<mapsto> e'), setDirtyBlockIndex := insert p (setDirtyBlockIndex s)\<rparr>) = Some s'"
  using assms by (auto simp: ReceivedBlockTransactions_def split: option.splits)

lemma ReceivedBlockTransactions_frame:
  assumes "ReceivedBlockTransactions seg block p pos s = Some s'"
  shows "frame s s'"
proof -
  obtain e e' where e: "entries s p = Some e" "receive_entry (entries s) seg block pos e = Some e'"
    "receive_link p e' (s\<lparr>entries := (entries s)(p \<mapsto> e'), setDirtyBlockIndex := insert p (setDirtyBlockIndex s)\<rparr>) = Some s'"
    by (rule ReceivedBlockTransactions_cases [OF assms])
  show ?thesis
    by (rule frame_trans [OF frame_update [OF e(1) receive_entry_Some(1) [OF e(2)]] receive_link_frame [OF e(3)]]) simp_all
qed

lemma InvalidChainFound_frame: "InvalidChainFound p s = Some s' \<Longrightarrow> frame s s'"
  by (auto simp: InvalidChainFound_def frame_def split: option.splits if_splits)

lemma InvalidBlockFound_frame:
  assumes "InvalidBlockFound p mutated s = Some s'"
  shows "frame s s'"
proof (cases mutated)
  case False
  then obtain e where e: "entries s p = Some e" "InvalidChainFound p
      (s\<lparr>entries := (entries s)(p \<mapsto> e\<lparr>nStatus := nStatus e OR BLOCK_FAILED_VALID\<rparr>),
         m_failed_blocks := insert p (m_failed_blocks s), setDirtyBlockIndex := insert p (setDirtyBlockIndex s),
         setBlockIndexCandidates := candidates_erase p (setBlockIndexCandidates s)\<rparr>) = Some s'"
    using assms by (auto simp: InvalidBlockFound_def split: option.splits)
  show ?thesis
    by (rule frame_trans [OF frame_update [OF e(1)] InvalidChainFound_frame [OF e(2)]]) (simp_all add: tree_of_def)
qed (use assms in \<open>simp add: InvalidBlockFound_def\<close>)

lemma mark_best_invalid_frame: "mark_best_invalid f p s = Some s' \<Longrightarrow> frame s s'"
  by (auto simp: mark_best_invalid_def frame_def split: option.splits if_splits)

lemma remove_chain_frame: "remove_chain t failed f s = Some s' \<Longrightarrow> frame s s'"
proof (erule remove_chain.raw_induct [rotated], goal_cases)
  case (1 rec t failed f s s')
  show ?case
  proof (cases "f = t")
    case False
    then obtain e q where e: "entries s f = Some e" "pprev e = Some q"
      and r: "rec t failed q ((if failed then s\<lparr>entries := (entries s)(f \<mapsto> e\<lparr>nStatus := nStatus e OR BLOCK_FAILED_CHILD\<rparr>)\<rparr>
          else s\<lparr>m_blocks_unlinked := m_blocks_unlinked s @ [(q, f)]\<rparr>)
            \<lparr>setBlockIndexCandidates := candidates_erase f (setBlockIndexCandidates s)\<rparr>) = Some s'"
      using "1"(2) by (auto simp: Let_def split: option.splits if_splits)
    have "frame s ((if failed then s\<lparr>entries := (entries s)(f \<mapsto> e\<lparr>nStatus := nStatus e OR BLOCK_FAILED_CHILD\<rparr>)\<rparr>
          else s\<lparr>m_blocks_unlinked := m_blocks_unlinked s @ [(q, f)]\<rparr>)
            \<lparr>setBlockIndexCandidates := candidates_erase f (setBlockIndexCandidates s)\<rparr>)"
      using e(1) by (auto simp: frame_def tree_of_def intro!: tree_eq_update)
    then show ?thesis using "1"(1) [OF r] frame_trans by blast
  qed (use "1"(2) in simp)
qed

lemma FindMostWorkChain_frame: "FindMostWorkChain s = Some r \<Longrightarrow> frame s (snd r)"
proof (erule FindMostWorkChain.raw_induct [rotated], goal_cases)
  case (1 rec s r)
  show ?case
  proof (cases "setBlockIndexCandidates s")
    case (Cons c cs)
    obtain n where n: "best_of (entries s) cs c = Some n" using "1"(2) Cons by (auto split: option.splits)
    obtain x where x: "test_loop (entries s) (m_chain s) (Some n) = Some x" using "1"(2) Cons n by (auto split: option.splits)
    show ?thesis
    proof (cases x)
      case (Some tf)
      obtain s1 where s1: "mark_best_invalid (snd tf) n s = Some s1" using "1"(2) Cons n x Some by (auto split: option.splits prod.splits)
      obtain s2 where s2: "remove_chain (fst tf) (snd tf) n s1 = Some s2"
        using "1"(2) Cons n x Some s1 by (auto split: option.splits prod.splits)
      have "rec (s2\<lparr>setBlockIndexCandidates := candidates_erase (fst tf) (setBlockIndexCandidates s2)\<rparr>) = Some r"
        using "1"(2) Cons n x Some s1 s2 by (simp split: prod.splits)
      then have "frame (s2\<lparr>setBlockIndexCandidates := candidates_erase (fst tf) (setBlockIndexCandidates s2)\<rparr>) (snd r)"
        by (rule "1"(1))
      then have "frame s2 (snd r)" by (simp add: frame_def)
      then show ?thesis using mark_best_invalid_frame [OF s1] remove_chain_frame [OF s2] frame_trans by blast
    qed (use "1"(2) Cons n x in auto)
  qed (use "1"(2) in auto)
qed

lemma PruneBlockIndexCandidates_frame: "PruneBlockIndexCandidates s = Some s' \<Longrightarrow> frame s s'"
  by (auto simp: PruneBlockIndexCandidates_def Let_def frame_def split: option.splits if_splits)

section \<open>Reachable states\<close>

definition no_blocks :: block_state where
  "no_blocks = \<lparr>entries = Map.empty, nextAddr = 0, m_block_index = Map.empty, m_blocks_unlinked = [], m_failed_blocks = {},
     setBlockIndexCandidates = [], setDirtyBlockIndex = {}, setStakeSeen = {}, pindexBestHeader = None, pindexBestInvalid = None,
     nBlockSequenceId = 1, m_chain = []\<rparr>"

text \<open>
  The operations in any order.  A header must not contain its own hash as that of its parent, and
  the tip is set to a block of the index.
\<close>

inductive index_step :: "block_state \<Rightarrow> block_state \<Rightarrow> bool" where
  add: "AddToBlockIndex block s = Some (p, s') \<Longrightarrow> hashPrevBlock block \<noteq> block_GetHash block \<Longrightarrow> index_step s s'"
| receive: "ReceivedBlockTransactions seg block p pos s = Some s' \<Longrightarrow> index_step s s'"
| invalid: "InvalidBlockFound p mutated s = Some s' \<Longrightarrow> index_step s s'"
| most_work: "FindMostWorkChain s = Some (r, s') \<Longrightarrow> index_step s s'"
| prune: "PruneBlockIndexCandidates s = Some s' \<Longrightarrow> index_step s s'"
| tip: "entries s p \<noteq> None \<Longrightarrow> SetTip (entries s) (Some p) (m_chain s) = Some v \<Longrightarrow> index_step s (s\<lparr>m_chain := v\<rparr>)"

inductive index_reachable :: "block_state \<Rightarrow> bool" where
  init: "index_reachable no_blocks"
| step: "index_reachable s \<Longrightarrow> index_step s s' \<Longrightarrow> index_reachable s'"

lemma chain_ok_tree_eq:
  assumes t: "tree_eq H H'" and c: "chain_ok H v"
  shows "chain_ok H' v"
  unfolding chain_ok_def
proof (intro allI impI)
  fix i
  assume "i < length v"
  then obtain p e where e: "v ! i = Some p" "H p = Some e" "nHeight e = int i" "0 < i \<Longrightarrow> pprev e = v ! (i - 1)"
    using chain_okD [OF c] by metis
  obtain e' where "H' p = Some e'" "nHeight e' = nHeight e" "pprev e' = pprev e"
    using tree_eqD [OF tree_eq_sym [OF t] e(2)] by auto
  then show "\<exists>p e. v ! i = Some p \<and> H' p = Some e \<and> nHeight e = int i \<and> (0 < i \<longrightarrow> pprev e = v ! (i - 1))"
    using e by auto
qed

lemma chain_ok_insert: "chain_ok H v \<Longrightarrow> H p = None \<Longrightarrow> chain_ok (H(p \<mapsto> e)) v"
  unfolding chain_ok_def by (metis fun_upd_other option.distinct(1))

lemma AddToBlockIndex_bound:
  assumes "AddToBlockIndex block s = Some r" "m_block_index s (block_GetHash block) = None" "hashPrevBlock block \<noteq> block_GetHash block"
    "m_block_index s (hashPrevBlock block) = Some q" "entries s q = Some d" "entries s (nextAddr s) = None"
  shows "nHeight d + 1 < 2 ^ 31"
proof (rule ccontr)
  assume n: "\<not> nHeight d + 1 < 2 ^ 31"
  have "q \<noteq> nextAddr s" using assms(5,6) by auto
  then have "link_parent s1 (nextAddr s) block e = None"
    if "m_block_index s1 (hashPrevBlock block) = Some q" "entries s1 q = Some d" for s1 e
    using that n by (simp add: link_parent_def)
  then show False
    using assms(1-5) \<open>q \<noteq> nextAddr s\<close> by (simp add: AddToBlockIndex_def Let_def split: if_splits)
qed

lemma AddToBlockIndex_step:
  assumes ok: "blocks_ok s" and a: "AddToBlockIndex block s = Some (p, s')" and loop: "hashPrevBlock block \<noteq> block_GetHash block"
  shows "blocks_ok s' \<and> (s' = s \<or> (\<exists>e. entries s (nextAddr s) = None \<and> entries s' = (entries s)(nextAddr s \<mapsto> e) \<and> m_chain s' = m_chain s))"
proof (cases "m_block_index s (block_GetHash block)")
  case None
  have n: "entries s (nextAddr s) = None" using ok by (simp add: blocks_ok_def)
  have "\<forall>q d. m_block_index s (hashPrevBlock block) = Some q \<longrightarrow> entries s q = Some d \<longrightarrow> nHeight d + 1 < 2 ^ 31"
    using AddToBlockIndex_bound [OF a None loop _ _ n] by blast
  then obtain e s'' where "AddToBlockIndex block s = Some (nextAddr s, s'')" "blocks_ok s''" "entries s'' = (entries s)(nextAddr s \<mapsto> e)" "m_chain s'' = m_chain s"
    using AddToBlockIndex_new [OF ok None loop] by auto
  then show ?thesis using a n by auto
qed (use ok a in \<open>simp add: AddToBlockIndex_def\<close>)

lemma index_step_ok:
  assumes "index_step s s'" "blocks_ok s \<and> chain_ok (entries s) (m_chain s)"
  shows "blocks_ok s' \<and> chain_ok (entries s') (m_chain s')"
proof -
  have f: "blocks_ok s' \<and> chain_ok (entries s') (m_chain s')" if "frame s s'"
    using that assms(2) frame_blocks_ok chain_ok_tree_eq by (auto simp: frame_def)
  show ?thesis
    using assms(1)
  proof cases
    case (add block p)
    then show ?thesis using AddToBlockIndex_step [of s block p s'] assms(2) chain_ok_insert by auto
  next
    case (tip p v)
    then obtain e where e: "entries s p = Some e" by auto
    have "index_ok (entries s)" using assms(2) by (simp add: blocks_ok_def tree_ok_def)
    then have "chain_ok (entries s) v" using SetTip_ok [of "entries s" "m_chain s" p e] assms(2) e tip by auto
    then show ?thesis using assms(2) tip by (simp add: blocks_ok_def)
  next
    case (most_work r)
    then show ?thesis using FindMostWorkChain_frame f by fastforce
  qed (use f ReceivedBlockTransactions_frame InvalidBlockFound_frame PruneBlockIndexCandidates_frame in blast)+
qed

lemma no_blocks_ok: "blocks_ok no_blocks \<and> chain_ok (entries no_blocks) (m_chain no_blocks)"
  by (simp add: no_blocks_def blocks_ok_def tree_ok_def index_ok_def times_ok_def work_ok_def skips_ok_def best_ok_def hashes_ok_def chain_ok_def)

lemma index_reachable_ok: "index_reachable s \<Longrightarrow> blocks_ok s \<and> chain_ok (entries s) (m_chain s)"
  by (induction rule: index_reachable.induct) (use no_blocks_ok index_step_ok in blast)+

lemma genesis_added:
  "\<exists>s e. index_reachable s \<and> entries s = [0 \<mapsto> e] \<and> pprev e = None \<and> nHeight e = 0 \<and> nTx e = 0 \<and> nChainTx e = 0 \<and> m_chain s = [] \<and>
     m_blocks_unlinked s = [] \<and> nBlockSequenceId s = 1 \<and> setBlockIndexCandidates s = [] \<and> pindexBestInvalid s = None \<and> nStatus e = BLOCK_VALID_TREE"
proof -
  let ?b = "CBlockHeader_null\<lparr>hashPrevBlock := []\<rparr>"
  have ne: "hashPrevBlock ?b \<noteq> block_GetHash ?b"
    by (metis CBlockHeaderBase.select_convs(2) CBlockHeaderBase.update_convs(2) block_GetHash_def length_Hash(3) list.size(3) zero_neq_numeral
      CBlockHeaderBase.surjective)
  obtain e s where a: "AddToBlockIndex ?b no_blocks = Some (0, s)" "entries s = [0 \<mapsto> e]" "pprev e = None" "nTx e = 0" "nChainTx e = 0"
    "m_chain s = []" "m_blocks_unlinked s = []" "nBlockSequenceId s = 1" "setBlockIndexCandidates s = []" "pindexBestInvalid s = None"
    "nStatus e = BLOCK_VALID_TREE"
    using AddToBlockIndex_new [of no_blocks ?b] no_blocks_ok ne by (auto simp: no_blocks_def)
  have r: "index_reachable s" by (rule index_reachable.step [OF index_reachable.init index_step.add [OF a(1) ne]])
  have "index_ok (entries s)" using index_reachable_ok [OF r] by (simp add: blocks_ok_def tree_ok_def)
  then have "nHeight e = 0" using a(2,3) index_okD(2) by auto
  then show ?thesis using r a by blast
qed



section \<open>Downloaded branches\<close>

text \<open>The number of transactions on a branch.\<close>

definition branch_txs :: "index_heap \<Rightarrow> ptr \<Rightarrow> nat" where
  "branch_txs H p = (\<Sum>j \<le> nat (nHeight (the (H p))). unat (nTx (the (H (the (up H j p))))))"

lemma branch_txs_rec:
  assumes ok: "index_ok H" and p: "H p = Some e"
  shows "branch_txs H p = unat (nTx e) + (case pprev e of None \<Rightarrow> 0 | Some q \<Rightarrow> branch_txs H q)"
proof (cases "pprev e")
  case None
  then have "nHeight e = 0" using index_okD(2) [OF ok p] by blast
  then show ?thesis using None p by (simp add: branch_txs_def)
next
  case (Some q)
  then obtain d where d: "H q = Some d" "nHeight e = nHeight d + 1" using index_okD(3) [OF ok p] by blast
  have n: "nat (nHeight e) = Suc (nat (nHeight d))" using d(2) index_okD(1) [OF ok d(1)] by simp
  have "branch_txs H p = unat (nTx e) + (\<Sum>j \<le> nat (nHeight d). unat (nTx (the (H (the (up H (Suc j) p))))))"
    by (simp only: branch_txs_def p option.sel n sum.atMost_Suc_shift up.simps(1))
  moreover have "up H (Suc j) p = up H j q" for j using p Some by simp
  ultimately show ?thesis using Some d(1) by (simp add: branch_txs_def)
qed

definition same_txs :: "index_heap \<Rightarrow> index_heap \<Rightarrow> bool" where
  "same_txs H H' \<longleftrightarrow> tree_eq H H' \<and> (\<forall>p. map_option nTx (H' p) = map_option nTx (H p))"

lemma branch_txs_same:
  assumes "same_txs H H'" "index_ok H" "H p = Some e"
  shows "branch_txs H' p = branch_txs H p"
proof -
  have t: "tree_eq H H'" using assms(1) by (simp add: same_txs_def)
  obtain e' where e': "H' p = Some e'" "nHeight e' = nHeight e" using tree_eqD [OF tree_eq_sym [OF t] assms(3)] by auto
  have "nTx (the (H' (the (up H j p)))) = nTx (the (H (the (up H j p))))" if j: "j \<le> nat (nHeight e)" for j
  proof -
    have "int j \<le> nHeight e" using j index_okD(1) [OF assms(2,3)] by linarith
    then obtain q d where q: "up H j p = Some q" "H q = Some d" using up_ex [OF assms(2,3)] by blast
    have "map_option nTx (H' q) = Some (nTx d)" using assms(1) q(2) by (simp add: same_txs_def)
    then show ?thesis using q by auto
  qed
  then show ?thesis using e' assms(3) by (simp add: branch_txs_def up_tree_eq [OF t])
qed

definition below_linked :: "index_heap \<Rightarrow> CBlockIndex \<Rightarrow> bool" where
  "below_linked H e \<longleftrightarrow> (case parent H e of None \<Rightarrow> True | Some d \<Rightarrow> nChainTx d \<noteq> 0)"

text \<open>
  Blocks are counted as linked exactly if they have data and their parents are linked, apart from
  those waiting in the queue \<open>Q\<close>; blocks with data whose parents are not linked are in the map \<open>U\<close>
  of unlinked blocks.
\<close>

definition queue_ok :: "index_heap \<Rightarrow> (ptr \<times> ptr) list \<Rightarrow> ptr list \<Rightarrow> bool" where
  "queue_ok H U Q \<longleftrightarrow>
     (\<forall>p e. H p = Some e \<longrightarrow> p \<notin> set Q \<longrightarrow> (nChainTx e \<noteq> 0 \<longleftrightarrow> nTx e \<noteq> 0 \<and> below_linked H e)) \<and>
     (\<forall>p \<in> set Q. \<exists>e. H p = Some e \<and> nTx e \<noteq> 0 \<and> below_linked H e) \<and>
     (\<forall>p e q. H p = Some e \<longrightarrow> p \<notin> set Q \<longrightarrow> nTx e \<noteq> 0 \<longrightarrow> \<not> below_linked H e \<longrightarrow> pprev e = Some q \<longrightarrow> (q, p) \<in> set U) \<and>
     (\<forall>q p. (q, p) \<in> set U \<longrightarrow> (\<exists>e. H p = Some e \<and> pprev e = Some q \<and> nTx e \<noteq> 0)) \<and>
     (\<forall>p e. H p = Some e \<longrightarrow> nChainTx e \<noteq> 0 \<longrightarrow> unat (nChainTx e) = branch_txs H p)"

definition txs_bounded :: "index_heap \<Rightarrow> bool" where
  "txs_bounded H \<longleftrightarrow> (\<forall>p e. H p = Some e \<longrightarrow> branch_txs H p < 2 ^ 32)"

lemma queue_okD:
  assumes "queue_ok H U Q"
  shows "H p = Some e \<Longrightarrow> p \<notin> set Q \<Longrightarrow> nChainTx e \<noteq> 0 \<longleftrightarrow> nTx e \<noteq> 0 \<and> below_linked H e"
    "p \<in> set Q \<Longrightarrow> \<exists>e. H p = Some e \<and> nTx e \<noteq> 0 \<and> below_linked H e"
    "H p = Some e \<Longrightarrow> p \<notin> set Q \<Longrightarrow> nTx e \<noteq> 0 \<Longrightarrow> \<not> below_linked H e \<Longrightarrow> pprev e = Some q \<Longrightarrow> (q, p) \<in> set U"
    "(q, p) \<in> set U \<Longrightarrow> \<exists>e. H p = Some e \<and> pprev e = Some q \<and> nTx e \<noteq> 0"
    "H p = Some e \<Longrightarrow> nChainTx e \<noteq> 0 \<Longrightarrow> unat (nChainTx e) = branch_txs H p"
  using assms unfolding queue_ok_def by blast+

text \<open>Linking one block.\<close>

lemma chain_tx_sum:
  assumes ok: "index_ok H" and q: "queue_ok H U Q" and b: "txs_bounded H" and p: "H p = Some e" "nTx e \<noteq> 0" "below_linked H e"
    and c: "chain_tx_below H e = Some below"
  shows "unat (below + nTx e) = branch_txs H p" "below + nTx e \<noteq> 0"
proof -
  have "unat below = (case pprev e of None \<Rightarrow> 0 | Some q \<Rightarrow> branch_txs H q)"
  proof (cases "pprev e")
    case (Some r)
    then obtain d where "H r = Some d" "below = nChainTx d" using c by (auto simp: chain_tx_below_def)
    then show ?thesis using Some p(3) queue_okD(5) [OF q] by (simp add: below_linked_def parent_def)
  qed (use c in \<open>simp add: chain_tx_below_def\<close>)
  then have s: "unat below + unat (nTx e) = branch_txs H p" using branch_txs_rec [OF ok p(1)] by simp
  then have "unat below + unat (nTx e) < 2 ^ 32" using b p(1) by (simp add: txs_bounded_def)
  then show u: "unat (below + nTx e) = branch_txs H p" using s by (simp add: unat_word_ariths)
  have "unat (nTx e) \<noteq> 0" using p(2) by (simp add: unat_eq_0)
  then show "below + nTx e \<noteq> 0" using u s by (metis add_is_0 unat_0)
qed

lemma queue_step:
  assumes ok: "index_ok H" and q: "queue_ok H U (p # Q)" and b: "txs_bounded H" and p: "H p = Some e"
    and e': "same_txs H (H(p \<mapsto> e'))" "nTx e' = nTx e" "pprev e' = pprev e" "nChainTx e' \<noteq> 0" "unat (nChainTx e') = branch_txs H p"
  shows "queue_ok (H(p \<mapsto> e')) (filter (\<lambda>pq. fst pq \<noteq> p) U) (Q @ map snd (filter (\<lambda>pq. fst pq = p) U))"
proof -
  let ?H = "H(p \<mapsto> e')" and ?Q = "Q @ map snd (filter (\<lambda>pq. fst pq = p) U)"
  have pe: "nTx e \<noteq> 0" "below_linked H e" using queue_okD(2) [OF q, of p] p by auto
  have par: "below_linked ?H c \<longleftrightarrow> pprev c = Some p \<or> below_linked H c" for c
    using e'(4) by (auto simp: below_linked_def parent_def split: option.splits bind_splits)
  have bl': "below_linked H e'" using pe(2) e'(3) by (simp add: below_linked_def parent_def)
  have npp: "pprev e \<noteq> Some p" using index_okD(3) [OF ok p] p by auto
  have Q: "r \<in> set ?Q \<longleftrightarrow> r \<in> set Q \<or> (p, r) \<in> set U" for r by force
  show ?thesis
    unfolding queue_ok_def
  proof (intro conjI allI impI ballI)
    fix r c
    assume r: "?H r = Some c" "r \<notin> set ?Q"
    show "nChainTx c \<noteq> 0 \<longleftrightarrow> nTx c \<noteq> 0 \<and> below_linked ?H c"
    proof (cases "r = p")
      case True
      then have "c = e'" using r(1) by simp
      then show ?thesis using e' pe par [of e'] npp by (simp add: below_linked_def parent_def)
    next
      case False
      then have c: "H r = Some c" "r \<notin> set (p # Q)" using r Q by auto
      have "below_linked ?H c \<longleftrightarrow> below_linked H c" if "nTx c \<noteq> 0"
        using queue_okD(3) [OF q c that, of p] r(2) Q par [of c] by blast
      then show ?thesis using queue_okD(1) [OF q c] by blast
    qed
  next
    fix r
    assume "r \<in> set ?Q"
    then consider "r \<in> set Q" | "(p, r) \<in> set U" using Q by blast
    then show "\<exists>c. ?H r = Some c \<and> nTx c \<noteq> 0 \<and> below_linked ?H c"
    proof cases
      case 1
      then obtain c where "H r = Some c" "nTx c \<noteq> 0" "below_linked H c" using queue_okD(2) [OF q, of r] by auto
      then show ?thesis using p e'(2,3) par [of c] par [of e'] npp by (cases "r = p") (auto simp: below_linked_def parent_def)
    next
      case 2
      then obtain c where "H r = Some c" "nTx c \<noteq> 0" "pprev c = Some p" using queue_okD(4) [OF q] by blast
      then show ?thesis using par [of c] npp p by (cases "r = p") auto
    qed
  next
    fix r c s
    assume r: "?H r = Some c" "r \<notin> set ?Q" "nTx c \<noteq> 0" "\<not> below_linked ?H c" "pprev c = Some s"
    have "r \<noteq> p" using r(1,4) bl' par [of c] by auto
    then have "(s, r) \<in> set U" using queue_okD(3) [OF q, of r c s] r Q par [of c] by auto
    then show "(s, r) \<in> set (filter (\<lambda>pq. fst pq \<noteq> p) U)" using r(4,5) par [of c] by auto
  next
    fix s r
    assume "(s, r) \<in> set (filter (\<lambda>pq. fst pq \<noteq> p) U)"
    then obtain c where "H r = Some c" "pprev c = Some s" "nTx c \<noteq> 0" using queue_okD(4) [OF q] by auto
    then show "\<exists>c. ?H r = Some c \<and> pprev c = Some s \<and> nTx c \<noteq> 0" using p e'(2,3) by (cases "r = p") auto
  next
    fix r c
    assume r: "?H r = Some c" "nChainTx c \<noteq> 0"
    have "H r \<noteq> None" using r(1) p by (auto split: if_splits)
    then have "branch_txs ?H r = branch_txs H r" using branch_txs_same [OF e'(1) ok] by blast
    then show "unat (nChainTx c) = branch_txs ?H r" using r e'(5) queue_okD(5) [OF q] by (cases "r = p") auto
  qed
qed

lemma same_txs_refl [simp]: "same_txs H H"
  by (simp add: same_txs_def)

lemma same_txs_trans: "same_txs H H' \<Longrightarrow> same_txs H' H'' \<Longrightarrow> same_txs H H''"
  using tree_eq_trans by (auto simp: same_txs_def)

lemma same_txs_update: "H p = Some e \<Longrightarrow> tree_of e' = tree_of e \<Longrightarrow> nTx e' = nTx e \<Longrightarrow> same_txs H (H(p \<mapsto> e'))"
  by (simp add: same_txs_def tree_eq_update)

lemma txs_bounded_same:
  assumes t: "same_txs H H'" and ok: "index_ok H" and b: "txs_bounded H"
  shows "txs_bounded H'"
  unfolding txs_bounded_def
proof (intro allI impI)
  fix p e'
  assume "H' p = Some e'"
  then obtain e where "H p = Some e" using t tree_eqD [of H H' p e'] by (auto simp: same_txs_def)
  then show "branch_txs H' p < 2 ^ 32" using branch_txs_same [OF t ok] b by (simp add: txs_bounded_def)
qed

lemma competes_with_tip_Some:
  assumes "chain_ok (entries s) (m_chain s)" "entries s p = Some e"
  shows "\<exists>c. competes_with_tip p s = Some c"
proof (cases "chain_Tip (m_chain s)")
  case (Some t)
  then have l: "length (m_chain s) - 1 < length (m_chain s)" "m_chain s ! (length (m_chain s) - 1) = Some t"
    by (auto simp: chain_Tip_def split: if_splits)
  obtain d where "entries s t = Some d" using chain_ex [OF assms(1) l] by blast
  then show ?thesis using Some assms(2) by (simp add: competes_with_tip_def CBlockIndexWorkComparator_def)
qed (auto simp: competes_with_tip_def)

lemma link_block_ok:
  assumes ok: "index_ok (entries s)" and c: "chain_ok (entries s) (m_chain s)" and p: "entries s p = Some e" and n: "nBlockSequenceId s + 1 < 2 ^ 31"
  shows "\<exists>below cs. chain_tx_below (entries s) e = Some below \<and> link_block p s =
    Some (s\<lparr>entries := (entries s)(p \<mapsto> e\<lparr>nChainTx := below + nTx e, nSequenceId := nBlockSequenceId s\<rparr>),
       nBlockSequenceId := nBlockSequenceId s + 1, setBlockIndexCandidates := cs\<rparr>)"
proof -
  obtain below where b: "chain_tx_below (entries s) e = Some below"
    using index_okD(3) [OF ok p] by (cases "pprev e") (auto simp: chain_tx_below_def)
  define e' where "e' = e\<lparr>nChainTx := below + nTx e, nSequenceId := nBlockSequenceId s\<rparr>"
  define s1 where "s1 = s\<lparr>entries := (entries s)(p \<mapsto> e'), nBlockSequenceId := nBlockSequenceId s + 1\<rparr>"
  have "tree_eq (entries s) (entries s1)" using p by (simp add: s1_def e'_def tree_eq_update tree_of_def)
  then have "chain_ok (entries s1) (m_chain s1)" using chain_ok_tree_eq c by (simp add: s1_def)
  then obtain x where "competes_with_tip p s1 = Some x" using competes_with_tip_Some [of s1 p e'] by (auto simp: s1_def)
  then have "link_block p s = Some (s1\<lparr>setBlockIndexCandidates :=
      if x then candidates_insert p (setBlockIndexCandidates s1) else setBlockIndexCandidates s1\<rparr>)"
    using p b n by (simp add: link_block_def Let_def e'_def s1_def)
  then show ?thesis using b unfolding s1_def e'_def by blast
qed

lemma link_queue_ok:
  "index_ok (entries s) \<Longrightarrow> chain_ok (entries s) (m_chain s) \<Longrightarrow> queue_ok (entries s) (m_blocks_unlinked s) Q \<Longrightarrow> txs_bounded (entries s) \<Longrightarrow>
   nBlockSequenceId s + int (length Q) + int (length (m_blocks_unlinked s)) < 2 ^ 31 \<Longrightarrow>
   \<exists>s'. link_queue Q s = Some s' \<and> queue_ok (entries s') (m_blocks_unlinked s') [] \<and> same_txs (entries s) (entries s')"
proof (induction Q s rule: link_queue.induct)
  case (2 p Q s)
  obtain e where e: "entries s p = Some e" "nTx e \<noteq> 0" "below_linked (entries s) e" using queue_okD(2) [OF "2.prems"(3), of p] by auto
  obtain below cs where b: "chain_tx_below (entries s) e = Some below" and l: "link_block p s =
    Some (s\<lparr>entries := (entries s)(p \<mapsto> e\<lparr>nChainTx := below + nTx e, nSequenceId := nBlockSequenceId s\<rparr>),
       nBlockSequenceId := nBlockSequenceId s + 1, setBlockIndexCandidates := cs\<rparr>)" (is "_ = Some ?s1")
    using link_block_ok [OF "2.prems"(1,2) e(1)] "2.prems"(5) by auto
  define e' where "e' = e\<lparr>nChainTx := below + nTx e, nSequenceId := nBlockSequenceId s\<rparr>"
  define s1 where "s1 = ?s1"
  let ?U = "m_blocks_unlinked s"
  let ?s2 = "s1\<lparr>m_blocks_unlinked := filter (\<lambda>pq. fst pq \<noteq> p) (m_blocks_unlinked s1)\<rparr>"
  have s1: "entries s1 = (entries s)(p \<mapsto> e')" "m_blocks_unlinked s1 = ?U" "m_chain s1 = m_chain s" "nBlockSequenceId s1 = nBlockSequenceId s + 1"
    by (simp_all add: s1_def e'_def)
  have st: "same_txs (entries s) (entries s1)" unfolding s1 using e(1) by (intro same_txs_update) (simp_all add: e'_def tree_of_def)
  then have t: "tree_eq (entries s) (entries s1)" by (simp add: same_txs_def)
  have q: "queue_ok (entries s1) (filter (\<lambda>pq. fst pq \<noteq> p) ?U) (Q @ map snd (filter (\<lambda>pq. fst pq = p) ?U))"
    unfolding s1(1)
    by (rule queue_step [OF "2.prems"(1,3,4) e(1) st [unfolded s1(1)]])
      (use chain_tx_sum [OF "2.prems"(1,3,4) e b] in \<open>simp_all add: e'_def\<close>)
  have len: "length (filter (\<lambda>pq. fst pq = p) ?U) + length (filter (\<lambda>pq. fst pq \<noteq> p) ?U) = length ?U"
    by (rule sum_length_filter_compl)
  have "\<exists>s'. link_queue (Q @ map snd (filter (\<lambda>pq. fst pq = p) (m_blocks_unlinked s1))) ?s2 = Some s' \<and>
      queue_ok (entries s') (m_blocks_unlinked s') [] \<and> same_txs (entries ?s2) (entries s')"
  proof (rule "2.IH" [OF l [folded s1_def]])
    show "index_ok (entries ?s2)" using index_ok_tree_eq [OF t "2.prems"(1)] by simp
    show "chain_ok (entries ?s2) (m_chain ?s2)" using chain_ok_tree_eq [OF t "2.prems"(2)] s1(3) by simp
    show "txs_bounded (entries ?s2)" using txs_bounded_same [OF st "2.prems"(1,4)] by simp
    show "nBlockSequenceId ?s2 + int (length (Q @ map snd (filter (\<lambda>pq. fst pq = p) (m_blocks_unlinked s1)))) + int (length (m_blocks_unlinked ?s2)) < 2 ^ 31"
      using "2.prems"(5) s1 len by simp
  qed (use q s1(2) in simp)
  then obtain s' where "link_queue (p # Q) s = Some s'" "queue_ok (entries s') (m_blocks_unlinked s') []" "same_txs (entries s1) (entries s')"
    using l by (auto simp: s1_def)
  then show ?case using same_txs_trans [OF st] by blast
qed simp

text \<open>A block is linked exactly if its whole branch has been downloaded.\<close>

lemma linked_iff_branch:
  assumes ok: "index_ok H" and q: "queue_ok H U []"
  shows "H p = Some e \<Longrightarrow> nChainTx e \<noteq> 0 \<longleftrightarrow> (\<forall>k r. up H k p = Some r \<longrightarrow> nTx (the (H r)) \<noteq> 0)"
proof (induction "nat (nHeight e)" arbitrary: p e rule: less_induct)
  case less
  have 1: "nChainTx e \<noteq> 0 \<longleftrightarrow> nTx e \<noteq> 0 \<and> below_linked H e" using queue_okD(1) [OF q less.prems] by simp
  show ?case
  proof (cases "pprev e")
    case None
    have "(\<forall>k r. up H k p = Some r \<longrightarrow> nTx (the (H r)) \<noteq> 0) \<longleftrightarrow> nTx e \<noteq> 0"
    proof
      assume "nTx e \<noteq> 0"
      show "\<forall>k r. up H k p = Some r \<longrightarrow> nTx (the (H r)) \<noteq> 0"
      proof (intro allI impI)
        fix k r
        assume "up H k p = Some r"
        then show "nTx (the (H r)) \<noteq> 0" using None less.prems \<open>nTx e \<noteq> 0\<close> by (cases k) auto
      qed
    qed (use less.prems up.simps(1) in fastforce)
    then show ?thesis using 1 None by (simp add: below_linked_def parent_def)
  next
    case (Some r)
    then obtain d where d: "H r = Some d" "nHeight e = nHeight d + 1" using index_okD(3) [OF ok less.prems] by blast
    have "nChainTx d \<noteq> 0 \<longleftrightarrow> (\<forall>k x. up H k r = Some x \<longrightarrow> nTx (the (H x)) \<noteq> 0)"
      using less.hyps [OF _ d(1)] d(2) index_okD(1) [OF ok d(1)] by simp
    moreover have "(\<forall>k x. up H k p = Some x \<longrightarrow> nTx (the (H x)) \<noteq> 0) \<longleftrightarrow>
        nTx e \<noteq> 0 \<and> (\<forall>k x. up H k r = Some x \<longrightarrow> nTx (the (H x)) \<noteq> 0)"
    proof (intro iffI conjI allI impI)
      assume a: "\<forall>k x. up H k p = Some x \<longrightarrow> nTx (the (H x)) \<noteq> 0"
      show "nTx e \<noteq> 0" using a less.prems up.simps(1) by fastforce
      fix k x
      assume "up H k r = Some x"
      then have "up H (Suc k) p = Some x" using Some less.prems by simp
      then show "nTx (the (H x)) \<noteq> 0" using a by blast
    next
      fix k x
      assume a: "nTx e \<noteq> 0 \<and> (\<forall>k x. up H k r = Some x \<longrightarrow> nTx (the (H x)) \<noteq> 0)" and u: "up H k p = Some x"
      show "nTx (the (H x)) \<noteq> 0" using a u Some less.prems by (cases k) auto
    qed
    ultimately show ?thesis using 1 Some d(1) by (simp add: below_linked_def parent_def)
  qed
qed

definition downloads_ok :: "block_state \<Rightarrow> bool" where
  "downloads_ok s \<longleftrightarrow> queue_ok (entries s) (m_blocks_unlinked s) []"

lemma receive_entry_ok:
  assumes ok: "index_ok H" and p: "H p = Some e"
  shows "\<exists>e'. receive_entry H seg block pos e = Some e'"
proof -
  obtain w where w: "IsWitnessEnabled H seg (pprev e) = Some w"
    using index_okD(3) [OF ok p] by (cases "pprev e") (auto simp: IsWitnessEnabled_def)
  have "map_option snd (RaiseValidity BLOCK_VALID_TRANSACTIONS x) \<noteq> None" for x using RaiseValidity_levels(2) by simp
  then show ?thesis unfolding receive_entry_def Let_def w option.case not_None_eq [symmetric] by blast
qed

text \<open>A block without data is on no linked branch, so its arrival changes no count of a linked block.\<close>

lemma branch_txs_received:
  assumes ok: "index_ok H" and q: "queue_ok H U []" and p: "H p = Some e" "nTx e = 0" and t: "tree_of e' = tree_of e"
    and r: "H r = Some c" "nChainTx c \<noteq> 0"
  shows "branch_txs (H(p \<mapsto> e')) r = branch_txs H r"
proof -
  have te: "tree_eq H (H(p \<mapsto> e'))" by (rule tree_eq_update [where e = e]) (rule p t)+
  have "r \<noteq> p" using queue_okD(1) [OF q r(1)] r p by auto
  moreover have "up H j r \<noteq> Some p" for j
    using linked_iff_branch [OF ok q r(1)] r(2) p by (metis option.sel)
  then have "the (up H j r) \<noteq> p" if j: "j \<le> nat (nHeight c)" for j
  proof -
    have "int j \<le> nHeight c" using j index_okD(1) [OF ok r(1)] by linarith
    then show ?thesis using up_ex [OF ok r(1)] \<open>\<And>j. up H j r \<noteq> Some p\<close> by fastforce
  qed
  ultimately show ?thesis using r(1) by (simp add: branch_txs_def up_tree_eq [OF te])
qed

lemma queue_ok_received:
  assumes ok: "index_ok H" and q: "queue_ok H U []" and p: "H p = Some e" "nTx e = 0"
    and e': "tree_of e' = tree_of e" "nTx e' \<noteq> 0" "nChainTx e' = 0"
  shows "below_linked H e \<Longrightarrow> queue_ok (H(p \<mapsto> e')) U [p]"
    and "\<not> below_linked H e \<Longrightarrow> pprev e = Some r \<Longrightarrow> queue_ok (H(p \<mapsto> e')) (U @ [(r, p)]) []"
proof -
  let ?H = "H(p \<mapsto> e')"
  have pp: "pprev e' = pprev e" using e'(1) by (simp add: tree_of_def)
  have c0: "nChainTx e = 0" using queue_okD(1) [OF q p(1)] p(2) by simp
  have par: "below_linked ?H c \<longleftrightarrow> below_linked H c" for c
    using e'(3) c0 p(1) by (auto simp: below_linked_def parent_def split: option.splits bind_splits)
  have pe: "below_linked ?H e' \<longleftrightarrow> below_linked H e" using par [of e'] pp by (simp add: below_linked_def parent_def)
  have br: "unat (nChainTx c) = branch_txs ?H x" if "?H x = Some c" "nChainTx c \<noteq> 0" for x c
    using that branch_txs_received [OF ok q p e'(1), of x c] queue_okD(5) [OF q, of x c] e'(3) by (cases "x = p") auto
  have un: "\<exists>c. ?H x = Some c \<and> pprev c = Some y \<and> nTx c \<noteq> 0" if "(y, x) \<in> set U" for y x
    using queue_okD(4) [OF q that] p by (cases "x = p") auto
  have A: "nChainTx c \<noteq> 0 \<longleftrightarrow> nTx c \<noteq> 0 \<and> below_linked ?H c" if "?H x = Some c" "x \<noteq> p" for x c
    using queue_okD(1) [OF q, of x c] that par [of c] by simp
  have C: "(y, x) \<in> set U" if "?H x = Some c" "x \<noteq> p" "nTx c \<noteq> 0" "\<not> below_linked ?H c" "pprev c = Some y" for x c y
    using queue_okD(3) [OF q, of x c y] that par [of c] by simp
  show "queue_ok ?H U [p]" if b: "below_linked H e"
    unfolding queue_ok_def
  proof (intro conjI)
    show "\<forall>x \<in> set [p]. \<exists>c. ?H x = Some c \<and> nTx c \<noteq> 0 \<and> below_linked ?H c" using b pe e'(2) by simp
  qed (use A C un br in \<open>simp_all del: fun_upd_apply\<close>)
  show "queue_ok ?H (U @ [(r, p)]) []" if b: "\<not> below_linked H e" "pprev e = Some r"
    unfolding queue_ok_def
  proof (intro conjI allI impI)
    fix x c
    assume "?H x = Some c"
    then show "nChainTx c \<noteq> 0 \<longleftrightarrow> nTx c \<noteq> 0 \<and> below_linked ?H c" using A [of x c] b pe e'(3) by (cases "x = p") auto
  next
    fix x c y
    assume "?H x = Some c" "nTx c \<noteq> 0" "\<not> below_linked ?H c" "pprev c = Some y"
    then show "(y, x) \<in> set (U @ [(r, p)])" using C [of x c y] b pp by (cases "x = p") auto
  next
    fix y x
    assume "(y, x) \<in> set (U @ [(r, p)])"
    then show "\<exists>c. ?H x = Some c \<and> pprev c = Some y \<and> nTx c \<noteq> 0"
      using un [of y x] b(2) pp e'(2) by (cases "(y, x) \<in> set U") auto
  qed (use br in \<open>simp_all del: fun_upd_apply\<close>)
qed

lemma ReceivedBlockTransactions_downloads:
  assumes ok: "blocks_ok s" "chain_ok (entries s) (m_chain s)" and d: "downloads_ok s"
    and p: "entries s p = Some e" "nTx e = 0" and n: "0 < length (vtx block)" "length (vtx block) < 2 ^ 32"
    and b: "txs_bounded ((entries s)(p \<mapsto> e\<lparr>nTx := of_nat (length (vtx block))\<rparr>))"
    and v: "\<forall>q f. pprev e = Some q \<longrightarrow> entries s q = Some f \<longrightarrow> IsValid BLOCK_VALID_TREE f = Some True"
    and seq: "nBlockSequenceId s + int (length (m_blocks_unlinked s)) + 1 < 2 ^ 31"
  shows "\<exists>s'. ReceivedBlockTransactions seg block p pos s = Some s' \<and> downloads_ok s' \<and>
    same_txs ((entries s)(p \<mapsto> e\<lparr>nTx := of_nat (length (vtx block))\<rparr>)) (entries s')"
proof -
  let ?H = "entries s" and ?U = "m_blocks_unlinked s" and ?e0 = "e\<lparr>nTx := of_nat (length (vtx block))\<rparr>"
  have i: "index_ok ?H" using ok by (simp add: blocks_ok_def tree_ok_def)
  have q: "queue_ok ?H ?U []" using d by (simp add: downloads_ok_def)
  obtain e' where r: "receive_entry ?H seg block pos e = Some e'" using receive_entry_ok [OF i p(1)] by blast
  have e': "tree_of e' = tree_of e" "nTx e' = of_nat (length (vtx block))" "nChainTx e' = 0" using receive_entry_Some [OF r] .
  have n': "nTx e' \<noteq> 0" using n e'(2) by (simp add: unat_of_nat take_bit_nat_eq_self flip: unat_eq_0)
  define s1 where "s1 = s\<lparr>entries := ?H(p \<mapsto> e'), setDirtyBlockIndex := insert p (setDirtyBlockIndex s)\<rparr>"
  have R: "ReceivedBlockTransactions seg block p pos s = receive_link p e' s1"
    using p(1) r by (simp add: ReceivedBlockTransactions_def s1_def)
  have pp: "pprev e' = pprev e" using e'(1) by (simp add: tree_of_def)
  have t: "tree_eq ?H (entries s1)" using tree_eq_update [of ?H p e e'] p(1) e'(1) by (simp add: s1_def)
  have st: "same_txs (?H(p \<mapsto> ?e0)) (entries s1)"
    using e' by (simp add: same_txs_def tree_eq_def s1_def tree_of_def)
  have i0: "index_ok (?H(p \<mapsto> ?e0))" 
    using index_ok_tree_eq [OF tree_eq_update [of ?H p e ?e0] i] p(1) by (simp add: tree_of_def)
  have s1: "index_ok (entries s1)" "chain_ok (entries s1) (m_chain s1)" "txs_bounded (entries s1)"
    using index_ok_tree_eq [OF t i] chain_ok_tree_eq [OF t ok(2)] txs_bounded_same [OF st i0 b] by (simp_all add: s1_def)
  show ?thesis
  proof (cases "below_linked ?H e")
    case True
    have "queue_ok (entries s1) (m_blocks_unlinked s1) [p]"
      using queue_ok_received(1) [OF i q p e'(1) n' e'(3) True] by (simp add: s1_def)
    then obtain s' where s': "link_queue [p] s1 = Some s'" "queue_ok (entries s') (m_blocks_unlinked s') []" "same_txs (entries s1) (entries s')"
      using link_queue_ok [OF s1(1,2) _ s1(3), of "[p]"] seq by (auto simp: s1_def)
    have "receive_link p e' s1 = link_queue [p] s1"
    proof (cases "pprev e")
      case (Some x)
      then obtain f where f: "?H x = Some f" using index_okD(3) [OF i p(1)] by blast
      have "nChainTx f \<noteq> 0" using True Some f by (simp add: below_linked_def parent_def)
      moreover have "x \<noteq> p" using index_okD(3) [OF i p(1) Some] p(1) by auto
      ultimately show ?thesis using Some f pp by (simp add: receive_link_def s1_def HaveTxsDownloaded_def del: link_queue.simps)
    qed (simp add: receive_link_def pp del: link_queue.simps)
    then show ?thesis using s' R same_txs_trans [OF st] by (auto simp: downloads_ok_def simp del: link_queue.simps)
  next
    case False
    then obtain x where x: "pprev e = Some x" by (cases "pprev e") (auto simp: below_linked_def parent_def)
    then obtain f where f: "?H x = Some f" using index_okD(3) [OF i p(1)] by blast
    have "nChainTx f = 0" using False x f by (simp add: below_linked_def parent_def)
    moreover have "x \<noteq> p" using index_okD(3) [OF i p(1) x] p(1) by auto
    ultimately have "receive_link p e' s1 = Some (s1\<lparr>m_blocks_unlinked := m_blocks_unlinked s1 @ [(x, p)]\<rparr>)"
      using x f pp v by (simp add: receive_link_def s1_def HaveTxsDownloaded_def)
    moreover have "queue_ok (entries s1) (m_blocks_unlinked s1 @ [(x, p)]) []"
      using queue_ok_received(2) [OF i q p e'(1) n' e'(3) False x] by (simp add: s1_def)
    ultimately show ?thesis using R st by (auto simp: downloads_ok_def)
  qed
qed

section \<open>The best candidate\<close>

text \<open>The order of candidates is that of work, then earlier arrival, then address.\<close>

definition before :: "CBlockIndex \<Rightarrow> ptr \<Rightarrow> CBlockIndex \<Rightarrow> ptr \<Rightarrow> bool" where
  "before a pa b pb \<longleftrightarrow> bn (nChainWork a) < bn (nChainWork b) \<or>
     bn (nChainWork a) = bn (nChainWork b) \<and> (nSequenceId b < nSequenceId a \<or> nSequenceId a = nSequenceId b \<and> pb < pa)"

lemma work_less_before:
  "length (nChainWork a) = WIDTH \<Longrightarrow> length (nChainWork b) = WIDTH \<Longrightarrow> work_less a pa b pb \<longleftrightarrow> before a pa b pb"
  by (auto simp: work_less_def before_def)

lemma before_trans: "before a pa b pb \<Longrightarrow> before b pb c pc \<Longrightarrow> before a pa c pc"
  by (auto simp: before_def)

lemma before_total: "pa \<noteq> pb \<Longrightarrow> before a pa b pb \<or> before b pb a pa"
  by (auto simp: before_def)

lemma before_irrefl: "\<not> before a pa a pa"
  by (simp add: before_def)

lemma best_of_ok:
  assumes w: "work_ok H"
  shows "\<forall>x \<in> set (b # cs). H x \<noteq> None \<Longrightarrow> \<exists>m em. best_of H cs b = Some m \<and> m \<in> set (b # cs) \<and> H m = Some em \<and>
     (\<forall>x \<in> set (b # cs). \<forall>e. H x = Some e \<longrightarrow> \<not> before em m e x)"
proof (induction cs arbitrary: b)
  case Nil
  then show ?case using before_irrefl by fastforce
next
  case (Cons c cs)
  obtain eb ec where e: "H b = Some eb" "H c = Some ec" using Cons.prems by auto
  have l: "length (nChainWork eb) = WIDTH" "length (nChainWork ec) = WIDTH" using work_okD [OF w e(1)] work_okD [OF w e(2)] by simp_all
  define n where "n = (if before eb b ec c then c else b)"
  have "best_of H (c # cs) b = best_of H cs n"
    using e work_less_before [OF l] by (simp add: CBlockIndexWorkComparator_def n_def)
  moreover obtain m em where m: "best_of H cs n = Some m" "m \<in> set (n # cs)" "H m = Some em"
    "\<forall>x \<in> set (n # cs). \<forall>e. H x = Some e \<longrightarrow> \<not> before em m e x"
  proof -
    have "\<forall>x \<in> set (n # cs). H x \<noteq> None" using Cons.prems by (simp add: n_def)
    then show thesis using Cons.IH [of n] that by blast
  qed
  moreover have "\<not> before em m eb b" "\<not> before em m ec c"
  proof -
    obtain en where en: "H n = Some en" "\<not> before em m en n" using m(4) e by (auto simp: n_def split: if_splits)
    show "\<not> before em m eb b" using en e before_trans [of em m eb b ec c] by (auto simp: n_def split: if_splits)
    show "\<not> before em m ec c"
      using en e before_trans [of em m ec c eb b] before_total [of b c eb ec]
      by (cases "b = c") (auto simp: n_def split: if_splits)
  qed
  ultimately show ?case using e by (auto simp: n_def split: if_splits)
qed

text \<open>The blocks of a branch above the active chain, and the branches that can be used.\<close>

definition off_chain :: "index_heap \<Rightarrow> CChain \<Rightarrow> ptr \<Rightarrow> ptr \<Rightarrow> bool" where
  "off_chain H v p q \<longleftrightarrow> (\<exists>k. up H k p = Some q \<and> (\<forall>j \<le> k. \<forall>r. up H j p = Some r \<longrightarrow> Some r \<notin> set v))"

definition bad_block :: "CBlockIndex \<Rightarrow> bool" where
  "bad_block e \<longleftrightarrow> nStatus e AND BLOCK_FAILED_MASK \<noteq> 0 \<or> nStatus e AND BLOCK_HAVE_DATA = 0"

definition usable :: "index_heap \<Rightarrow> CChain \<Rightarrow> ptr \<Rightarrow> bool" where
  "usable H v p \<longleftrightarrow> (\<forall>q e. off_chain H v p q \<longrightarrow> H q = Some e \<longrightarrow> \<not> bad_block e)"

lemma off_chain_trans:
  assumes "off_chain H v p q" "off_chain H v q r"
  shows "off_chain H v p r"
proof -
  obtain k where k: "up H k p = Some q" "\<forall>j \<le> k. \<forall>x. up H j p = Some x \<longrightarrow> Some x \<notin> set v" using assms(1) by (auto simp: off_chain_def)
  obtain l where l: "up H l q = Some r" "\<forall>j \<le> l. \<forall>x. up H j q = Some x \<longrightarrow> Some x \<notin> set v" using assms(2) by (auto simp: off_chain_def)
  have "up H (k + l) p = Some r" using k(1) l(1) by (simp add: up_add)
  moreover have "Some x \<notin> set v" if j: "j \<le> k + l" "up H j p = Some x" for j x
  proof (cases "j \<le> k")
    case False
    then have "up H (j - k) q = Some x" using j(2) up_add [of H k "j - k" p] k(1) by simp
    then show ?thesis using l(2) j(1) False by (metis le_diff_conv add.commute)
  qed (use k(2) j(2) in blast)
  ultimately show ?thesis unfolding off_chain_def by blast
qed

lemma off_chain_parent:
  assumes "H p = Some e" "pprev e = Some q" "Some p \<notin> set v"
  shows "off_chain H v p r \<longleftrightarrow> r = p \<or> off_chain H v q r"
proof
  assume "off_chain H v p r"
  then obtain k where k: "up H k p = Some r" "\<forall>j \<le> k. \<forall>x. up H j p = Some x \<longrightarrow> Some x \<notin> set v" by (auto simp: off_chain_def)
  show "r = p \<or> off_chain H v q r"
  proof (cases k)
    case (Suc l)
    then have "up H l q = Some r" using k(1) assms by simp
    moreover have "Some x \<notin> set v" if "j \<le> l" "up H j q = Some x" for j x
      using k(2) [rule_format, of "Suc j" x] that assms Suc by simp
    ultimately show ?thesis by (auto simp: off_chain_def)
  qed (use k in simp)
next
  have self: "off_chain H v p p" unfolding off_chain_def by (rule exI [of _ 0]) (use assms(3) in simp)
  assume "r = p \<or> off_chain H v q r"
  then show "off_chain H v p r"
  proof
    assume "off_chain H v q r"
    then obtain l where l: "up H l q = Some r" "\<forall>j \<le> l. \<forall>x. up H j q = Some x \<longrightarrow> Some x \<notin> set v" by (auto simp: off_chain_def)
    have "up H (Suc l) p = Some r" using l(1) assms by simp
    moreover have "Some x \<notin> set v" if "j \<le> Suc l" "up H j p = Some x" for j x
      using that l(2) assms by (cases j) auto
    ultimately show ?thesis unfolding off_chain_def by blast
  qed (use self in simp)
qed

lemma off_chain_root:
  assumes "H p = Some e" "pprev e = None" "off_chain H v p r"
  shows "r = p"
proof -
  obtain k where k: "up H k p = Some r" using assms(3) by (auto simp: off_chain_def)
  then show ?thesis using assms(1,2) by (cases k) auto
qed

lemma off_chain_on:
  assumes "Some p \<in> set v"
  shows "\<not> off_chain H v p r"
  using assms up.simps(1) unfolding off_chain_def by (metis le0)

lemma test_loop_ok:
  assumes ok: "index_ok H" and c: "chain_ok H v"
  shows "H p = Some e \<Longrightarrow> (\<forall>q d. off_chain H v p q \<longrightarrow> H q = Some d \<longrightarrow> HaveTxsDownloaded d \<or> nHeight d = 0) \<Longrightarrow>
    \<exists>x. test_loop H v (Some p) = Some x \<and>
      (case x of None \<Rightarrow> usable H v p
       | Some (t, failed) \<Rightarrow> \<exists>d. off_chain H v p t \<and> H t = Some d \<and> bad_block d \<and> (failed \<longleftrightarrow> nStatus d AND BLOCK_FAILED_MASK \<noteq> 0))"
proof (induction "nat (nHeight e)" arbitrary: p e rule: less_induct)
  case less
  have e0: "0 \<le> nHeight e" using index_okD(1) [OF ok less.prems(1)] .
  have at: "chain_at v (nHeight e) = Some p \<longleftrightarrow> Some p \<in> set v" by (rule chain_at_member [OF c less.prems(1) e0])
  show ?case
  proof (cases "Some p \<in> set v")
    case True
    then have "usable H v p" using off_chain_on by (auto simp: usable_def)
    moreover have "test_loop H v (Some p) = Some None" using True at less.prems(1) by (subst test_loop.simps) simp
    ultimately show ?thesis by simp
  next
    case False
    have self: "off_chain H v p p" unfolding off_chain_def by (rule exI [of _ 0]) (use False in simp)
    have h: "HaveTxsDownloaded e \<or> nHeight e = 0" using less.prems self by blast
    show ?thesis
    proof (cases "bad_block e")
      case True
      have "test_loop H v (Some p) = Some (Some (p, nStatus e AND BLOCK_FAILED_MASK \<noteq> 0))"
        using True False at h less.prems(1) by (subst test_loop.simps) (auto simp: Let_def bad_block_def)
      then show ?thesis using self True less.prems(1) by simp
    next
      case good: False
      have t: "test_loop H v (Some p) = test_loop H v (pprev e)"
        using good False at h less.prems(1) by (subst test_loop.simps) (auto simp: Let_def bad_block_def)
      show ?thesis
      proof (cases "pprev e")
        case None
        have "usable H v p" using off_chain_root [of H p e v] None good less.prems(1) unfolding usable_def by (metis option.inject)
        moreover have "test_loop H v None = Some None" by (subst test_loop.simps) simp
        ultimately show ?thesis using t None by simp
      next
        case (Some q)
        have o: "off_chain H v p r \<longleftrightarrow> r = p \<or> off_chain H v q r" for r
          using off_chain_parent [of H p e q v r] less.prems(1) Some False by blast
        obtain d where d: "H q = Some d" "nHeight e = nHeight d + 1" using index_okD(3) [OF ok less.prems(1) Some] by blast
        have "nat (nHeight d) < nat (nHeight e)" using d(2) index_okD(1) [OF ok d(1)] by simp
        then obtain x where x: "test_loop H v (Some q) = Some x" "case x of None \<Rightarrow> usable H v q
           | Some (t, failed) \<Rightarrow> \<exists>d. off_chain H v q t \<and> H t = Some d \<and> bad_block d \<and> (failed \<longleftrightarrow> nStatus d AND BLOCK_FAILED_MASK \<noteq> 0)"
          using less.hyps [OF _ d(1)] less.prems(2) o by blast
        have "usable H v p" if "usable H v q" using that good o less.prems(1) by (auto simp: usable_def)
        then show ?thesis using x t Some o by (auto split: option.splits prod.splits)
      qed
    qed
  qed
qed

text \<open>Marking blocks as failed changes neither their place nor their rank.\<close>

definition rank_eq :: "index_heap \<Rightarrow> index_heap \<Rightarrow> bool" where
  "rank_eq H H' \<longleftrightarrow> tree_eq H H' \<and> (\<forall>p. map_option (\<lambda>e. (nSequenceId e, nChainTx e)) (H' p) = map_option (\<lambda>e. (nSequenceId e, nChainTx e)) (H p))"

definition marked :: "index_heap \<Rightarrow> index_heap \<Rightarrow> ptr set \<Rightarrow> bool" where
  "marked H H' M \<longleftrightarrow> (\<forall>p e e'. H p = Some e \<longrightarrow> H' p = Some e' \<longrightarrow>
     (if p \<in> M then nStatus e' = nStatus e OR BLOCK_FAILED_CHILD else nStatus e' = nStatus e))"

lemma rank_eq_refl [simp]: "rank_eq H H"
  by (simp add: rank_eq_def)

lemma rank_eq_trans: "rank_eq H H' \<Longrightarrow> rank_eq H' H'' \<Longrightarrow> rank_eq H H''"
  using tree_eq_trans by (auto simp: rank_eq_def)

lemma rank_eqD:
  assumes "rank_eq H H'" "H p = Some e"
  shows "\<exists>e'. H' p = Some e' \<and> nChainWork e' = nChainWork e \<and> nSequenceId e' = nSequenceId e \<and> nChainTx e' = nChainTx e \<and> nHeight e' = nHeight e"
proof -
  have t: "tree_eq H H'" using assms(1) by (simp add: rank_eq_def)
  obtain e' where "H' p = Some e'" "nChainWork e' = nChainWork e" "nHeight e' = nHeight e" using tree_eqD [OF tree_eq_sym [OF t] assms(2)] by auto
  moreover have "map_option (\<lambda>e. (nSequenceId e, nChainTx e)) (H' p) = Some (nSequenceId e, nChainTx e)"
    using assms by (simp add: rank_eq_def)
  ultimately show ?thesis by auto
qed

lemma up_neq:
  assumes "index_ok H" "H p = Some e" "up H j p = Some r" "up H k p = Some r"
  shows "j = k"
  using up_height [OF assms(1,2,3)] up_height [OF assms(1,2,4)] by auto

lemma remove_chain_ok:
  "index_ok (entries s) \<Longrightarrow> entries s f = Some e \<Longrightarrow> up (entries s) k f = Some t \<Longrightarrow>
   \<exists>s'. remove_chain t failed f s = Some s' \<and> rank_eq (entries s) (entries s') \<and> m_chain s' = m_chain s \<and> pindexBestInvalid s' = pindexBestInvalid s \<and>
     setBlockIndexCandidates s' = filter (\<lambda>c. \<forall>j < k. up (entries s) j f \<noteq> Some c) (setBlockIndexCandidates s) \<and>
     marked (entries s) (entries s') (if failed then {c. \<exists>j < k. up (entries s) j f = Some c} else {})"
proof (induction k arbitrary: s f e)
  case 0
  then have "remove_chain t failed f s = Some s" by (subst remove_chain.simps) simp
  then show ?case by (simp add: marked_def)
next
  case (Suc k)
  obtain q where q: "pprev e = Some q" "up (entries s) k q = Some t" using Suc.prems(2,3) by (auto simp: bind_eq_Some_conv)
  have ft: "f \<noteq> t" using up_neq [OF Suc.prems(1,2), of 0 f "Suc k"] Suc.prems(3) by auto
  define s1 where "s1 = (if failed then s\<lparr>entries := (entries s)(f \<mapsto> e\<lparr>nStatus := nStatus e OR BLOCK_FAILED_CHILD\<rparr>)\<rparr>
      else s\<lparr>m_blocks_unlinked := m_blocks_unlinked s @ [(q, f)]\<rparr>)\<lparr>setBlockIndexCandidates := candidates_erase f (setBlockIndexCandidates s)\<rparr>"
  have r: "remove_chain t failed f s = remove_chain t failed q s1"
    using ft Suc.prems(2) q(1) by (subst remove_chain.simps) (simp add: Let_def s1_def)
  have t: "tree_eq (entries s) (entries s1)" using Suc.prems(2) by (auto simp: s1_def tree_of_def intro!: tree_eq_update)
  have rk: "rank_eq (entries s) (entries s1)" using t Suc.prems(2) by (auto simp: rank_eq_def s1_def)
  have up1: "up (entries s1) j x = up (entries s) j x" for j x by (rule up_tree_eq [OF t])
  obtain d where d: "entries s q = Some d" using index_okD(3) [OF Suc.prems(1,2) q(1)] by blast
  obtain d1 where d1: "entries s1 q = Some d1" using tree_eqD [OF tree_eq_sym [OF t] d] by blast
  obtain s' where s': "remove_chain t failed q s1 = Some s'" "rank_eq (entries s1) (entries s')" "m_chain s' = m_chain s1" "pindexBestInvalid s' = pindexBestInvalid s1"
    "setBlockIndexCandidates s' = filter (\<lambda>c. \<forall>j < k. up (entries s) j q \<noteq> Some c) (setBlockIndexCandidates s1)"
    "marked (entries s1) (entries s') (if failed then {c. \<exists>j < k. up (entries s) j q = Some c} else {})"
    using Suc.IH [OF index_ok_tree_eq [OF t Suc.prems(1)] d1, unfolded up1, OF q(2)] by blast
  have up: "up (entries s) (Suc j) f = up (entries s) j q" for j using Suc.prems(2) q(1) by simp
  have split: "(\<exists>j < Suc k. up (entries s) j f = Some c) \<longleftrightarrow> c = f \<or> (\<exists>j < k. up (entries s) j q = Some c)" for c
    by (auto simp: less_Suc_eq_0_disj up simp del: up.simps(2))
  have fq: "up (entries s) j q \<noteq> Some f" for j using up_neq [OF Suc.prems(1,2), of 0 f "Suc j"] up by auto
  have "setBlockIndexCandidates s' = filter (\<lambda>c. \<forall>j < Suc k. up (entries s) j f \<noteq> Some c) (setBlockIndexCandidates s)"
    using split unfolding s'(5) by (auto simp: s1_def candidates_erase_def filter_filter intro!: filter_cong)
  moreover have "marked (entries s) (entries s') (if failed then {c. \<exists>j < Suc k. up (entries s) j f = Some c} else {})"
    unfolding marked_def
  proof (intro allI impI)
    fix p c c'
    assume c: "entries s p = Some c" "entries s' p = Some c'"
    obtain c1 where c1: "entries s1 p = Some c1" using rank_eqD [OF rk c(1)] by blast
    have m: "if p \<in> (if failed then {c. \<exists>j < k. up (entries s) j q = Some c} else {}) then nStatus c' = nStatus c1 OR BLOCK_FAILED_CHILD
        else nStatus c' = nStatus c1" using s'(6) c1 c(2) unfolding marked_def by blast
    have "nStatus c1 = (if failed \<and> p = f then nStatus c OR BLOCK_FAILED_CHILD else nStatus c)"
      using c1 c(1) Suc.prems(2) by (auto simp: s1_def split: if_splits)
    then show "if p \<in> (if failed then {c. \<exists>j < Suc k. up (entries s) j f = Some c} else {})
        then nStatus c' = nStatus c OR BLOCK_FAILED_CHILD else nStatus c' = nStatus c"
      using m fq by (auto simp: split simp del: up.simps split: if_splits)
  qed
  ultimately show ?case using r s' rank_eq_trans [OF rk] by (auto simp: s1_def)
qed

lemma failed_child_bits:
  "(x OR BLOCK_FAILED_CHILD) AND BLOCK_FAILED_MASK \<noteq> 0" "(x OR BLOCK_FAILED_CHILD) AND BLOCK_HAVE_DATA = x AND BLOCK_HAVE_DATA"
proof -
  have "bit ((x OR BLOCK_FAILED_CHILD) AND BLOCK_FAILED_MASK) 6"
    unfolding block_status_defs by (simp add: bit_simps)
  then show "(x OR BLOCK_FAILED_CHILD) AND BLOCK_FAILED_MASK \<noteq> 0" by auto
  have "BLOCK_FAILED_CHILD AND BLOCK_HAVE_DATA = 0" unfolding block_status_defs by code_simp
  then show "(x OR BLOCK_FAILED_CHILD) AND BLOCK_HAVE_DATA = x AND BLOCK_HAVE_DATA"
    by (simp add: bit.conj_disj_distrib2)
qed

lemma off_chain_tree_eq: "tree_eq H H' \<Longrightarrow> off_chain H' v p q \<longleftrightarrow> off_chain H v p q"
  by (simp add: off_chain_def up_tree_eq)

lemma usable_marked:
  assumes r: "rank_eq H H'" and m: "marked H H' M" and M: "\<And>c. c \<in> M \<Longrightarrow> off_chain H v c t" and t: "H t = Some d" "bad_block d"
  shows "usable H' v c \<longleftrightarrow> usable H v c"
proof -
  have te: "tree_eq H H'" using r by (simp add: rank_eq_def)
  have b: "bad_block e' \<longleftrightarrow> bad_block e \<or> p \<in> M" if "H p = Some e" "H' p = Some e'" for p e e'
  proof -
    have "if p \<in> M then nStatus e' = nStatus e OR BLOCK_FAILED_CHILD else nStatus e' = nStatus e"
      using m that unfolding marked_def by blast
    then show ?thesis using failed_child_bits [of "nStatus e"] by (auto simp: bad_block_def split: if_splits)
  qed
  have o: "off_chain H' v c q \<longleftrightarrow> off_chain H v c q" for q by (rule off_chain_tree_eq [OF te])
  show ?thesis
  proof
    assume u: "usable H' v c"
    show "usable H v c"
      unfolding usable_def
    proof (intro allI impI)
      fix q e
      assume "off_chain H v c q" "H q = Some e"
      then show "\<not> bad_block e" using rank_eqD [OF r, of q e] u b [of q e] o unfolding usable_def by blast
    qed
  next
    assume u: "usable H v c"
    show "usable H' v c"
      unfolding usable_def
    proof (intro allI impI)
      fix q e'
      assume q: "off_chain H' v c q" "H' q = Some e'"
      then obtain e where e: "H q = Some e" using tree_eqD [OF te] by blast
      have oc: "off_chain H v c q" using q(1) o by blast
      have "q \<notin> M"
      proof
        assume "q \<in> M"
        then have "off_chain H v c t" using off_chain_trans [OF oc M] by blast
        then show False using u t unfolding usable_def by blast
      qed
      then show "\<not> bad_block e'" using b [OF e q(2)] u oc e unfolding usable_def by blast
    qed
  qed
qed

definition candidates_ok :: "block_state \<Rightarrow> bool" where
  "candidates_ok s \<longleftrightarrow> (\<forall>c \<in> set (setBlockIndexCandidates s). entries s c \<noteq> None \<and>
       (\<forall>q d. off_chain (entries s) (m_chain s) c q \<longrightarrow> entries s q = Some d \<longrightarrow> HaveTxsDownloaded d \<or> nHeight d = 0)) \<and>
     (\<forall>b. pindexBestInvalid s = Some b \<longrightarrow> entries s b \<noteq> None)"

definition is_best :: "block_state \<Rightarrow> ptr option \<Rightarrow> bool" where
  "is_best s r \<longleftrightarrow>
     (case r of None \<Rightarrow> \<forall>c \<in> set (setBlockIndexCandidates s). \<not> usable (entries s) (m_chain s) c
      | Some p \<Rightarrow> p \<in> set (setBlockIndexCandidates s) \<and> usable (entries s) (m_chain s) p \<and>
          (\<forall>c \<in> set (setBlockIndexCandidates s). \<forall>ep ec. usable (entries s) (m_chain s) c \<longrightarrow> entries s p = Some ep \<longrightarrow> entries s c = Some ec \<longrightarrow>
             \<not> work_less ep p ec c))"

lemma mark_best_invalid_ok:
  assumes "entries s p \<noteq> None" "\<forall>b. pindexBestInvalid s = Some b \<longrightarrow> entries s b \<noteq> None"
  shows "\<exists>b. mark_best_invalid f p s = Some (s\<lparr>pindexBestInvalid := b\<rparr>) \<and> (\<forall>x. b = Some x \<longrightarrow> entries s x \<noteq> None)"
proof -
  obtain e where e: "entries s p = Some e" using assms(1) by blast
  have "mark_best_invalid f p s = Some s \<or> mark_best_invalid f p s = Some (s\<lparr>pindexBestInvalid := Some p\<rparr>)"
    using assms e by (auto simp: mark_best_invalid_def split: option.splits)
  then show ?thesis
  proof
    assume "mark_best_invalid f p s = Some s"
    then show ?thesis using assms(2) by (intro exI [of _ "pindexBestInvalid s"]) simp
  next
    assume "mark_best_invalid f p s = Some (s\<lparr>pindexBestInvalid := Some p\<rparr>)"
    then show ?thesis using e by (intro exI [of _ "Some p"]) simp
  qed
qed

text \<open>One unusable candidate: it is removed with the blocks of its branch down to the bad block.\<close>

lemma drop_candidate:
  assumes ok: "index_ok (entries s)" "candidates_ok s" and n: "n \<in> set (setBlockIndexCandidates s)" "entries s n = Some en"
    and t: "off_chain (entries s) (m_chain s) n t" "entries s t = Some d" "bad_block d"
  shows "\<exists>s1 s2. mark_best_invalid failed n s = Some s1 \<and> remove_chain t failed n s1 = Some s2 \<and>
    (let s3 = s2\<lparr>setBlockIndexCandidates := candidates_erase t (setBlockIndexCandidates s2)\<rparr> in
       rank_eq (entries s) (entries s3) \<and> m_chain s3 = m_chain s \<and> (\<forall>c. usable (entries s3) (m_chain s3) c \<longleftrightarrow> usable (entries s) (m_chain s) c) \<and>
       set (setBlockIndexCandidates s3) \<subseteq> set (setBlockIndexCandidates s) \<and> length (setBlockIndexCandidates s3) < length (setBlockIndexCandidates s) \<and>
       (\<forall>c \<in> set (setBlockIndexCandidates s). usable (entries s) (m_chain s) c \<longrightarrow> c \<in> set (setBlockIndexCandidates s3)) \<and>
       (\<forall>b. pindexBestInvalid s3 = Some b \<longrightarrow> entries s b \<noteq> None))"
proof -
  let ?H = "entries s" and ?v = "m_chain s" and ?C = "setBlockIndexCandidates s"
  obtain k where k: "up ?H k n = Some t" "\<forall>j \<le> k. \<forall>r. up ?H j n = Some r \<longrightarrow> Some r \<notin> set ?v" using t(1) by (auto simp: off_chain_def)
  obtain b where b: "mark_best_invalid failed n s = Some (s\<lparr>pindexBestInvalid := b\<rparr>)" "\<forall>x. b = Some x \<longrightarrow> ?H x \<noteq> None"
    using mark_best_invalid_ok [of s n failed] n(2) ok(2) by (auto simp: candidates_ok_def)
  define s1 where "s1 = s\<lparr>pindexBestInvalid := b\<rparr>"
  have e1: "entries s1 = ?H" "m_chain s1 = ?v" "setBlockIndexCandidates s1 = ?C" "pindexBestInvalid s1 = b" by (simp_all add: s1_def)
  obtain s2 where s2: "remove_chain t failed n s1 = Some s2" "rank_eq ?H (entries s2)" "m_chain s2 = ?v" "pindexBestInvalid s2 = b"
    "setBlockIndexCandidates s2 = filter (\<lambda>c. \<forall>j < k. up ?H j n \<noteq> Some c) ?C"
    "marked ?H (entries s2) (if failed then {c. \<exists>j < k. up ?H j n = Some c} else {})"
    using remove_chain_ok [of s1 n en k t failed, unfolded e1] ok(1) n(2) k(1) by blast
  define s3 where "s3 = s2\<lparr>setBlockIndexCandidates := candidates_erase t (setBlockIndexCandidates s2)\<rparr>"
  have path: "off_chain ?H ?v c t" if c: "j \<le> k" "up ?H j n = Some c" for c j
  proof -
    have "up ?H (k - j) c = Some t" using up_add [of ?H j "k - j" n] c k(1) by simp
    moreover have "Some r \<notin> set ?v" if "i \<le> k - j" "up ?H i c = Some r" for i r
      using k(2) [rule_format, of "j + i" r] that c by (simp add: up_add)
    ultimately show ?thesis unfolding off_chain_def by blast
  qed
  have bad: "\<not> usable ?H ?v c" if "j \<le> k" "up ?H j n = Some c" for c j
    using path [OF that] t(2,3) unfolding usable_def by blast
  have C: "set (setBlockIndexCandidates s3) = {c \<in> set ?C. \<forall>j \<le> k. up ?H j n \<noteq> Some c}"
    using k(1) by (auto simp: s3_def candidates_erase_def s2(5) le_less)
  have u: "usable (entries s3) (m_chain s3) c \<longleftrightarrow> usable ?H ?v c" for c
  proof -
    have "usable (entries s2) ?v c \<longleftrightarrow> usable ?H ?v c"
      by (rule usable_marked [OF s2(2,6) _ t(2,3)]) (use path less_imp_le in \<open>auto split: if_splits\<close>)
    then show ?thesis by (simp add: s3_def s2(3))
  qed
  have "n \<notin> set (setBlockIndexCandidates s3)" using C up.simps(1) by fastforce
  moreover have "setBlockIndexCandidates s3 = filter (\<lambda>c. c \<noteq> t \<and> (\<forall>j < k. up ?H j n \<noteq> Some c)) ?C"
    by (simp add: s3_def candidates_erase_def s2(5) conj_commute)
  ultimately have "length (setBlockIndexCandidates s3) < length ?C" using n(1) by (metis (no_types, lifting) length_filter_less mem_Collect_eq set_filter)
  then show ?thesis
    using b s2 C u bad unfolding s1_def [symmetric] by (intro exI [of _ s1] exI [of _ s2]) (auto simp: Let_def s3_def [symmetric] s3_def)
qed

lemma candidates_ok_sub:
  assumes r: "rank_eq (entries s) (entries s')" and v: "m_chain s' = m_chain s"
    and c: "set (setBlockIndexCandidates s') \<subseteq> set (setBlockIndexCandidates s)"
    and b: "\<forall>b. pindexBestInvalid s' = Some b \<longrightarrow> entries s b \<noteq> None" and ok: "candidates_ok s"
  shows "candidates_ok s'"
proof -
  have te: "tree_eq (entries s) (entries s')" using r by (simp add: rank_eq_def)
  have dom: "entries s' x \<noteq> None" if "entries s x \<noteq> None" for x using that rank_eqD [OF r] by fastforce
  have h: "HaveTxsDownloaded d \<or> nHeight d = 0"
    if x: "x \<in> set (setBlockIndexCandidates s')" "off_chain (entries s') (m_chain s') x q" "entries s' q = Some d" for x q d
  proof -
    obtain d0 where d0: "entries s q = Some d0" using tree_eqD [OF te x(3)] by blast
    have "HaveTxsDownloaded d0 \<or> nHeight d0 = 0"
      using ok c x d0 off_chain_tree_eq [OF te] v unfolding candidates_ok_def by (metis subsetD)
    then show ?thesis using rank_eqD [OF r d0] x(3) by (auto simp: HaveTxsDownloaded_def)
  qed
  show ?thesis unfolding candidates_ok_def
  proof (intro conjI ballI allI impI)
    fix x assume "x \<in> set (setBlockIndexCandidates s')"
    then show "entries s' x \<noteq> None" using ok c dom unfolding candidates_ok_def by blast
  qed (use h b dom in blast)+
qed

lemma work_less_cong:
  "nChainWork a' = nChainWork a \<Longrightarrow> nSequenceId a' = nSequenceId a \<Longrightarrow> nChainWork b' = nChainWork b \<Longrightarrow> nSequenceId b' = nSequenceId b \<Longrightarrow>
   work_less a' pa b' pb = work_less a pa b pb"
  unfolding work_less_def by metis

lemma is_best_sub:
  assumes r: "rank_eq (entries s) (entries s')"
    and u: "\<forall>c. usable (entries s') (m_chain s') c \<longleftrightarrow> usable (entries s) (m_chain s) c"
    and c: "set (setBlockIndexCandidates s') \<subseteq> set (setBlockIndexCandidates s)"
    and k: "\<forall>c \<in> set (setBlockIndexCandidates s). usable (entries s) (m_chain s) c \<longrightarrow> c \<in> set (setBlockIndexCandidates s')"
    and best: "is_best s' x"
  shows "is_best s x"
proof (cases x)
  case None
  then show ?thesis using best u k by (auto simp: is_best_def)
next
  case (Some p)
  have "\<not> work_less ep p ec y"
    if y: "y \<in> set (setBlockIndexCandidates s)" "usable (entries s) (m_chain s) y" "entries s p = Some ep" "entries s y = Some ec" for y ep ec
  proof -
    obtain ep' ec' where e: "entries s' p = Some ep'" "nChainWork ep' = nChainWork ep" "nSequenceId ep' = nSequenceId ep"
      "entries s' y = Some ec'" "nChainWork ec' = nChainWork ec" "nSequenceId ec' = nSequenceId ec"
      using rank_eqD [OF r y(3)] rank_eqD [OF r y(4)] by blast
    then have "\<not> work_less ep' p ec' y" using best Some u k y unfolding is_best_def by auto
    then show ?thesis using work_less_cong [OF e(2,3,5,6)] by simp
  qed
  then show ?thesis using best Some u c unfolding is_best_def by auto
qed

lemma FindMostWorkChain_ok:
  "tree_ok (entries s) \<Longrightarrow> chain_ok (entries s) (m_chain s) \<Longrightarrow> candidates_ok s \<Longrightarrow>
   \<exists>r s'. FindMostWorkChain s = Some (r, s') \<and> is_best s r"
proof (induction "length (setBlockIndexCandidates s)" arbitrary: s rule: less_induct)
  case less
  let ?H = "entries s" and ?v = "m_chain s" and ?C = "setBlockIndexCandidates s"
  have ok: "index_ok ?H" "work_ok ?H" using less.prems(1) by (simp_all add: tree_ok_def)
  show ?case
  proof (cases ?C)
    case Nil
    then have "FindMostWorkChain s = Some (None, s)" by (subst FindMostWorkChain.simps) simp
    then show ?thesis using Nil by (simp add: is_best_def)
  next
    case (Cons c cs)
    have dom: "\<forall>x \<in> set (c # cs). ?H x \<noteq> None" using less.prems(3) Cons by (simp add: candidates_ok_def)
    obtain m em where m: "best_of ?H cs c = Some m" "m \<in> set ?C" "?H m = Some em"
      "\<forall>x \<in> set ?C. \<forall>e. ?H x = Some e \<longrightarrow> \<not> before em m e x"
      using best_of_ok [OF ok(2) dom] Cons by auto
    have dl: "\<forall>q d. off_chain ?H ?v m q \<longrightarrow> ?H q = Some d \<longrightarrow> HaveTxsDownloaded d \<or> nHeight d = 0"
      using less.prems(3) m(2) by (simp add: candidates_ok_def)
    obtain x where x: "test_loop ?H ?v (Some m) = Some x" "case x of None \<Rightarrow> usable ?H ?v m
       | Some (t, failed) \<Rightarrow> \<exists>d. off_chain ?H ?v m t \<and> ?H t = Some d \<and> bad_block d \<and> (failed \<longleftrightarrow> nStatus d AND BLOCK_FAILED_MASK \<noteq> 0)"
      using test_loop_ok [OF ok(1) less.prems(2) m(3) dl] by blast
    show ?thesis
    proof (cases x)
      case None
      have "FindMostWorkChain s = Some (Some m, s)" using Cons m(1) x(1) None by (subst FindMostWorkChain.simps) simp
      moreover have "\<not> work_less em m ec y" if y: "y \<in> set ?C" "?H y = Some ec" for y ec
        using m(4) y work_less_before work_okD [OF ok(2) m(3)] work_okD [OF ok(2) y(2)] by auto
      then have "is_best s (Some m)" using None x(2) m(2,3) by (simp add: is_best_def)
      ultimately show ?thesis by blast
    next
      case (Some tf)
      obtain t failed where tf: "tf = (t, failed)" by (cases tf)
      then obtain d where d: "off_chain ?H ?v m t" "?H t = Some d" "bad_block d" using x(2) Some by auto
      obtain s1 s2 where s1: "mark_best_invalid failed m s = Some s1" and s2: "remove_chain t failed m s1 = Some s2"
        and s3: "let s3 = s2\<lparr>setBlockIndexCandidates := candidates_erase t (setBlockIndexCandidates s2)\<rparr> in
           rank_eq ?H (entries s3) \<and> m_chain s3 = ?v \<and> (\<forall>c. usable (entries s3) (m_chain s3) c \<longleftrightarrow> usable ?H ?v c) \<and>
           set (setBlockIndexCandidates s3) \<subseteq> set ?C \<and> length (setBlockIndexCandidates s3) < length ?C \<and>
           (\<forall>c \<in> set ?C. usable ?H ?v c \<longrightarrow> c \<in> set (setBlockIndexCandidates s3)) \<and>
           (\<forall>b. pindexBestInvalid s3 = Some b \<longrightarrow> ?H b \<noteq> None)"
        using drop_candidate [OF ok(1) less.prems(3) m(2,3) d] by blast
      define s3 where "s3 = s2\<lparr>setBlockIndexCandidates := candidates_erase t (setBlockIndexCandidates s2)\<rparr>"
      note s3 = s3 [unfolded Let_def, folded s3_def]
      have te: "tree_eq ?H (entries s3)" using s3 by (simp add: rank_eq_def)
      have ok3: "candidates_ok s3" by (rule candidates_ok_sub [OF _ _ _ _ less.prems(3)]) (use s3 in auto)
      obtain r s' where r: "FindMostWorkChain s3 = Some (r, s')" "is_best s3 r"
        using less.hyps [of s3] s3 ok3 tree_ok_tree_eq [OF te less.prems(1)] chain_ok_tree_eq [OF te less.prems(2)] by auto
      have "FindMostWorkChain s = FindMostWorkChain s3"
        using Cons m(1) x(1) Some tf s1 s2 by (subst FindMostWorkChain.simps) (simp add: s3_def)
      moreover have "is_best s r" by (rule is_best_sub [OF _ _ _ _ r(2)]) (use s3 in auto)
      ultimately show ?thesis using r(1) by auto
    qed
  qed
qed

lemma queue_ok_insert:
  assumes ok: "index_ok H" and q: "queue_ok H U []" and p: "H p = None" and e: "nTx e = 0" "nChainTx e = 0"
  shows "queue_ok (H(p \<mapsto> e)) U []"
proof -
  let ?H = "H(p \<mapsto> e)"
  have b: "below_linked ?H c \<longleftrightarrow> below_linked H c" if c: "H x = Some c" for x c
    using index_okD(3) [OF ok c] p by (cases "pprev c") (auto simp: below_linked_def parent_def)
  have t: "branch_txs ?H x = branch_txs H x" if c: "H x = Some c" for x c
  proof -
    have "up ?H j x = up H j x \<and> the (up H j x) \<noteq> p" if j: "j \<le> nat (nHeight c)" for j
    proof -
      have "int j \<le> nHeight c" using j index_okD(1) [OF ok c] by linarith
      then obtain y d where y: "up H j x = Some y" "H y = Some d" using up_ex [OF ok c] by blast
      moreover have "x \<noteq> p" using c p by auto
      ultimately show ?thesis using up_insert [OF ok p, of x e j] p by auto
    qed
    then show ?thesis using c p by (auto simp: branch_txs_def)
  qed
  show ?thesis
    unfolding queue_ok_def
  proof (intro conjI allI impI ballI)
    fix x c assume "?H x = Some c"
    then show "nChainTx c \<noteq> 0 \<longleftrightarrow> nTx c \<noteq> 0 \<and> below_linked ?H c" using queue_okD(1) [OF q, of x c] b [of x c] e by (cases "x = p") auto
  next
    fix x c y assume "?H x = Some c" "nTx c \<noteq> 0" "\<not> below_linked ?H c" "pprev c = Some y"
    then show "(y, x) \<in> set U" using queue_okD(3) [OF q, of x c y] b [of x c] e by (cases "x = p") auto
  next
    fix y x assume "(y, x) \<in> set U"
    then show "\<exists>c. ?H x = Some c \<and> pprev c = Some y \<and> nTx c \<noteq> 0" using queue_okD(4) [OF q, of y x] p by (cases "x = p") auto
  next
    fix x c assume "?H x = Some c" "nChainTx c \<noteq> 0"
    then show "unat (nChainTx c) = branch_txs ?H x" using queue_okD(5) [OF q, of x c] t [of x c] e by (cases "x = p") auto
  qed simp
qed

lemma AddToBlockIndex_downloads:
  assumes "blocks_ok s" "downloads_ok s" "hashPrevBlock block \<noteq> block_GetHash block" "AddToBlockIndex block s = Some (p, s')"
  shows "downloads_ok s'"
proof (cases "m_block_index s (block_GetHash block)")
  case None
  have n: "entries s (nextAddr s) = None" using assms(1) by (simp add: blocks_ok_def)
  have "\<forall>q d. m_block_index s (hashPrevBlock block) = Some q \<longrightarrow> entries s q = Some d \<longrightarrow> nHeight d + 1 < 2 ^ 31"
    using AddToBlockIndex_bound [OF assms(4) None assms(3) _ _ n] by blast
  then show ?thesis using AddToBlockIndex_new [of s block] None assms queue_ok_insert [of "entries s" "m_blocks_unlinked s" "nextAddr s"]
    by (auto simp: downloads_ok_def blocks_ok_def tree_ok_def)
qed (use assms in \<open>simp add: AddToBlockIndex_def\<close>)

text \<open>
  C4: Property: when the data of a block arrive, the download flags become exact and the work is done.
  \<open>ReceivedBlockTransactions\<close> returns; afterwards \<open>HaveTxsDownloaded\<close> holds of exactly the blocks all of whose
  ancestors have arrived, \<open>nChainTx\<close> counts the transactions of the whole branch, and the invariant on
  \<open>m_blocks_unlinked\<close> holds again, so blocks may arrive in any order.
\<close>

theorem received_blocks_are_linked:
  assumes "index_reachable s" "downloads_ok s" "entries s p = Some e" "nTx e = 0" "0 < length (vtx block)" "length (vtx block) < 2 ^ 32"
    and "txs_bounded ((entries s)(p \<mapsto> e\<lparr>nTx := of_nat (length (vtx block))\<rparr>))"
    and "\<forall>q f. pprev e = Some q \<longrightarrow> entries s q = Some f \<longrightarrow> IsValid BLOCK_VALID_TREE f = Some True"
    and "nBlockSequenceId s + int (length (m_blocks_unlinked s)) + 1 < 2 ^ 31"
  shows "\<exists>s'. ReceivedBlockTransactions seg block p pos s = Some s' \<and> downloads_ok s' \<and>
    (\<forall>q f. entries s' q = Some f \<longrightarrow>
       nTx f = (if q = p then of_nat (length (vtx block)) else nTx (the (entries s q))) \<and>
       (HaveTxsDownloaded f \<longleftrightarrow> (\<forall>k r. up (entries s') k q = Some r \<longrightarrow> nTx (the (entries s' r)) \<noteq> 0)) \<and>
       (HaveTxsDownloaded f \<longrightarrow> unat (nChainTx f) = (\<Sum>j \<le> nat (nHeight f). unat (nTx (the (entries s' (the (up (entries s') j q))))))))"
proof -
  have ok: "blocks_ok s" "chain_ok (entries s) (m_chain s)" using index_reachable_ok [OF assms(1)] by blast+
  obtain s' where s': "ReceivedBlockTransactions seg block p pos s = Some s'" "downloads_ok s'"
    "same_txs ((entries s)(p \<mapsto> e\<lparr>nTx := of_nat (length (vtx block))\<rparr>)) (entries s')"
    using ReceivedBlockTransactions_downloads [OF ok assms(2-9)] by blast
  have i: "index_ok (entries s')"
    using frame_blocks_ok [OF ReceivedBlockTransactions_frame [OF s'(1)] ok(1)] by (simp add: blocks_ok_def tree_ok_def)
  have "nTx f = (if q = p then of_nat (length (vtx block)) else nTx (the (entries s q)))" if "entries s' q = Some f" for q f
  proof -
    have "map_option nTx (entries s' q) = map_option nTx (((entries s)(p \<mapsto> e\<lparr>nTx := of_nat (length (vtx block))\<rparr>)) q)"
      using s'(3) unfolding same_txs_def by blast
    then show ?thesis using that by (cases "q = p"; cases "entries s q") auto
  qed
  moreover have "HaveTxsDownloaded f \<longleftrightarrow> (\<forall>k r. up (entries s') k q = Some r \<longrightarrow> nTx (the (entries s' r)) \<noteq> 0)" if "entries s' q = Some f" for q f
    using linked_iff_branch [OF i _ that] s'(2) by (simp add: downloads_ok_def HaveTxsDownloaded_def)
  moreover have "unat (nChainTx f) = branch_txs (entries s') q" if "entries s' q = Some f" "HaveTxsDownloaded f" for q f
    using queue_okD(5) [of "entries s'" _ _ q f] s'(2) that by (simp add: downloads_ok_def HaveTxsDownloaded_def)
  ultimately show ?thesis using s'(1,2) unfolding branch_txs_def by auto
qed

theorem received_blocks_are_linked_witness:
  "\<exists>s s' (block :: CBlock) f. index_reachable s \<and> downloads_ok s \<and> ReceivedBlockTransactions 0 block 0 (0, 8) s = Some s' \<and>
     entries s' 0 = Some f \<and> nTx f = 2 \<and> downloads_ok s'"
proof -
  obtain s e where s: "index_reachable s" "entries s = [0 \<mapsto> e]" "pprev e = None" "nHeight e = 0" "nTx e = 0" "nChainTx e = 0"
    "m_blocks_unlinked s = []" "nBlockSequenceId s = 1" using genesis_added by blast
  let ?block = "CBlockHeader.extend CBlockHeader_null (CBlock.fields (replicate 2 \<lparr>vin = [], vout = [], nVersion = 1, nLockTime = 0\<rparr>) False) :: CBlock"
  have len: "length (vtx ?block) = 2" by (simp add: CBlockHeader.defs CBlock.defs)
  have d: "downloads_ok s" using s by (simp add: downloads_ok_def queue_ok_def)
  have b: "txs_bounded ((entries s)(0 \<mapsto> e\<lparr>nTx := of_nat (length (vtx ?block))\<rparr>))" using s len by (simp add: txs_bounded_def branch_txs_def)
  have e: "entries s 0 = Some e" using s by simp
  obtain s' where s': "ReceivedBlockTransactions 0 ?block 0 (0, 8) s = Some s'" "downloads_ok s'" "\<forall>q f. entries s' q = Some f \<longrightarrow>
       nTx f = (if q = 0 then of_nat (length (vtx ?block)) else nTx (the (entries s q)))"
    using received_blocks_are_linked [OF s(1) d e s(5) _ _ b, of 0 "(0, 8)"] s len by auto
  have "tree_eq (entries s) (entries s')" using ReceivedBlockTransactions_frame [OF s'(1)] by (simp add: frame_def)
  then obtain f where "entries s' 0 = Some f" using tree_eqD [of "entries s'" "entries s" 0 e] tree_eq_sym e by blast
  then have "entries s' 0 = Some f" "nTx f = 2" using s'(3) len by simp_all
  then show ?thesis using s(1) d s'(1,2) by blast
qed

lemma genesis_received:
  "\<exists>s e. index_reachable s \<and> entries s = [0 \<mapsto> e] \<and> pprev e = None \<and> nHeight e = 0 \<and> m_chain s = [] \<and>
     setBlockIndexCandidates s = [0] \<and> pindexBestInvalid s = None \<and> \<not> bad_block e"
proof -
  obtain s e where s: "index_reachable s" "entries s = [0 \<mapsto> e]" "pprev e = None" "nHeight e = 0" "m_chain s = []"
    "nBlockSequenceId s = 1" "setBlockIndexCandidates s = []" "pindexBestInvalid s = None" "nStatus e = BLOCK_VALID_TREE"
    "m_blocks_unlinked s = []"
    using genesis_added by blast
  let ?block = "CBlockHeader.extend CBlockHeader_null (CBlock.fields [\<lparr>vin = [], vout = [], nVersion = 1, nLockTime = 0\<rparr>] False) :: CBlock"
  define e' where "e' = e\<lparr>nTx := 1, nChainTx := 0, nFile := 0, nDataPos := 8, nUndoPos := 0, nStatus := BLOCK_VALID_TRANSACTIONS OR BLOCK_HAVE_DATA\<rparr>"
  have st: "(BLOCK_VALID_TREE OR BLOCK_HAVE_DATA) AND BLOCK_FAILED_MASK = 0" "(BLOCK_VALID_TREE OR BLOCK_HAVE_DATA) AND BLOCK_VALID_MASK < BLOCK_VALID_TRANSACTIONS"
    "((BLOCK_VALID_TREE OR BLOCK_HAVE_DATA) AND NOT BLOCK_VALID_MASK) OR BLOCK_VALID_TRANSACTIONS = BLOCK_VALID_TRANSACTIONS OR BLOCK_HAVE_DATA"
    "BLOCK_VALID_TRANSACTIONS AND NOT BLOCK_VALID_MASK = 0"
    "(BLOCK_VALID_TRANSACTIONS OR BLOCK_HAVE_DATA) AND BLOCK_FAILED_MASK = 0" "(BLOCK_VALID_TRANSACTIONS OR BLOCK_HAVE_DATA) AND BLOCK_HAVE_DATA \<noteq> 0"
    unfolding block_status_defs by code_simp+
  have e': "receive_entry [0 \<mapsto> e] 1 ?block (0, 8) e = Some e'"
    using s st by (simp add: receive_entry_def IsWitnessEnabled_def RaiseValidity_def e'_def CBlockHeader.defs CBlock.defs)
  define e'' where "e'' = e'\<lparr>nChainTx := 0 + nTx e', nSequenceId := 1\<rparr>"
  obtain s' where s': "ReceivedBlockTransactions 1 ?block 0 (0, 8) s = Some s'" "entries s' = [0 \<mapsto> e'']" "m_chain s' = []"
    "setBlockIndexCandidates s' = [0]" "pindexBestInvalid s' = None"
    using s e' by (simp add: ReceivedBlockTransactions_def receive_link_def link_block_def chain_tx_below_def competes_with_tip_def chain_Tip_def
        candidates_insert_def e''_def e'_def)
  have "\<not> bad_block e''" "pprev e'' = None" "nHeight e'' = 0" using st s by (simp_all add: bad_block_def e''_def e'_def)
  then show ?thesis using index_reachable.step [OF s(1) index_step.receive [OF s'(1)]] s' by blast
qed



end
