(* ===== verification/Sha256D64.thy ===== *)
theory Sha256D64
  imports Hashes
begin

text \<open>
  The double SHA-256 of 64-byte blocks (src/src/crypto/sha256.cpp), which the Merkle trees
  use.  \<open>TransformD64\<close> runs the three compressions of the two digests with the schedule of the
  padding blocks folded into its constants.  The model keeps the three passes: the lines of
  pass 1 and the last 32 lines of pass 3 are those of \<open>sha256::Transform\<close>, the lines of pass 2
  add constants only, and lines 16 to 31 of pass 3 assign each of the sixteen words once, by
  the expressions of the source.

  The lemmas show that it computes the double digest of the standard, that the generic
  \<open>TransformD64Wrapper\<close> does, and that \<open>SHA256D64\<close> does so for every block whatever vector
  routines are installed, provided these compute the digests of their blocks.
\<close>

section \<open>Definitions\<close>

primrec rounds_kw :: "u32 list \<Rightarrow> nat \<Rightarrow> u32 list \<Rightarrow> u32 list" where
  "rounds_kw [] n v = v"
| "rounds_kw (kw # kws) n v = rounds_kw kws (Suc n) (sha2_round_at sha256_Sigma0 sha256_Sigma1 n kw v)"

definition d64_K2 :: "u32 list" where
  "d64_K2 = [
     0xc28a2f98, 0x71374491, 0xb5c0fbcf, 0xe9b5dba5, 0x3956c25b, 0x59f111f1, 0x923f82a4, 0xab1c5ed5,
     0xd807aa98, 0x12835b01, 0x243185be, 0x550c7dc3, 0x72be5d74, 0x80deb1fe, 0x9bdc06a7, 0xc19bf374,
     0x649b69c1, 0xf0fe4786, 0x0fe1edc6, 0x240cf254, 0x4fe9346f, 0x6cc984be, 0x61b9411e, 0x16f988fa,
     0xf2c65152, 0xa88e5a6d, 0xb019fc65, 0xb9d99ec7, 0x9a1231c3, 0xe70eeaa0, 0xfdb1232b, 0xc7353eb0,
     0x3069bad5, 0xcb976d5f, 0x5a0f118f, 0xdc1eeefd, 0x0a35b689, 0xde0b7a04, 0x58f4ca9d, 0xe15d5b16,
     0x007f3e86, 0x37088980, 0xa507ea32, 0x6fab9537, 0x17406110, 0x0d8cd6f1, 0xcdaa3b6d, 0xc0bbbe37,
     0x83613bda, 0xdb48a363, 0x0b02e931, 0x6fd15ca7, 0x521afaca, 0x31338431, 0x6ed41a95, 0x6d437890,
     0xc39c91f2, 0x9eccabbd, 0xb5c9a0e6, 0x532fb63c, 0xd2c741c6, 0x07237ea3, 0xa4954b68, 0x4c191d76]"

definition d64_K3 :: "u32 list" where
  "d64_K3 = [
     0x5807aa98, 0x12835b01, 0x243185be, 0x550c7dc3, 0x72be5d74, 0x80deb1fe, 0x9bdc06a7, 0xc19bf274]"

text \<open>Lines 16 to 31 of the third pass.\<close>

definition d64_expand :: "u32 list \<Rightarrow> u32 list" where
  "d64_expand w =
     (let w0 = w ! 0; w1 = w ! 1; w2 = w ! 2; w3 = w ! 3; w4 = w ! 4; w5 = w ! 5; w6 = w ! 6; w7 = w ! 7;
          w0 = w0 + sha256_sigma0 w1;
          w1 = w1 + (0xa00000 + sha256_sigma0 w2);
          w2 = w2 + (sha256_sigma1 w0 + sha256_sigma0 w3);
          w3 = w3 + (sha256_sigma1 w1 + sha256_sigma0 w4);
          w4 = w4 + (sha256_sigma1 w2 + sha256_sigma0 w5);
          w5 = w5 + (sha256_sigma1 w3 + sha256_sigma0 w6);
          w6 = w6 + (sha256_sigma1 w4 + 0x100 + sha256_sigma0 w7);
          w7 = w7 + (sha256_sigma1 w5 + w0 + 0x11002000);
          w8 = 0x80000000 + sha256_sigma1 w6 + w1;
          w9 = sha256_sigma1 w7 + w2;
          w10 = sha256_sigma1 w8 + w3;
          w11 = sha256_sigma1 w9 + w4;
          w12 = sha256_sigma1 w10 + w5;
          w13 = sha256_sigma1 w11 + w6;
          w14 = sha256_sigma1 w12 + w7 + 0x400022;
          w15 = 0x100 + sha256_sigma1 w13 + w8 + sha256_sigma0 w0
      in [w0, w1, w2, w3, w4, w5, w6, w7, w8, w9, w10, w11, w12, w13, w14, w15])"

definition TransformD64 :: "bytes \<Rightarrow> bytes" where
  "TransformD64 in' =
     (let w = map (\<lambda>i. ReadBE32 (drop (4 * i) in')) [0..<16];
          v = sha2_rounds sha256_Sigma0 sha256_Sigma1 sha256_sigma0 sha256_sigma1 sha256_K 0 w sha256_Initialize;
          t = map2 (+) v sha256_Initialize;
          w = map2 (+) t (rounds_kw d64_K2 0 t);
          v = rounds_kw (map2 (+) (take 8 sha256_K) w @ d64_K3) 0 sha256_Initialize;
          w = d64_expand w;
          v = rounds_kw (map2 (+) (take 16 (drop 16 sha256_K)) w) 16 v;
          v = sha2_rounds sha256_Sigma0 sha256_Sigma1 sha256_sigma0 sha256_sigma1 (drop 32 sha256_K) 32 w v
      in concat (map WriteBE32 (map2 (+) v sha256_Initialize)))"

definition padding1 :: bytes where
  "padding1 = 0x80 # replicate 61 0 @ [2, 0]"

definition TransformD64Wrapper :: "(u32 list \<Rightarrow> bytes \<Rightarrow> u32 list) \<Rightarrow> bytes \<Rightarrow> bytes" where
  "TransformD64Wrapper tr in' =
     (let s = tr sha256_Initialize in';
          s = tr s padding1;
          buffer2 = concat (map WriteBE32 s) @ 0x80 # replicate 29 0 @ [1, 0];
          s = tr sha256_Initialize buffer2
      in concat (map WriteBE32 s))"

text \<open>One of the loops of \<open>SHA256D64\<close>: a routine that takes n blocks at once.  The result is
  the output, the input left and the number of blocks left.\<close>

fun d64_loop :: "nat \<Rightarrow> (bytes \<Rightarrow> bytes) \<Rightarrow> bytes \<Rightarrow> bytes \<Rightarrow> nat \<Rightarrow> bytes \<times> bytes \<times> nat" where
  "d64_loop n f out in' blocks =
     (if 0 < n \<and> n \<le> blocks then d64_loop n f (out @ f (take (64 * n) in')) (drop (64 * n) in') (blocks - n)
      else (out, in', blocks))"

declare d64_loop.simps [simp del]

definition d64_stage :: "nat \<Rightarrow> (bytes \<Rightarrow> bytes) option \<Rightarrow> bytes \<times> bytes \<times> nat \<Rightarrow> bytes \<times> bytes \<times> nat" where
  "d64_stage n f = (\<lambda>(out, in', blocks). case f of None \<Rightarrow> (out, in', blocks) | Some f \<Rightarrow> d64_loop n f out in' blocks)"

definition SHA256D64 :: "(bytes \<Rightarrow> bytes) option \<Rightarrow> (bytes \<Rightarrow> bytes) option \<Rightarrow> (bytes \<Rightarrow> bytes) option \<Rightarrow> (bytes \<Rightarrow> bytes) \<Rightarrow>
    bytes \<Rightarrow> nat \<Rightarrow> bytes" where
  "SHA256D64 d8 d4 d2 d1 in' blocks =
     fst (d64_stage 1 (Some d1) (d64_stage 2 d2 (d64_stage 4 d4 (d64_stage 8 d8 ([], in', blocks)))))"

section \<open>The three passes\<close>

text \<open>The constant-plus-word values of a run of rounds.\<close>

primrec kws :: "u32 list \<Rightarrow> nat \<Rightarrow> u32 list \<Rightarrow> u32 list" where
  "kws [] n w = []"
| "kws (k # ks) n w =
     (let w = sha2_schedule sha256_sigma0 sha256_sigma1 n w in (k + w ! (n mod 16)) # kws ks (Suc n) w)"

primrec ring_after :: "nat \<Rightarrow> nat \<Rightarrow> u32 list \<Rightarrow> u32 list" where
  "ring_after 0 n w = w"
| "ring_after (Suc k) n w = ring_after k (Suc n) (sha2_schedule sha256_sigma0 sha256_sigma1 n w)"

abbreviation rounds :: "u32 list \<Rightarrow> nat \<Rightarrow> u32 list \<Rightarrow> u32 list \<Rightarrow> u32 list" where
  "rounds \<equiv> sha2_rounds sha256_Sigma0 sha256_Sigma1 sha256_sigma0 sha256_sigma1"

lemma rounds_kws: "rounds ks n w v = rounds_kw (kws ks n w) n v"
  by (induction ks arbitrary: n w v) (simp_all add: Let_def)

lemma rounds_append: "rounds (ks @ ks') n w v = rounds ks' (n + length ks) (ring_after (length ks) n w) (rounds ks n w v)"
  by (induction ks arbitrary: n w v) (simp_all add: Let_def)

lemma sha2_schedule_low: "n < 16 \<Longrightarrow> sha2_schedule s0 s1 n w = w"
  by (simp add: sha2_schedule_def)

lemma ring_after_low: "n + k \<le> 16 \<Longrightarrow> ring_after k n w = w"
  by (induction k arbitrary: n) (simp_all add: sha2_schedule_low)

lemma sigma_constants:
  "sha256_sigma1 0 = 0" "sha256_sigma0 0 = 0" "sha256_sigma1 0x100 = 0xa00000" "sha256_sigma0 0x80000000 = 0x11002000"
  "sha256_sigma0 0x100 = 0x400022"
  by (simp_all add: sha256_sigma1_def sha256_sigma0_def)

lemma kws_padding: "kws sha256_K 0 [0x80000000, 0, 0, 0, 0, 0, 0, 0, 0, 0, 0, 0, 0, 0, 0, 0x200] = d64_K2"
  by code_simp

lemma ring_after_fold: "ring_after k n w = fold (sha2_schedule sha256_sigma0 sha256_sigma1) [n..<n + k] w"
proof (induction k arbitrary: n w)
  case (Suc k)
  have "[n..<n + Suc k] = n # [Suc n..<Suc n + k]" by (simp add: upt_conv_Cons del: upt_Suc)
  then show ?case using Suc by simp
qed simp

lemma ring_expand:
  assumes "length w = 8"
  shows "ring_after 16 16 (w @ [0x80000000, 0, 0, 0, 0, 0, 0, 0x100]) = d64_expand w"
proof -
  obtain w0 w1 w2 w3 w4 w5 w6 w7 where w: "w = [w0, w1, w2, w3, w4, w5, w6, w7]" using list8 [OF assms] by blast
  have u: "[16..<16 + 16] = [16 :: nat, 17, 18, 19, 20, 21, 22, 23, 24, 25, 26, 27, 28, 29, 30, 31]" by (simp add: upt_rec_numeral)
  show ?thesis unfolding ring_after_fold u w
    by (simp add: sha2_schedule_def sigma_constants d64_expand_def Let_def add.assoc)
qed

lemma ReadBE32_WriteBE32 [simp]: "ReadBE32 (WriteBE32 x @ r) = x"
  by (simp add: ReadBE32_def WriteBE32_def)

lemma sha256_chunks:
  "sha256 m = concat (map WriteBE32 (foldl sha256_Transform sha256_Initialize
     (chunks 64 (md_pad 64 (rev (le_bytes 8 (of_nat (8 * length m) :: u64))) m))))"
proof -
  have "foldl sha256_Transform sha256_Initialize cs = foldl (\<lambda>H c. fips_compress fips256_Sigma0 fips256_Sigma1
      fips256_sigma0 fips256_sigma1 sha256_K (map (\<lambda>i. ReadBE32 (drop (4 * i) c)) [0..<16]) H) sha256_Initialize cs" for cs
    by (rule foldl_transform [where k = 8, OF sha256_Transform_fips length_fips_compress]) (simp_all add: sha256_Initialize_def)
  then show ?thesis by (simp only: sha256_def)
qed

lemma length_sha256_Transform: "length s = 8 \<Longrightarrow> length (sha256_Transform s c) = 8"
  by (simp add: sha256_Transform_fips length_fips_compress)

lemma length_sha256_Initialize [simp]: "length sha256_Initialize = 8"
  by (simp add: sha256_Initialize_def)

lemma pad_64: "length m = 64 \<Longrightarrow> md_pad 64 (rev (le_bytes 8 (of_nat (8 * length m) :: u64))) m = m @ padding1"
proof -
  have "rev (le_bytes 8 (512 :: u64)) = replicate 6 0 @ [2, 0]" by code_simp
  then show "length m = 64 \<Longrightarrow> md_pad 64 (rev (le_bytes 8 (of_nat (8 * length m) :: u64))) m = m @ padding1"
    by (simp add: md_pad_def padding1_def flip: replicate_add)
qed

lemma pad_32: "length m = 32 \<Longrightarrow> md_pad 64 (rev (le_bytes 8 (of_nat (8 * length m) :: u64))) m = m @ 0x80 # replicate 29 0 @ [1, 0]"
proof -
  have "rev (le_bytes 8 (256 :: u64)) = replicate 6 0 @ [1, 0]" by code_simp
  then show "length m = 32 \<Longrightarrow> md_pad 64 (rev (le_bytes 8 (of_nat (8 * length m) :: u64))) m = m @ 0x80 # replicate 29 0 @ [1, 0]"
    by (simp add: md_pad_def flip: replicate_add)
qed

lemma chunks_one: "length m = 64 \<Longrightarrow> chunks 64 m = [m]"
  by (subst chunks.simps) (auto simp: chunks.simps)

lemma chunks_two: "length a = 64 \<Longrightarrow> length b = 64 \<Longrightarrow> chunks 64 (a @ b) = [a, b]"
  by (subst chunks.simps) (auto simp: chunks_one)

lemma length_padding1: "length padding1 = 64"
  by (simp add: padding1_def)

lemma sha256_of_64:
  assumes "length m = 64"
  shows "sha256 m = concat (map WriteBE32 (sha256_Transform (sha256_Transform sha256_Initialize m) padding1))"
  unfolding sha256_chunks pad_64 [OF assms] chunks_two [OF assms length_padding1] by simp

lemma sha256_of_32:
  assumes "length m = 32"
  shows "sha256 m = concat (map WriteBE32 (sha256_Transform sha256_Initialize (m @ 0x80 # replicate 29 0 @ [1, 0])))"
proof -
  have "length (m @ 0x80 # replicate 29 0 @ [1, 0]) = 64" using assms by simp
  then show ?thesis unfolding sha256_chunks pad_32 [OF assms] by (simp only: chunks_one foldl.simps)
qed

lemma length_words: "length s = 8 \<Longrightarrow> length (concat (map WriteBE32 s)) = 32"
  by (simp add: length_concat_const [where k = 4])

lemma Wrapper_double:
  assumes "length m = 64"
  shows "TransformD64Wrapper sha256_Transform m = sha256 (sha256 m)"
  unfolding TransformD64Wrapper_def Let_def sha256_of_64 [OF assms]
  by (subst sha256_of_32) (simp_all add: length_words length_sha256_Transform)

lemma read_padding1:
  "map (\<lambda>i. ReadBE32 (drop (4 * i) padding1)) [0..<16] = [0x80000000, 0, 0, 0, 0, 0, 0, 0, 0, 0, 0, 0, 0, 0, 0, 0x200]"
  by code_simp

lemma read_buffer2:
  assumes "length s = 8"
  shows "map (\<lambda>i. ReadBE32 (drop (4 * i) (concat (map WriteBE32 s) @ 0x80 # replicate 29 0 @ [1, 0]))) [0..<16] =
    s @ [0x80000000, 0, 0, 0, 0, 0, 0, 0x100]"
proof -
  obtain a b c d e f g h where s: "s = [a, b, c, d, e, f, g, h]" using list8 [OF assms] by blast
  let ?p = "0x80 # replicate 29 0 @ [1, 0] :: bytes"
  have p: "map (\<lambda>i. ReadBE32 (drop (4 * i) ?p)) [0..<8] = [0x80000000, 0, 0, 0, 0, 0, 0, 0x100]" by code_simp
  have u: "[0..<16] = [0..<8] @ map (\<lambda>i. i + 8) [0..<8]" by code_simp
  have lo: "map (\<lambda>i. ReadBE32 (drop (4 * i) (concat (map WriteBE32 s) @ ?p))) [0..<8] = s"
    by (simp add: s upt_rec)
  have hi: "drop (4 * (i + 8)) (concat (map WriteBE32 s) @ ?p) = drop (4 * i) ?p" for i
    using length_words [OF assms] by (simp add: add_mult_distrib2)
  show ?thesis unfolding u map_append map_map o_def hi lo p ..
qed

lemma kws_append: "kws (ks @ ks') n w = kws ks n w @ kws ks' (n + length ks) (ring_after (length ks) n w)"
  by (induction ks arbitrary: n w) (simp_all add: Let_def)

text \<open>The words of a run are those of the schedule, and after 32 rounds the ring holds
  words 16 to 31 in their order.\<close>

abbreviation words :: "u32 list \<Rightarrow> nat \<Rightarrow> u32" where
  "words \<equiv> fips_W sha256_sigma0 sha256_sigma1"

lemma kws_words:
  "ring_of (words M) n w \<Longrightarrow> kws ks n w = map2 (+) ks (map (words M) [n..<n + length ks])"
proof (induction ks arbitrary: n w)
  case (Cons k ks)
  note r = sha2_schedule_ring [OF Cons.prems]
  have "[n..<n + length (k # ks)] = n # [Suc n..<Suc n + length ks]" by (simp add: upt_conv_Cons del: upt_Suc)
  then show ?case using Cons.IH [OF conjunct1 [OF r]] r by (simp add: Let_def del: upt_Suc)
qed simp

lemma ring_after_words: "ring_of (words M) n w \<Longrightarrow> ring_of (words M) (n + k) (ring_after k n w)"
proof (induction k arbitrary: n w)
  case (Suc k)
  show ?case using Suc.IH [OF conjunct1 [OF sha2_schedule_ring [OF Suc.prems]]] by simp
qed simp

lemma ring_start: "length M = 16 \<Longrightarrow> ring_of (words M) 0 M"
  by (intro ring_of_start) (simp_all add: fips_W.simps)

lemma ring_16: "ring_of W 16 w \<Longrightarrow> w = map W [0..<16]"
  by (rule nth_equalityI) (simp_all add: ring_of_def)

lemma ring_32: "ring_of W 32 w \<Longrightarrow> w = map W [16..<32]"
proof (rule nth_equalityI)
  assume r: "ring_of W 32 w"
  then show "length w = length (map W [16..<32])" by (simp add: ring_of_def)
  fix i assume "i < length w"
  then have i: "i < 16" using r by (simp add: ring_of_def)
  then have "w ! ((16 + i) mod 16) = W (16 + i)" using r unfolding ring_of_def by (auto simp del: mod_add_self1)
  then show "w ! i = map W [16..<32] ! i" using i by (simp del: upt_rec_numeral)
qed

lemma pass3:
  assumes "length w = 8" "length v = 8"
  shows "rounds sha256_K 0 (w @ [0x80000000, 0, 0, 0, 0, 0, 0, 0x100]) v =
    rounds (drop 32 sha256_K) 32 (d64_expand w)
      (rounds_kw (map2 (+) (take 16 (drop 16 sha256_K)) (d64_expand w)) 16 (rounds_kw (map2 (+) (take 8 sha256_K) w @ d64_K3) 0 v))"
proof -
  let ?w = "w @ [0x80000000, 0, 0, 0, 0, 0, 0, 0x100] :: u32 list"
  have r0: "ring_of (words ?w) 0 ?w" by (rule ring_start) (simp add: assms)
  have r16: "ring_of (words ?w) 16 ?w" using ring_after_words [OF r0, of 16] by (simp add: ring_after_low)
  have r32: "ring_of (words ?w) 32 (d64_expand w)"
    using ring_after_words [OF r16, of 16] by (simp add: ring_expand [OF assms(1)])
  have k: "sha256_K = take 16 sha256_K @ take 16 (drop 16 sha256_K) @ drop 32 sha256_K" by code_simp
  have l: "length (take 16 sha256_K) = 16" "length (take 16 (drop 16 sha256_K)) = 16" by code_simp+
  have lo: "kws (take 16 sha256_K) 0 ?w = map2 (+) (take 8 sha256_K) w @ d64_K3"
  proof -
    let ?c = "[0xd807aa98, 0x12835b01, 0x243185be, 0x550c7dc3, 0x72be5d74, 0x80deb1fe, 0x9bdc06a7, 0xc19bf174] :: u32 list"
    have c: "take 16 sha256_K = take 8 sha256_K @ ?c" "length (take 8 sha256_K) = 8" by code_simp+
    have "kws (take 16 sha256_K) 0 ?w = map2 (+) (take 16 sha256_K) ?w"
      using kws_words [OF r0, of "take 16 sha256_K", unfolded l add_0, folded ring_16 [OF r16]] .
    also have "\<dots> = map2 (+) (take 8 sha256_K) w @ map2 (+) ?c [0x80000000, 0, 0, 0, 0, 0, 0, 0x100]"
      using c(2) assms(1) unfolding c(1) by (simp only: zip_append map_append)
    finally show ?thesis by (simp add: d64_K3_def)
  qed
  have hi: "kws (take 16 (drop 16 sha256_K)) 16 ?w = map2 (+) (take 16 (drop 16 sha256_K)) (d64_expand w)"
    using kws_words [OF r16, of "take 16 (drop 16 sha256_K)"] ring_32 [OF r32] unfolding l(2) by simp
  show ?thesis
    by (subst (1) k) (simp only: rounds_append l add_0 ring_after_low ring_expand [OF assms(1)] rounds_kws [of "take 16 sha256_K"] lo
      rounds_kws [of "take 16 (drop 16 sha256_K)"] hi numeral_plus_numeral arith_simps order.refl)
qed

lemma map2_add_commute: "map2 (+) xs ys = map2 (+) ys (xs :: 'a::ab_semigroup_add list)"
  by (rule nth_equalityI) (simp_all add: add.commute)

lemma TransformD64_double:
  assumes "length m = 64"
  shows "TransformD64 m = sha256 (sha256 m)"
proof -
  let ?t = "sha256_Transform sha256_Initialize m"
  let ?s = "sha256_Transform ?t padding1"
  have l: "length ?t = 8" "length ?s = 8" by (simp_all add: length_sha256_Transform)
  have p1: "map2 (+) (rounds sha256_K 0 (map (\<lambda>i. ReadBE32 (drop (4 * i) m)) [0..<16]) sha256_Initialize) sha256_Initialize = ?t"
    unfolding sha256_Transform_def Let_def by (rule map2_add_commute)
  have p2: "map2 (+) ?t (rounds_kw d64_K2 0 ?t) = ?s"
    unfolding sha256_Transform_def [of ?t] Let_def read_padding1 rounds_kws kws_padding ..
  have p3: "sha256_Transform sha256_Initialize (concat (map WriteBE32 ?s) @ 0x80 # replicate 29 0 @ [1, 0]) =
      map2 (+) sha256_Initialize (rounds sha256_K 0 (?s @ [0x80000000, 0, 0, 0, 0, 0, 0, 0x100]) sha256_Initialize)"
    unfolding sha256_Transform_def [of sha256_Initialize "concat (map WriteBE32 ?s) @ 0x80 # replicate 29 0 @ [1, 0]"]
      Let_def read_buffer2 [OF l(2)] ..
  have "TransformD64 m = concat (map WriteBE32 (map2 (+) (rounds sha256_K 0 (?s @ [0x80000000, 0, 0, 0, 0, 0, 0, 0x100]) sha256_Initialize) sha256_Initialize))"
    unfolding TransformD64_def Let_def p1 p2 pass3 [OF l(2) length_sha256_Initialize] ..
  also have "\<dots> = sha256 (sha256 m)"
    unfolding sha256_of_64 [OF assms] sha256_of_32 [OF length_words [OF l(2)]] p3 by (simp only: map2_add_commute)
  finally show ?thesis .
qed

text \<open>The digests of the first n blocks of 64 bytes.\<close>

primrec double_sha256s :: "nat \<Rightarrow> bytes \<Rightarrow> bytes" where
  "double_sha256s 0 m = []"
| "double_sha256s (Suc n) m = sha256 (sha256 (take 64 m)) @ double_sha256s n (drop 64 m)"

lemma double_sha256s_add: "double_sha256s (k + n) m = double_sha256s k m @ double_sha256s n (drop (64 * k) m)"
  by (induction k arbitrary: m) (simp_all add: add.commute)

lemma double_sha256s_take: "double_sha256s n (take (64 * n) m) = double_sha256s n m"
  by (induction n arbitrary: m) (simp_all add: drop_take min_def)

definition digests_blocks :: "nat \<Rightarrow> (bytes \<Rightarrow> bytes) \<Rightarrow> bool" where
  "digests_blocks n f \<longleftrightarrow> (\<forall>m. length m = 64 * n \<longrightarrow> f m = double_sha256s n m)"

text \<open>Every loop keeps the output still to be produced.\<close>

definition d64_inv :: "bytes \<Rightarrow> bytes \<times> bytes \<times> nat \<Rightarrow> bool" where
  "d64_inv result = (\<lambda>(out, m, blocks). out @ double_sha256s blocks m = result \<and> 64 * blocks \<le> length m)"

lemma d64_loop_inv:
  assumes "digests_blocks n f" "0 < n" "d64_inv result (out, m, blocks)"
  shows "d64_inv result (d64_loop n f out m blocks) \<and> snd (snd (d64_loop n f out m blocks)) < n"
  using assms
proof (induction n f out m blocks rule: d64_loop.induct)
  case (1 n f out m blocks)
  show ?case
  proof (cases "n \<le> blocks")
    case True
    then have b: "blocks = n + (blocks - n)" by simp
    have l: "64 * blocks \<le> length m" using 1(4) by (simp add: d64_inv_def)
    then have "length (take (64 * n) m) = 64 * n" using True by simp
    then have f: "f (take (64 * n) m) = double_sha256s n m"
      using 1(2) by (simp add: digests_blocks_def double_sha256s_take)
    have "d64_inv result (out @ f (take (64 * n) m), drop (64 * n) m, blocks - n)"
      using 1(4) l True double_sha256s_add [of n "blocks - n" m] by (simp add: d64_inv_def f)
    then show ?thesis using 1(1) [OF _ 1(2,3)] 1(3) True by (subst (1 2) d64_loop.simps) simp
  next
    case False
    then show ?thesis using 1(4) by (subst (1 2) d64_loop.simps) simp
  qed
qed

lemma d64_stage_inv:
  assumes "\<forall>f. d = Some f \<longrightarrow> digests_blocks n f" "0 < n" "d64_inv result st"
  shows "d64_inv result (d64_stage n d st)"
  using assms d64_loop_inv [of n _ result] by (cases st, cases d) (auto simp: d64_stage_def)

lemma SHA256D64_digests:
  assumes "\<forall>f. d8 = Some f \<longrightarrow> digests_blocks 8 f" "\<forall>f. d4 = Some f \<longrightarrow> digests_blocks 4 f"
    "\<forall>f. d2 = Some f \<longrightarrow> digests_blocks 2 f" "digests_blocks 1 d1" "64 * blocks \<le> length m"
  shows "SHA256D64 d8 d4 d2 d1 m blocks = double_sha256s blocks m"
proof -
  have "d64_inv (double_sha256s blocks m) ([], m, blocks)" using assms(5) by (simp add: d64_inv_def)
  then have i: "d64_inv (double_sha256s blocks m) (d64_stage 2 d2 (d64_stage 4 d4 (d64_stage 8 d8 ([], m, blocks))))"
    using assms by (intro d64_stage_inv) simp_all
  obtain out m' b where s: "d64_stage 2 d2 (d64_stage 4 d4 (d64_stage 8 d8 ([], m, blocks))) = (out, m', b)"
    by (metis prod_cases3)
  have "d64_inv (double_sha256s blocks m) (d64_loop 1 d1 out m' b) \<and> snd (snd (d64_loop 1 d1 out m' b)) < 1"
    using assms(4) i by (intro d64_loop_inv) (simp_all add: s)
  then show ?thesis unfolding SHA256D64_def s by (auto simp: d64_stage_def d64_inv_def)
qed

text \<open>
  C19: Property: the specialised double hash of 64-byte blocks is the double SHA-256 of the standard.
  This holds for \<open>TransformD64\<close> with its folded padding constants, for \<open>TransformD64Wrapper\<close> over the
  generic compression, and for \<open>SHA256D64\<close> over any number of blocks, whichever vector routines are
  installed, as long as each of these computes the digests of its own blocks.
\<close>

theorem sha256d64_is_double_sha256:
  assumes "length m = 64" "\<forall>f. d8 = Some f \<longrightarrow> digests_blocks 8 f" "\<forall>f. d4 = Some f \<longrightarrow> digests_blocks 4 f"
    "\<forall>f. d2 = Some f \<longrightarrow> digests_blocks 2 f" "64 * blocks \<le> length ms"
  shows "TransformD64 m = sha256 (sha256 m) \<and> TransformD64Wrapper sha256_Transform m = sha256 (sha256 m)
    \<and> SHA256D64 d8 d4 d2 TransformD64 ms blocks = double_sha256s blocks ms"
proof -
  have "digests_blocks 1 TransformD64" by (simp add: digests_blocks_def TransformD64_double)
  then show ?thesis
    using TransformD64_double [OF assms(1)] Wrapper_double [OF assms(1)] SHA256D64_digests [OF assms(2-4) _ assms(5)] by blast
qed

theorem sha256d64_is_double_sha256_witness:
  "TransformD64 (replicate 64 7) = sha256 (sha256 (replicate 64 7))
    \<and> TransformD64Wrapper sha256_Transform (replicate 64 7) = sha256 (sha256 (replicate 64 7))
    \<and> SHA256D64 None None (Some (double_sha256s 2)) TransformD64 (replicate 192 7) 3 = double_sha256s 3 (replicate 192 7)"
  using sha256d64_is_double_sha256 [of "replicate 64 7" None None "Some (double_sha256s 2)" 3 "replicate 192 7"]
  by (simp add: digests_blocks_def)

end
