(* ===== verification/Merkle.thy ===== *)
theory Merkle
  imports Sha256D64
begin

text \<open>
  Merkle trees (src/src/consensus/merkle.cpp) and the partial trees with which a filtered block
  proves some of its transactions (src/src/merkleblock.h, merkleblock.cpp).  The size bound of
  \<open>ExtractMatches\<close> depends on a governance parameter, \<open>dgpMaxBlockSize\<close>, an argument here.
  Node positions are natural numbers: a tree of at most 2^31 leaves has no position that wraps.
  Failed assertions and reads beyond an array give \<open>None\<close>.

  The lemmas show that the root is the one of the level-by-level reference, that the mutation
  flag makes the root bind the list of leaves of a tree of known height, and that a partial tree
  yields the root and exactly the matched leaves.
\<close>

section \<open>Roots\<close>

fun merkle_mutation :: "uint256 list \<Rightarrow> bool" where
  "merkle_mutation (a # b # hs) = (a = b \<or> merkle_mutation hs)"
| "merkle_mutation _ = False"

text \<open>The vector of hashes is one array of bytes for \<open>SHA256D64\<close>, which writes the digests over
  its first half.\<close>

definition hashes_of :: "nat \<Rightarrow> bytes \<Rightarrow> uint256 list" where
  "hashes_of n m = map (\<lambda>i. take 32 (drop (32 * i) m)) [0..<n]"

definition merkle_step :: "uint256 list \<Rightarrow> uint256 list" where
  "merkle_step hashes =
     (let hashes = (if odd (length hashes) then hashes @ [last hashes] else hashes)
      in hashes_of (length hashes div 2) (SHA256D64 None None None TransformD64 (concat hashes) (length hashes div 2)))"

lemma length_merkle_step: "length (merkle_step hs) = (length hs + 1) div 2"
  by (simp add: merkle_step_def hashes_of_def Let_def)

function merkle_loop :: "bool \<Rightarrow> uint256 list \<Rightarrow> bool \<Rightarrow> uint256 list \<times> bool" where
  "merkle_loop mutated hashes mutation =
     (if length hashes > 1
      then merkle_loop mutated (merkle_step hashes) (mutation \<or> (mutated \<and> merkle_mutation hashes))
      else (hashes, mutation))"
  by pat_completeness auto
termination merkle_loop
  by (relation "measure (\<lambda>(_, hashes, _). length hashes)") (auto simp: length_merkle_step)

declare merkle_loop.simps [simp del]

text \<open>\<open>mutated\<close> says whether the caller asks for the flag.\<close>

definition ComputeMerkleRoot :: "bool \<Rightarrow> uint256 list \<Rightarrow> uint256 \<times> bool" where
  "ComputeMerkleRoot mutated hashes =
     (let (hashes, mutation) = merkle_loop mutated hashes False
      in (if hashes = [] then uint256_null else hashes ! 0, mutation))"

definition BlockMerkleRoot :: "bool \<Rightarrow> CBlock \<Rightarrow> uint256 \<times> bool" where
  "BlockMerkleRoot mutated block = ComputeMerkleRoot mutated (map GetHash (vtx block))"

text \<open>The leaves of coinbase and coinstake are null.  A block without them makes the source write
  beyond its array.\<close>

definition BlockWitnessMerkleRoot :: "bool \<Rightarrow> bool option \<Rightarrow> CBlock \<Rightarrow> (uint256 \<times> bool) option" where
  "BlockWitnessMerkleRoot mutated pfProofOfStake block =
     (let fProofOfStake = (case pfProofOfStake of Some b \<Rightarrow> b | None \<Rightarrow> block_IsProofOfStake block);
          skip = (if fProofOfStake then 2 else 1)
      in if length (vtx block) < skip then None
         else Some (ComputeMerkleRoot mutated (replicate skip uint256_null @ map GetWitnessHash (drop skip (vtx block)))))"

section \<open>Partial trees\<close>

record CPartialMerkleTree =
  nTransactions :: u32
  vBits :: "bool list"
  vHash :: "uint256 list"
  fBad :: bool

definition CPartialMerkleTree_empty :: CPartialMerkleTree where
  "CPartialMerkleTree_empty = \<lparr>nTransactions = 0, vBits = [], vHash = [], fBad = True\<rparr>"

definition CalcTreeWidth :: "u32 \<Rightarrow> nat \<Rightarrow> u32" where
  "CalcTreeWidth n height = drop_bit height (n + push_bit height 1 - 1)"

primrec CalcHash :: "u32 \<Rightarrow> nat \<Rightarrow> nat \<Rightarrow> uint256 list \<Rightarrow> uint256 option" where
  "CalcHash n 0 pos vTxid = (if pos < length vTxid then Some (vTxid ! pos) else None)"
| "CalcHash n (Suc height) pos vTxid =
     (if length vTxid = 0 then None
      else case CalcHash n height (pos * 2) vTxid of
        None \<Rightarrow> None
      | Some left \<Rightarrow>
          (case (if pos * 2 + 1 < unat (CalcTreeWidth n height) then CalcHash n height (pos * 2 + 1) vTxid else Some left) of
             None \<Rightarrow> None
           | Some right \<Rightarrow> Some (Hash_pair left right)))"

definition parent_of_match :: "u32 \<Rightarrow> nat \<Rightarrow> nat \<Rightarrow> bool list \<Rightarrow> bool option" where
  "parent_of_match n height pos vMatch =
     (let ps = [unat (push_bit height (of_nat pos :: u32))..<min (unat (push_bit height (of_nat (pos + 1) :: u32))) (unat n)]
      in if list_all (\<lambda>p. p < length vMatch) ps then Some (list_ex (\<lambda>p. vMatch ! p) ps) else None)"

fun TraverseAndBuild :: "nat \<Rightarrow> nat \<Rightarrow> uint256 list \<Rightarrow> bool list \<Rightarrow> CPartialMerkleTree \<Rightarrow> CPartialMerkleTree option" where
  "TraverseAndBuild height pos vTxid vMatch t =
     (case parent_of_match (nTransactions t) height pos vMatch of
        None \<Rightarrow> None
      | Some fParentOfMatch \<Rightarrow>
          (let t = t\<lparr>vBits := vBits t @ [fParentOfMatch]\<rparr>
           in if height = 0 \<or> \<not> fParentOfMatch then
                (case CalcHash (nTransactions t) height pos vTxid of
                   None \<Rightarrow> None | Some h \<Rightarrow> Some (t\<lparr>vHash := vHash t @ [h]\<rparr>))
              else
                (case TraverseAndBuild (height - 1) (pos * 2) vTxid vMatch t of
                   None \<Rightarrow> None
                 | Some t \<Rightarrow>
                     if pos * 2 + 1 < unat (CalcTreeWidth (nTransactions t) (height - 1))
                     then TraverseAndBuild (height - 1) (pos * 2 + 1) vTxid vMatch t else Some t)))"

declare TraverseAndBuild.simps [simp del]

text \<open>The height at which the tree has one node.  At height 31 every 32-bit count leaves at most
  one node, so the loop needs no further bound.\<close>

function tree_height :: "u32 \<Rightarrow> nat \<Rightarrow> nat" where
  "tree_height n h = (if h < 31 \<and> CalcTreeWidth n h > 1 then tree_height n (Suc h) else h)"
  by pat_completeness auto
termination tree_height
  by (relation "measure (\<lambda>(_, h). 31 - h)") auto

declare tree_height.simps [simp del]

definition CPartialMerkleTree_new :: "uint256 list \<Rightarrow> bool list \<Rightarrow> CPartialMerkleTree option" where
  "CPartialMerkleTree_new vTxid vMatch =
     (let t = \<lparr>nTransactions = of_nat (length vTxid), vBits = [], vHash = [], fBad = False\<rparr>
      in TraverseAndBuild (tree_height (nTransactions t) 0) 0 vTxid vMatch t)"

text \<open>What the extraction reads and changes through its reference parameters.\<close>

record extraction =
  nBitsUsed :: nat
  nHashUsed :: nat
  matches :: "uint256 list"
  indices :: "nat list"
  bad :: bool

fun TraverseAndExtract :: "CPartialMerkleTree \<Rightarrow> nat \<Rightarrow> nat \<Rightarrow> extraction \<Rightarrow> uint256 \<times> extraction" where
  "TraverseAndExtract t height pos x =
     (if nBitsUsed x \<ge> length (vBits t) then (uint256_null, x\<lparr>bad := True\<rparr>)
      else
        let fParentOfMatch = vBits t ! nBitsUsed x; x = x\<lparr>nBitsUsed := nBitsUsed x + 1\<rparr>
        in if height = 0 \<or> \<not> fParentOfMatch then
             if nHashUsed x \<ge> length (vHash t) then (uint256_null, x\<lparr>bad := True\<rparr>)
             else
               let hash = vHash t ! nHashUsed x; x = x\<lparr>nHashUsed := nHashUsed x + 1\<rparr>
               in (hash, if height = 0 \<and> fParentOfMatch then x\<lparr>matches := matches x @ [hash], indices := indices x @ [pos]\<rparr> else x)
           else
             let (left, x) = TraverseAndExtract t (height - 1) (pos * 2) x
             in if pos * 2 + 1 < unat (CalcTreeWidth (nTransactions t) (height - 1)) then
                  let (right, x) = TraverseAndExtract t (height - 1) (pos * 2 + 1) x
                  in (Hash_pair left right, if right = left then x\<lparr>bad := True\<rparr> else x)
                else (Hash_pair left left, x))"

declare TraverseAndExtract.simps [simp del]

definition WITNESS_SCALE_FACTOR :: int where "WITNESS_SCALE_FACTOR = 4"
definition MIN_TRANSACTION_WEIGHT :: nat where "MIN_TRANSACTION_WEIGHT = nat WITNESS_SCALE_FACTOR * 60"

text \<open>The index vector of the caller is appended to, not cleared.\<close>

definition ExtractMatches :: "u32 \<Rightarrow> nat list \<Rightarrow> CPartialMerkleTree \<Rightarrow> uint256 \<times> uint256 list \<times> nat list \<times> CPartialMerkleTree" where
  "ExtractMatches dgpMaxBlockSize vnIndex t =
     (if nTransactions t = 0 then (uint256_null, [], vnIndex, t)
      else if unat (nTransactions t) > unat (dgpMaxBlockSize * of_int WITNESS_SCALE_FACTOR) div MIN_TRANSACTION_WEIGHT
        then (uint256_null, [], vnIndex, t)
      else if length (vHash t) > unat (nTransactions t) then (uint256_null, [], vnIndex, t)
      else if length (vBits t) < length (vHash t) then (uint256_null, [], vnIndex, t)
      else
        let (root, x) = TraverseAndExtract t (tree_height (nTransactions t) 0) 0
              \<lparr>nBitsUsed = 0, nHashUsed = 0, matches = [], indices = vnIndex, bad = fBad t\<rparr>;
            t = t\<lparr>fBad := bad x\<rparr>
        in (if bad x \<or> (nBitsUsed x + 7) div 8 \<noteq> (length (vBits t) + 7) div 8 \<or> nHashUsed x \<noteq> length (vHash t)
            then uint256_null else root, matches x, indices x, t))"

section \<open>Serialization of partial trees\<close>

definition pack_bits :: "bool list \<Rightarrow> bytes" where
  "pack_bits flags = fold (\<lambda>p bs. bs[p div 8 := (bs ! (p div 8)) OR push_bit (p mod 8) (of_bool (flags ! p))])
     [0..<length flags] (replicate ((length flags + 7) div 8) 0)"

definition unpack_bits :: "bytes \<Rightarrow> bool list" where
  "unpack_bits bs = map (\<lambda>p. (bs ! (p div 8)) AND push_bit (p mod 8) 1 \<noteq> 0) [0..<length bs * 8]"

definition Serialize_pmt :: "CPartialMerkleTree \<Rightarrow> bytes" where
  "Serialize_pmt t = ser_writedata32 (nTransactions t) @ Serialize_vector Serialize_uint256 (vHash t) @ Serialize_bytes (pack_bits (vBits t))"

definition Unserialize_pmt :: "CPartialMerkleTree reader" where
  "Unserialize_pmt s =
     ebind (ser_readdata32 s) (\<lambda>(n, s). ebind (Unserialize_vector 32 Unserialize_uint256 s) (\<lambda>(hs, s).
     ebind (Unserialize_bytes s) (\<lambda>(bs, s).
       Inr (\<lparr>nTransactions = n, vBits = unpack_bits bs, vHash = hs, fBad = False\<rparr>, s))))"

section \<open>The tree level by level\<close>

fun next_level :: "uint256 list \<Rightarrow> uint256 list" where
  "next_level (a # b # hs) = Hash_pair a b # next_level hs"
| "next_level [a] = [Hash_pair a a]"
| "next_level [] = []"

definition level :: "uint256 list \<Rightarrow> nat \<Rightarrow> uint256 list" where
  "level leaves h = (next_level ^^ h) leaves"

lemma level_0 [simp]: "level leaves 0 = leaves"
  by (simp add: level_def)

lemma level_Suc: "level leaves (Suc h) = next_level (level leaves h)"
  by (simp add: level_def)

lemma level_shift: "level (next_level leaves) h = level leaves (Suc h)"
  by (simp add: level_def funpow_swap1)

lemma length_next_level [simp]: "length (next_level hs) = (length hs + 1) div 2"
  by (induction hs rule: next_level.induct) simp_all

lemma nth_next_level:
  "i < (length hs + 1) div 2 \<Longrightarrow>
   next_level hs ! i = Hash_pair (hs ! (2 * i)) (if 2 * i + 1 < length hs then hs ! (2 * i + 1) else hs ! (2 * i))"
proof (induction hs arbitrary: i rule: next_level.induct)
  case (1 a b hs)
  show ?case
  proof (cases i)
    case (Suc j)
    then show ?thesis using 1 by simp
  qed simp
qed simp_all

lemma wf_next_level: "\<forall>h \<in> set (next_level hs). length h = 32"
  by (induction hs rule: next_level.induct) simp_all

lemma hashes_of_concat:
  assumes "\<forall>h \<in> set xs. length h = 32"
  shows "hashes_of (length xs) (concat xs) = xs"
  using assms
proof (induction xs)
  case Nil
  then show ?case by (simp add: hashes_of_def)
next
  case (Cons x xs)
  have "hashes_of (Suc n) (x @ r) = x # hashes_of n r" if "length x = 32" for n r
  proof -
    have "[0..<Suc n] = 0 # map Suc [0..<n]" by (simp add: upt_conv_Cons map_Suc_upt del: upt_Suc)
    then show ?thesis using that by (simp add: hashes_of_def o_def del: upt_Suc)
  qed
  then show ?case using Cons by simp
qed

lemma double_sha256s_pairs:
  "\<forall>h \<in> set hs. length h = 32 \<Longrightarrow> even (length hs) \<Longrightarrow>
   double_sha256s (length hs div 2) (concat hs) = concat (next_level hs)"
  by (induction hs rule: next_level.induct) (simp_all add: Hash_pair_sha256)

lemma next_level_dup: "odd (length hs) \<Longrightarrow> next_level (hs @ [last hs]) = next_level hs"
  by (induction hs rule: next_level.induct) auto

lemma merkle_step_next_level:
  assumes "\<forall>h \<in> set hs. length h = 32" "hs \<noteq> []"
  shows "merkle_step hs = next_level hs"
proof -
  have even: "hashes_of (length xs div 2) (SHA256D64 None None None TransformD64 (concat xs) (length xs div 2)) = next_level xs"
    if "even (length xs)" "\<forall>h \<in> set xs. length h = 32" for xs
  proof -
    have d: "digests_blocks 1 TransformD64" by (simp add: digests_blocks_def TransformD64_double)
    have "length (concat xs) = 32 * length xs" using that(2) by (induction xs) simp_all
    then have l: "64 * (length xs div 2) \<le> length (concat xs)" using that(1) by simp
    have "SHA256D64 None None None TransformD64 (concat xs) (length xs div 2) = concat (next_level xs)"
      using SHA256D64_digests [of None None None TransformD64, OF _ _ _ d l] double_sha256s_pairs [OF that(2,1)] by simp
    moreover have "length xs div 2 = length (next_level xs)" using that(1) by auto
    ultimately show ?thesis using hashes_of_concat [OF wf_next_level] by simp
  qed
  show ?thesis
  proof (cases "odd (length hs)")
    case True
    have "merkle_step hs = next_level (hs @ [last hs])"
      using even [of "hs @ [last hs]"] assms True by (simp add: merkle_step_def Let_def del: concat_append)
    then show ?thesis using next_level_dup [OF True] by simp
  qed (use even [of hs] assms in \<open>simp add: merkle_step_def\<close>)
qed

text \<open>The height of a tree: the levels until one node is left.\<close>

function height_of :: "nat \<Rightarrow> nat" where
  "height_of n = (if n > 1 then Suc (height_of ((n + 1) div 2)) else 0)"
  by pat_completeness auto
termination height_of
  by (relation "measure id") auto

declare height_of.simps [simp del]

lemma height_of_small [simp]: "n \<le> 1 \<Longrightarrow> height_of n = 0"
  by (simp add: height_of.simps)

lemma height_of_step: "n > 1 \<Longrightarrow> height_of n = Suc (height_of ((n + 1) div 2))"
  by (subst height_of.simps) simp

lemma merkle_loop_levels:
  assumes "\<forall>h \<in> set hs. length h = 32"
  shows "merkle_loop mutated hs m =
    (level hs (height_of (length hs)), m \<or> (mutated \<and> (\<exists>i < height_of (length hs). merkle_mutation (level hs i))))"
  using assms
proof (induction mutated hs m rule: merkle_loop.induct)
  case (1 mutated hs m)
  show ?case
  proof (cases "length hs > 1")
    case True
    have s: "merkle_step hs = next_level hs" using 1(2) True by (intro merkle_step_next_level) auto
    have ex: "(\<exists>i < Suc n. P i) \<longleftrightarrow> P 0 \<or> (\<exists>i < n. P (Suc i))" for P n
      using less_Suc_eq_0_disj by auto
    have "merkle_loop mutated hs m = merkle_loop mutated (next_level hs) (m \<or> (mutated \<and> merkle_mutation hs))"
      using True by (subst merkle_loop.simps) (simp add: s)
    also have "\<dots> = (level (next_level hs) (height_of (length (next_level hs))), (m \<or> (mutated \<and> merkle_mutation hs)) \<or>
        (mutated \<and> (\<exists>i < height_of (length (next_level hs)). merkle_mutation (level (next_level hs) i))))"
      using 1(1) True wf_next_level by (simp add: s)
    finally show ?thesis using True by (simp add: height_of_step level_shift ex) blast
  next
    case False
    then show ?thesis by (subst merkle_loop.simps) simp
  qed
qed

section \<open>The root binds the leaves\<close>

fun node_pairs :: "uint256 list \<Rightarrow> (uint256 \<times> uint256) list" where
  "node_pairs (a # b # hs) = (a, b) # node_pairs hs"
| "node_pairs [a] = [(a, a)]"
| "node_pairs [] = []"

text \<open>All pairs that are hashed in a tree.\<close>

definition hashed_pairs :: "uint256 list \<Rightarrow> (uint256 \<times> uint256) set" where
  "hashed_pairs leaves = (\<Union>h < height_of (length leaves). set (node_pairs (level leaves h)))"

definition collide :: "uint256 \<times> uint256 \<Rightarrow> uint256 \<times> uint256 \<Rightarrow> bool" where
  "collide p q \<longleftrightarrow> p \<noteq> q \<and> Hash_pair (fst p) (snd p) = Hash_pair (fst q) (snd q)"

lemma next_level_pairs: "next_level hs = map (\<lambda>(a, b). Hash_pair a b) (node_pairs hs)"
  by (induction hs rule: next_level.induct) simp_all

lemma node_pairs_inj:
  "node_pairs xs = node_pairs ys \<Longrightarrow> \<not> merkle_mutation xs \<Longrightarrow> \<not> merkle_mutation ys \<Longrightarrow> xs = ys"
proof (induction xs arbitrary: ys rule: next_level.induct)
  case (1 a b hs)
  then show ?case by (cases ys rule: next_level.cases) auto
next
  case (2 a)
  then show ?case by (cases ys rule: next_level.cases) auto
next
  case 3
  then show ?case by (cases ys rule: next_level.cases) auto
qed

lemma map_inj_or_collision:
  assumes "map f xs = map f ys"
  shows "xs = ys \<or> (\<exists>p \<in> set xs. \<exists>q \<in> set ys. p \<noteq> q \<and> f p = f q)"
  using assms
proof (induction xs arbitrary: ys)
  case (Cons x xs)
  obtain y zs where ys: "ys = y # zs" "f x = f y" "map f xs = map f zs" using Cons.prems by (cases ys) auto
  show ?case using Cons.IH [OF ys(3)] ys by auto
qed simp

lemma next_level_binds:
  assumes "next_level xs = next_level ys" "\<not> merkle_mutation xs" "\<not> merkle_mutation ys"
  shows "xs = ys \<or> (\<exists>p \<in> set (node_pairs xs). \<exists>q \<in> set (node_pairs ys). collide p q)"
  using map_inj_or_collision [of "\<lambda>(a, b). Hash_pair a b" "node_pairs xs" "node_pairs ys"] assms node_pairs_inj
  unfolding next_level_pairs collide_def by (auto simp: case_prod_unfold)

lemma levels_bind:
  assumes "level xs n = level ys n" "\<forall>i < n. \<not> merkle_mutation (level xs i)" "\<forall>i < n. \<not> merkle_mutation (level ys i)"
  shows "xs = ys \<or> (\<exists>h < n. \<exists>p \<in> set (node_pairs (level xs h)). \<exists>q \<in> set (node_pairs (level ys h)). collide p q)"
  using assms
proof (induction n)
  case (Suc n)
  have "next_level (level xs n) = next_level (level ys n)" using Suc.prems(1) by (simp add: level_Suc)
  then have "level xs n = level ys n \<or> (\<exists>p \<in> set (node_pairs (level xs n)). \<exists>q \<in> set (node_pairs (level ys n)). collide p q)"
    using next_level_binds Suc.prems(2,3) by blast
  then show ?case using Suc.IH Suc.prems(2,3) by (meson less_Suc_eq)
qed simp

lemma length_level_top: "leaves \<noteq> [] \<Longrightarrow> length (level leaves (height_of (length leaves))) = 1"
proof (induction "length leaves" arbitrary: leaves rule: less_induct)
  case less
  show ?case
  proof (cases "length leaves > 1")
    case True
    then have "next_level leaves \<noteq> []" by (cases leaves rule: next_level.cases) auto
    then show ?thesis using less(1) [of "next_level leaves"] True by (simp add: height_of_step level_shift)
  next
    case False
    then show ?thesis using less(2) by (cases leaves) auto
  qed
qed

lemma ComputeMerkleRoot_levels:
  assumes "\<forall>h \<in> set leaves. length h = 32" "leaves \<noteq> []"
  shows "ComputeMerkleRoot mutated leaves = (level leaves (height_of (length leaves)) ! 0,
    mutated \<and> (\<exists>i < height_of (length leaves). merkle_mutation (level leaves i)))"
  using merkle_loop_levels [OF assms(1), of mutated False] length_level_top [OF assms(2)]
  by (auto simp: ComputeMerkleRoot_def)

lemma length_1_nth: "length xs = 1 \<Longrightarrow> length ys = 1 \<Longrightarrow> xs ! 0 = ys ! 0 \<Longrightarrow> xs = ys"
  by (auto simp: length_Suc_conv)

text \<open>
  C17: Property: the Merkle root binds the transactions of a block.  If two lists of transaction ids
  give trees of the same height with the same root, and the mutation flag is set for neither, then
  the lists are equal, or two different pairs of nodes, one from each tree, collide in the double
  hash.  The flag is what excludes lists such as 1 2 3 4 5 6 and 1 2 3 4 5 6 5 6.
\<close>

theorem merkle_root_binds_leaves:
  assumes "\<forall>h \<in> set xs. length h = 32" "\<forall>h \<in> set ys. length h = 32" "xs \<noteq> []" "ys \<noteq> []"
    "height_of (length xs) = height_of (length ys)"
    "ComputeMerkleRoot True xs = (root, False)" "ComputeMerkleRoot True ys = (root, False)"
  shows "xs = ys \<or> (\<exists>p \<in> hashed_pairs xs. \<exists>q \<in> hashed_pairs ys. collide p q)"
proof -
  let ?n = "height_of (length xs)"
  have "level xs ?n = level ys ?n"
    using length_level_top [OF assms(3)] length_level_top [OF assms(4)] assms(6,7)
      ComputeMerkleRoot_levels [OF assms(1,3)] ComputeMerkleRoot_levels [OF assms(2,4)]
    unfolding assms(5) by (intro length_1_nth [of "level xs _"]) simp_all
  moreover have "\<forall>i < ?n. \<not> merkle_mutation (level xs i)" "\<forall>i < ?n. \<not> merkle_mutation (level ys i)"
    using assms(5-7) ComputeMerkleRoot_levels [OF assms(1,3)] ComputeMerkleRoot_levels [OF assms(2,4)] by simp_all
  ultimately have "xs = ys \<or> (\<exists>h < ?n. \<exists>p \<in> set (node_pairs (level xs h)). \<exists>q \<in> set (node_pairs (level ys h)). collide p q)"
    by (rule levels_bind)
  then show ?thesis unfolding hashed_pairs_def assms(5) by blast
qed

theorem merkle_root_binds_leaves_witness:
  "[replicate 32 1, replicate 32 2] = [replicate 32 1, replicate 32 (2 :: u8)] \<or>
    (\<exists>p \<in> hashed_pairs [replicate 32 1, replicate 32 2]. \<exists>q \<in> hashed_pairs [replicate 32 1, replicate 32 2]. collide p q)"
proof -
  let ?xs = "[replicate 32 1, replicate 32 (2 :: u8)]"
  have "replicate 32 1 \<noteq> replicate 32 (2 :: u8)" by simp
  then have "ComputeMerkleRoot True ?xs = (Hash_pair (replicate 32 1) (replicate 32 2), False)"
    by (subst ComputeMerkleRoot_levels) (auto simp: height_of.simps level_def)
  then show ?thesis by (intro merkle_root_binds_leaves) simp_all
qed

section \<open>Partial trees\<close>

lemma length_level: "length (level leaves h) = (length leaves + 2 ^ h - 1) div 2 ^ h"
proof (induction h)
  case (Suc h)
  have "length (level leaves (Suc h)) = ((length leaves + 2 ^ h - 1) div 2 ^ h + 1) div 2"
    by (simp add: level_Suc Suc)
  also have "\<dots> = (length leaves + 2 ^ h - 1 + 2 ^ h) div 2 ^ h div 2"
    using div_add_self2 [of "2 ^ h" "length leaves + 2 ^ h - 1"] by simp
  also have "\<dots> = (length leaves + 2 ^ Suc h - 1) div 2 ^ Suc h"
  proof -
    obtain k where k: "length leaves + 2 ^ h = Suc k" by (cases "length leaves + 2 ^ h") auto
    then have "length leaves + 2 ^ Suc h - 1 = k + 2 ^ h" by simp
    then show ?thesis unfolding k by (simp add: div_mult2_eq mult.commute [of 2])
  qed
  finally show ?case .
qed simp

lemma less_length_level: "pos < length (level leaves h) \<longleftrightarrow> pos * 2 ^ h < length leaves"
proof -
  have "pos < (length leaves + 2 ^ h - 1) div 2 ^ h \<longleftrightarrow> Suc pos * 2 ^ h \<le> length leaves + 2 ^ h - 1"
    by (simp add: less_eq_div_iff_mult_less_eq Suc_le_eq [symmetric])
  also have "\<dots> \<longleftrightarrow> pos * 2 ^ h < length leaves"
    using one_le_power [of "2 :: nat" h] by (simp; linarith)
  finally show ?thesis by (simp add: length_level)
qed

lemma pow31: "h \<le> 31 \<Longrightarrow> (2 :: nat) ^ h \<le> 2147483648"
  using power_increasing [of h 31 "2 :: nat"] by simp

lemma unat_u32: "k < 4294967296 \<Longrightarrow> unat (of_nat k :: u32) = k"
  by (simp add: unat_of_nat take_bit_nat_eq_self)

lemma CalcTreeWidth_level:
  assumes "length leaves \<le> 2147483648" "h \<le> 31"
  shows "unat (CalcTreeWidth (of_nat (length leaves)) h) = length (level leaves h)"
proof -
  have "of_nat (length leaves) + push_bit h 1 - 1 = (of_nat (length leaves + 2 ^ h - 1) :: u32)"
  proof -
    obtain k where k: "length leaves + 2 ^ h = Suc k" by (cases "length leaves + 2 ^ h") auto
    have "of_nat (length leaves) + push_bit h 1 = (of_nat (length leaves + 2 ^ h) :: u32)" by (simp add: push_bit_eq_mult)
    then show ?thesis unfolding k by simp
  qed
  then have "unat (CalcTreeWidth (of_nat (length leaves)) h) = drop_bit h (length leaves + 2 ^ h - 1)"
    unfolding CalcTreeWidth_def
    using unat_u32 [of "length leaves + 2 ^ h - 1"] assms(1) pow31 [OF assms(2)]
    by (simp add: unat_drop_bit_eq del: of_nat_diff)
  then show ?thesis by (simp add: length_level drop_bit_eq_div)
qed

lemma tree_height_level:
  assumes "length leaves \<le> 2147483648" "h \<le> 31"
  shows "tree_height (of_nat (length leaves)) h = h + height_of (length (level leaves h))"
  using assms(2)
proof (induction "31 - h" arbitrary: h)
  case 0
  have "length (level leaves 31) \<le> 1" using assms(1) by (simp add: length_level div_le_mono [of _ "2 ^ 32 - 1" "2 ^ 31", simplified])
  then show ?case using 0 by (simp add: tree_height.simps)
next
  case (Suc k)
  have w: "CalcTreeWidth (of_nat (length leaves)) h > 1 \<longleftrightarrow> length (level leaves h) > 1"
    using CalcTreeWidth_level [OF assms(1) Suc.prems] by (simp add: word_less_nat_alt)
  show ?case
  proof (cases "length (level leaves h) > 1")
    case True
    have "tree_height (of_nat (length leaves)) h = tree_height (of_nat (length leaves)) (Suc h)"
      using True w Suc.hyps(2) by (subst tree_height.simps) auto
    then show ?thesis using Suc.hyps True by (simp add: height_of_step level_Suc)
  qed (use w in \<open>simp add: tree_height.simps\<close>)
qed

lemma height_of_le: "n \<le> 2 ^ k \<Longrightarrow> height_of n \<le> k"
proof (induction k arbitrary: n)
  case (Suc k)
  show ?case
  proof (cases "n > 1")
    case True
    then show ?thesis using Suc.IH [of "(n + 1) div 2"] Suc.prems by (simp add: height_of_step)
  qed simp
qed simp

lemma CalcHash_level:
  assumes "length leaves \<le> 2147483648" "h \<le> 31" "pos < length (level leaves h)"
  shows "CalcHash (of_nat (length leaves)) h pos leaves = Some (level leaves h ! pos)"
  using assms(2,3)
proof (induction h arbitrary: pos)
  case (Suc h)
  have p: "pos < (length (level leaves h) + 1) div 2" using Suc.prems by (simp add: level_Suc)
  have "leaves \<noteq> []" using Suc.prems by (auto simp: less_length_level)
  then show ?case
    using Suc.IH [of "pos * 2"] Suc.IH [of "pos * 2 + 1"] Suc.prems p CalcTreeWidth_level [OF assms(1), of h] nth_next_level [OF p]
    by (simp add: level_Suc mult.commute [of pos 2])
qed simp

definition at_pos :: "nat \<Rightarrow> 'a list \<Rightarrow> 'a list \<Rightarrow> bool" where
  "at_pos k B xs \<longleftrightarrow> (\<exists>pre post. xs = pre @ B @ post \<and> length pre = k)"

lemma at_pos_append: "at_pos k (B @ C) xs \<Longrightarrow> at_pos k B xs \<and> at_pos (k + length B) C xs"
proof -
  assume "at_pos k (B @ C) xs"
  then obtain pre post where x: "xs = pre @ B @ C @ post" "length pre = k" by (auto simp: at_pos_def)
  have "xs = (pre @ B) @ C @ post" "length (pre @ B) = k + length B" using x by simp_all
  then show ?thesis using x unfolding at_pos_def by blast
qed

lemma at_pos_Cons: "at_pos k (b # C) xs \<Longrightarrow> k < length xs \<and> xs ! k = b \<and> at_pos (Suc k) C xs"
proof -
  assume a: "at_pos k (b # C) xs"
  then obtain pre post where x: "xs = pre @ (b # C) @ post" "length pre = k" unfolding at_pos_def by blast
  have "k < length xs \<and> xs ! k = b" unfolding x(1) using x(2) by (simp add: nth_append)
  then show ?thesis using at_pos_append [of k "[b]" C xs] a by simp
qed

text \<open>The matched leaves below a node.\<close>

definition matched :: "bool list \<Rightarrow> nat \<Rightarrow> nat \<Rightarrow> nat list" where
  "matched vm h pos = filter (\<lambda>p. vm ! p) [pos * 2 ^ h..<min ((pos + 1) * 2 ^ h) (length vm)]"

lemma list_ex_filter: "list_ex P xs \<longleftrightarrow> filter P xs \<noteq> []"
  by (induction xs) simp_all

lemma parent_of_match_matched:
  assumes "length vm \<le> 2147483648" "h \<le> 31" "pos * 2 ^ h < length vm"
  shows "parent_of_match (of_nat (length vm)) h pos vm = Some (matched vm h pos \<noteq> [])"
proof -
  have p: "push_bit h (of_nat k :: u32) = of_nat (k * 2 ^ h)" for k
    by (simp add: push_bit_eq_mult)
  have "(pos + 1) * 2 ^ h < 4294967296" using assms(1,3) pow31 [OF assms(2)] by (simp add: add_mult_distrib)
  then have "unat (push_bit h (of_nat pos :: u32)) = pos * 2 ^ h" "unat (push_bit h (of_nat (pos + 1) :: u32)) = (pos + 1) * 2 ^ h"
    using unat_u32 [of "pos * 2 ^ h"] unat_u32 [of "(pos + 1) * 2 ^ h"] assms by (simp_all only: p)
  then show ?thesis
    using assms(1) by (simp add: parent_of_match_def Let_def list_ex_filter matched_def list_all_iff unat_u32 del: of_nat_add)
qed

lemma matched_two:
  assumes "(pos * 2 + 1) * 2 ^ h \<le> length vm"
  shows "matched vm (Suc h) pos = matched vm h (pos * 2) @ matched vm h (pos * 2 + 1)"
proof -
  let ?a = "pos * 2 ^ Suc h" and ?b = "(pos * 2 + 1) * 2 ^ h" and ?c = "min ((pos + 1) * 2 ^ Suc h) (length vm)"
  have "?a \<le> ?b" "?b \<le> ?c" using assms by (simp_all add: algebra_simps)
  then have "[?a..<?c] = [?a..<?b] @ [?b..<?c]" using upt_add_eq_append [of ?a ?b "?c - ?b"] by simp
  moreover have "min ?b (length vm) = ?b" using assms by simp
  moreover have "(pos * 2 + 1 + 1) * 2 ^ h = (pos + 1) * 2 ^ Suc h" "pos * 2 * 2 ^ h = ?a" by (simp_all add: algebra_simps)
  ultimately show ?thesis by (simp only: matched_def filter_append)
qed

lemma matched_one:
  assumes "length vm \<le> (pos * 2 + 1) * 2 ^ h"
  shows "matched vm (Suc h) pos = matched vm h (pos * 2)"
proof -
  have "min ((pos + 1) * 2 ^ Suc h) (length vm) = length vm" "min ((pos * 2 + 1) * 2 ^ h) (length vm) = length vm"
    using assms by (simp_all add: min_def algebra_simps)
  moreover have "pos * 2 * 2 ^ h = pos * 2 ^ Suc h" by simp
  ultimately show ?thesis by (simp only: matched_def)
qed

text \<open>Flag bits B and hashes H that make the extraction return the hash of a node and the matched
  leaves below it.\<close>

definition tree_code :: "uint256 list \<Rightarrow> bool list \<Rightarrow> nat \<Rightarrow> nat \<Rightarrow> bool list \<Rightarrow> uint256 list \<Rightarrow> bool" where
  "tree_code leaves vm h pos B H \<longleftrightarrow>
     0 < length H \<and> length H \<le> length B \<and> length B < 2 ^ Suc h \<and> (\<forall>v \<in> set H. \<exists>i. v \<in> set (level leaves i)) \<and> pos * 2 ^ h + length H \<le> min ((pos + 1) * 2 ^ h) (length leaves) \<and>
     (\<forall>T x. nTransactions T = of_nat (length leaves) \<longrightarrow> at_pos (nBitsUsed x) B (vBits T) \<longrightarrow> at_pos (nHashUsed x) H (vHash T) \<longrightarrow>
        TraverseAndExtract T h pos x = (level leaves h ! pos, x\<lparr>nBitsUsed := nBitsUsed x + length B, nHashUsed := nHashUsed x + length H,
          matches := matches x @ map (\<lambda>p. leaves ! p) (matched vm h pos), indices := indices x @ matched vm h pos\<rparr>))"

lemma matched_leaf: "pos < length vm \<Longrightarrow> matched vm 0 pos = (if vm ! pos then [pos] else [])"
  by (simp add: matched_def min_def upt_conv_Cons)

lemma tree_code_stop:
  assumes "length vm = length leaves" "h = 0 \<or> matched vm h pos = []" "pos * 2 ^ h < length leaves"
  shows "tree_code leaves vm h pos [matched vm h pos \<noteq> []] [level leaves h ! pos]"
  unfolding tree_code_def
proof (intro conjI allI ballI impI)
  show "length [matched vm h pos \<noteq> []] < 2 ^ Suc h" using one_less_power [of "2 :: nat" "Suc h"] by (simp del: power_Suc)
  show "\<exists>i. v \<in> set (level leaves i)" if "v \<in> set [level leaves h ! pos]" for v
    using that assms(3) nth_mem [of pos "level leaves h"] by (intro exI [of _ h]) (simp add: less_length_level)
  show "pos * 2 ^ h + length [level leaves h ! pos] \<le> min ((pos + 1) * 2 ^ h) (length leaves)"
    using assms(3) by simp
  fix T :: CPartialMerkleTree and x :: extraction
  assume "at_pos (nBitsUsed x) [matched vm h pos \<noteq> []] (vBits T)" "at_pos (nHashUsed x) [level leaves h ! pos] (vHash T)"
  then have b: "nBitsUsed x < length (vBits T)" "vBits T ! nBitsUsed x = (matched vm h pos \<noteq> [])"
    "nHashUsed x < length (vHash T)" "vHash T ! nHashUsed x = level leaves h ! pos"
    by (auto dest: at_pos_Cons)
  have m: "matched vm h pos = (if h = 0 \<and> vm ! pos then [pos] else [])"
    using assms matched_leaf [of pos vm] by auto
  show "TraverseAndExtract T h pos x = (level leaves h ! pos, x\<lparr>nBitsUsed := nBitsUsed x + length [matched vm h pos \<noteq> []],
      nHashUsed := nHashUsed x + length [level leaves h ! pos], matches := matches x @ map ((!) leaves) (matched vm h pos),
      indices := indices x @ matched vm h pos\<rparr>)"
    using b assms(2) by (subst TraverseAndExtract.simps) (auto simp: m Let_def)
qed simp_all

lemma not_mutated_siblings: "\<not> merkle_mutation hs \<Longrightarrow> 2 * i + 1 < length hs \<Longrightarrow> hs ! (2 * i) \<noteq> hs ! (2 * i + 1)"
proof (induction hs arbitrary: i rule: merkle_mutation.induct)
  case (1 a b hs)
  then show ?case by (cases i) auto
qed auto

lemma extract_inner:
  assumes "at_pos (nBitsUsed x) (True # B) (vBits T)"
  shows "TraverseAndExtract T (Suc h) pos x =
    (let (left, x) = TraverseAndExtract T h (pos * 2) (x\<lparr>nBitsUsed := nBitsUsed x + 1\<rparr>)
     in if pos * 2 + 1 < unat (CalcTreeWidth (nTransactions T) h) then
          let (right, x) = TraverseAndExtract T h (pos * 2 + 1) x
          in (Hash_pair left right, if right = left then x\<lparr>bad := True\<rparr> else x)
        else (Hash_pair left left, x))"
  using at_pos_Cons [OF assms] by (subst TraverseAndExtract.simps) (simp add: Let_def split: prod.split)

lemma tree_code_two:
  assumes c1: "tree_code leaves vm h (pos * 2) B1 H1" and c2: "tree_code leaves vm h (pos * 2 + 1) B2 H2"
    and l: "length leaves \<le> 2147483648" "h < 31" and vm: "length vm = length leaves"
    and w: "(pos * 2 + 1) * 2 ^ h < length leaves" and m: "\<not> merkle_mutation (level leaves h)"
  shows "tree_code leaves vm (Suc h) pos (True # B1 @ B2) (H1 @ H2)"
  unfolding tree_code_def
proof (intro conjI allI ballI impI)
  have r: "pos * 2 + 1 < length (level leaves h)" using w by (simp add: less_length_level)
  show "0 < length (H1 @ H2)" "length (H1 @ H2) \<le> length (True # B1 @ B2)"
    using c1 c2 by (auto simp: tree_code_def)
  show "length (True # B1 @ B2) < 2 ^ Suc (Suc h)" using c1 c2 by (auto simp: tree_code_def)
  show "\<exists>i. v \<in> set (level leaves i)" if "v \<in> set (H1 @ H2)" for v using that c1 c2 by (auto simp: tree_code_def)
  have "length H1 \<le> 2 ^ h" "pos * 2 * 2 ^ h + 2 ^ h + length H2 \<le> min ((pos * 2 + 1 + 1) * 2 ^ h) (length leaves)"
    using c1 c2 by (simp_all add: tree_code_def algebra_simps)
  then show "pos * 2 ^ Suc h + length (H1 @ H2) \<le> min ((pos + 1) * 2 ^ Suc h) (length leaves)"
    by (simp add: algebra_simps)
  fix T :: CPartialMerkleTree and x :: extraction
  assume n: "nTransactions T = of_nat (length leaves)" and b: "at_pos (nBitsUsed x) (True # B1 @ B2) (vBits T)"
    and h: "at_pos (nHashUsed x) (H1 @ H2) (vHash T)"
  let ?x1 = "x\<lparr>nBitsUsed := nBitsUsed x + 1\<rparr>"
  let ?x2 = "?x1\<lparr>nBitsUsed := nBitsUsed ?x1 + length B1, nHashUsed := nHashUsed ?x1 + length H1,
      matches := matches ?x1 @ map ((!) leaves) (matched vm h (pos * 2)), indices := indices ?x1 @ matched vm h (pos * 2)\<rparr>"
  have b1: "at_pos (nBitsUsed ?x1) B1 (vBits T)" "at_pos (nBitsUsed ?x2) B2 (vBits T)"
    using at_pos_append [of "Suc (nBitsUsed x)" B1 B2 "vBits T"] at_pos_Cons [OF b] by simp_all
  have h1: "at_pos (nHashUsed ?x1) H1 (vHash T)" "at_pos (nHashUsed ?x2) H2 (vHash T)"
    using at_pos_append [OF h] by simp_all
  have e1: "TraverseAndExtract T h (pos * 2) ?x1 = (level leaves h ! (pos * 2), ?x2)"
    using c1 n b1(1) h1(1) unfolding tree_code_def by blast
  let ?x3 = "?x2\<lparr>nBitsUsed := nBitsUsed ?x2 + length B2, nHashUsed := nHashUsed ?x2 + length H2,
      matches := matches ?x2 @ map ((!) leaves) (matched vm h (pos * 2 + 1)), indices := indices ?x2 @ matched vm h (pos * 2 + 1)\<rparr>"
  have e2: "TraverseAndExtract T h (pos * 2 + 1) ?x2 = (level leaves h ! (pos * 2 + 1), ?x3)"
    using c2 n b1(2) h1(2) unfolding tree_code_def by blast
  have ne: "level leaves h ! (pos * 2 + 1) \<noteq> level leaves h ! (pos * 2)"
    using not_mutated_siblings [OF m, of pos] r by (simp add: mult.commute)
  have lv: "level leaves (Suc h) ! pos = Hash_pair (level leaves h ! (pos * 2)) (level leaves h ! (pos * 2 + 1))"
    using nth_next_level [of pos "level leaves h"] r by (simp add: level_Suc mult.commute)
  have wd: "pos * 2 + 1 < unat (CalcTreeWidth (nTransactions T) h)"
    using CalcTreeWidth_level [OF l(1), of h] l(2) r n by simp
  have mt: "matched vm (Suc h) pos = matched vm h (pos * 2) @ matched vm h (pos * 2 + 1)"
    by (rule matched_two) (use w vm in simp)
  show "TraverseAndExtract T (Suc h) pos x = (level leaves (Suc h) ! pos, x\<lparr>nBitsUsed := nBitsUsed x + length (True # B1 @ B2),
      nHashUsed := nHashUsed x + length (H1 @ H2), matches := matches x @ map ((!) leaves) (matched vm (Suc h) pos),
      indices := indices x @ matched vm (Suc h) pos\<rparr>)"
    unfolding extract_inner [OF b] e1 Let_def prod.case if_P [OF wd] e2 if_not_P [OF ne] lv mt by simp
qed

lemma tree_code_one:
  assumes c1: "tree_code leaves vm h (pos * 2) B1 H1" and l: "length leaves \<le> 2147483648" "h < 31" and vm: "length vm = length leaves"
    and w: "length leaves \<le> (pos * 2 + 1) * 2 ^ h" "pos * 2 * 2 ^ h < length leaves"
  shows "tree_code leaves vm (Suc h) pos (True # B1) H1"
  unfolding tree_code_def
proof (intro conjI allI ballI impI)
  have r: "\<not> pos * 2 + 1 < length (level leaves h)" "pos * 2 < length (level leaves h)" using w by (simp_all add: less_length_level)
  show "0 < length H1" "length H1 \<le> length (True # B1)" using c1 by (auto simp: tree_code_def)
  show "length (True # B1) < 2 ^ Suc (Suc h)" using c1 by (auto simp: tree_code_def)
  show "\<exists>i. v \<in> set (level leaves i)" if "v \<in> set H1" for v using that c1 by (auto simp: tree_code_def)
  show "pos * 2 ^ Suc h + length H1 \<le> min ((pos + 1) * 2 ^ Suc h) (length leaves)"
    using c1 by (simp add: tree_code_def algebra_simps)
  fix T :: CPartialMerkleTree and x :: extraction
  assume n: "nTransactions T = of_nat (length leaves)" and b: "at_pos (nBitsUsed x) (True # B1) (vBits T)"
    and h: "at_pos (nHashUsed x) H1 (vHash T)"
  let ?x1 = "x\<lparr>nBitsUsed := nBitsUsed x + 1\<rparr>"
  let ?x2 = "?x1\<lparr>nBitsUsed := nBitsUsed ?x1 + length B1, nHashUsed := nHashUsed ?x1 + length H1,
      matches := matches ?x1 @ map ((!) leaves) (matched vm h (pos * 2)), indices := indices ?x1 @ matched vm h (pos * 2)\<rparr>"
  have "at_pos (nBitsUsed ?x1) B1 (vBits T)" "at_pos (nHashUsed ?x1) H1 (vHash T)" using at_pos_Cons [OF b] h by simp_all
  then have e1: "TraverseAndExtract T h (pos * 2) ?x1 = (level leaves h ! (pos * 2), ?x2)"
    using c1 n unfolding tree_code_def by blast
  have lv: "level leaves (Suc h) ! pos = Hash_pair (level leaves h ! (pos * 2)) (level leaves h ! (pos * 2))"
    using nth_next_level [of pos "level leaves h"] r by (simp add: level_Suc mult.commute)
  have wd: "\<not> pos * 2 + 1 < unat (CalcTreeWidth (nTransactions T) h)"
    using CalcTreeWidth_level [OF l(1), of h] l(2) r n by simp
  have mt: "matched vm (Suc h) pos = matched vm h (pos * 2)" by (rule matched_one) (use w vm in simp)
  show "TraverseAndExtract T (Suc h) pos x = (level leaves (Suc h) ! pos, x\<lparr>nBitsUsed := nBitsUsed x + length (True # B1),
      nHashUsed := nHashUsed x + length H1, matches := matches x @ map ((!) leaves) (matched vm (Suc h) pos),
      indices := indices x @ matched vm (Suc h) pos\<rparr>)"
    unfolding extract_inner [OF b] e1 Let_def prod.case if_not_P [OF wd] lv mt by simp
qed

lemma build_stop:
  assumes "parent_of_match (nTransactions t) h pos vm = Some b" "h = 0 \<or> \<not> b" "CalcHash (nTransactions t) h pos leaves = Some v"
  shows "TraverseAndBuild h pos leaves vm t = Some (t\<lparr>vBits := vBits t @ [b], vHash := vHash t @ [v]\<rparr>)"
  using assms by (subst TraverseAndBuild.simps) (auto simp: Let_def)

lemma build_inner:
  assumes "parent_of_match (nTransactions t) (Suc h) pos vm = Some True"
    "TraverseAndBuild h (pos * 2) leaves vm (t\<lparr>vBits := vBits t @ [True]\<rparr>) = Some t'"
  shows "TraverseAndBuild (Suc h) pos leaves vm t =
    (if pos * 2 + 1 < unat (CalcTreeWidth (nTransactions t') h) then TraverseAndBuild h (pos * 2 + 1) leaves vm t' else Some t')"
  using assms by (subst TraverseAndBuild.simps) (simp add: Let_def)

lemma build_tree_code:
  assumes l: "length leaves \<le> 2147483648" and vm: "length vm = length leaves"
    and "h \<le> 31" "pos * 2 ^ h < length leaves" "nTransactions t = of_nat (length leaves)"
    and "\<forall>i < h. \<not> merkle_mutation (level leaves i)"
  shows "\<exists>B H. TraverseAndBuild h pos leaves vm t = Some (t\<lparr>vBits := vBits t @ B, vHash := vHash t @ H\<rparr>) \<and> tree_code leaves vm h pos B H"
  using assms(3-)
proof (induction h arbitrary: pos t)
  case 0
  have p: "parent_of_match (nTransactions t) 0 pos vm = Some (matched vm 0 pos \<noteq> [])"
    using parent_of_match_matched [of vm 0 pos] l vm 0 by simp
  have "CalcHash (nTransactions t) 0 pos leaves = Some (level leaves 0 ! pos)" using 0 by simp
  then show ?case
    using build_stop [OF p] tree_code_stop [OF vm, of 0 pos] 0 by fastforce
next
  case (Suc h)
  have p: "parent_of_match (nTransactions t) (Suc h) pos vm = Some (matched vm (Suc h) pos \<noteq> [])"
    using parent_of_match_matched [of vm "Suc h" pos] l vm Suc.prems by simp
  show ?case
  proof (cases "matched vm (Suc h) pos = []")
    case True
    have "CalcHash (nTransactions t) (Suc h) pos leaves = Some (level leaves (Suc h) ! pos)"
      using CalcHash_level [OF l, of "Suc h" pos] Suc.prems by (simp add: less_length_level)
    then have "TraverseAndBuild (Suc h) pos leaves vm t = Some (t\<lparr>vBits := vBits t @ [False], vHash := vHash t @ [level leaves (Suc h) ! pos]\<rparr>)"
      using build_stop [OF p] True by simp
    then show ?thesis using tree_code_stop [OF vm, of "Suc h" pos] Suc.prems True by fastforce
  next
    case False
    let ?t = "t\<lparr>vBits := vBits t @ [True]\<rparr>"
    have m: "\<forall>i < h. \<not> merkle_mutation (level leaves i)" using Suc.prems by simp
    have lt: "pos * 2 * 2 ^ h < length leaves" using Suc.prems by simp
    obtain B1 H1 where 1: "TraverseAndBuild h (pos * 2) leaves vm ?t = Some (?t\<lparr>vBits := vBits ?t @ B1, vHash := vHash ?t @ H1\<rparr>)"
      "tree_code leaves vm h (pos * 2) B1 H1"
      using Suc.IH [of "pos * 2" ?t] Suc.prems m lt by auto
    let ?t1 = "?t\<lparr>vBits := vBits ?t @ B1, vHash := vHash ?t @ H1\<rparr>"
    have b: "TraverseAndBuild (Suc h) pos leaves vm t =
        (if pos * 2 + 1 < length (level leaves h) then TraverseAndBuild h (pos * 2 + 1) leaves vm ?t1 else Some ?t1)"
      using build_inner [of t h pos vm leaves, OF _ 1(1)] p False CalcTreeWidth_level [OF l, of h] Suc.prems by simp
    show ?thesis
    proof (cases "pos * 2 + 1 < length (level leaves h)")
      case True
      have w: "(pos * 2 + 1) * 2 ^ h < length leaves" using True by (simp add: less_length_level)
      obtain B2 H2 where 2: "TraverseAndBuild h (pos * 2 + 1) leaves vm ?t1 = Some (?t1\<lparr>vBits := vBits ?t1 @ B2, vHash := vHash ?t1 @ H2\<rparr>)"
        "tree_code leaves vm h (pos * 2 + 1) B2 H2"
        using Suc.IH [of "pos * 2 + 1" ?t1] Suc.prems m w by auto
      have "TraverseAndBuild (Suc h) pos leaves vm t = Some (t\<lparr>vBits := vBits t @ True # B1 @ B2, vHash := vHash t @ H1 @ H2\<rparr>)"
        using b True 2(1) by simp
      moreover have "tree_code leaves vm (Suc h) pos (True # B1 @ B2) (H1 @ H2)"
        using tree_code_two [OF 1(2) 2(2) l _ vm w] Suc.prems by simp
      ultimately show ?thesis by blast
    next
      case False
      then have w: "length leaves \<le> (pos * 2 + 1) * 2 ^ h" by (simp add: less_length_level)
      have "TraverseAndBuild (Suc h) pos leaves vm t = Some (t\<lparr>vBits := vBits t @ True # B1, vHash := vHash t @ H1\<rparr>)"
        using b False by simp
      moreover have "tree_code leaves vm (Suc h) pos (True # B1) H1"
        using tree_code_one [OF 1(2) l _ vm w lt] Suc.prems by simp
      ultimately show ?thesis by blast
    qed
  qed
qed

lemma at_pos_0: "at_pos 0 B (B @ post)"
  unfolding at_pos_def by (rule exI [of _ "[]"]) simp

text \<open>A tree with the bits and hashes of the whole tree, its bits padded to a whole byte.\<close>

lemma ExtractMatches_tree_code:
  assumes l: "length leaves \<le> 2147483648" "leaves \<noteq> []" and vm: "length vm = length leaves"
    and c: "tree_code leaves vm (height_of (length leaves)) 0 B H"
    and T: "nTransactions T = of_nat (length leaves)" "vBits T = B @ post" "vHash T = H" "\<not> fBad T" "(length B + 7) div 8 = (length (B @ post) + 7) div 8"
    and m: "length leaves \<le> unat (maxsize * 4) div 240"
  shows "ExtractMatches maxsize idx T =
    (level leaves (height_of (length leaves)) ! 0, map ((!) leaves) (filter ((!) vm) [0..<length leaves]), idx @ filter ((!) vm) [0..<length leaves], T)"
proof -
  let ?h = "height_of (length leaves)"
  let ?x = "\<lparr>nBitsUsed = 0, nHashUsed = 0, matches = [], indices = idx, bad = fBad T\<rparr>"
  have n: "unat (nTransactions T) = length leaves" using T(1) l(1) unat_u32 by simp
  have h: "tree_height (nTransactions T) 0 = ?h" using tree_height_level [OF l(1), of 0] T(1) by simp
  have "length leaves \<le> 1 * 2 ^ ?h" using length_level_top [OF l(2)] less_length_level [of 1 leaves ?h] by auto
  then have mt: "matched vm ?h 0 = filter ((!) vm) [0..<length leaves]" using vm by (simp add: matched_def min_def)
  have "TraverseAndExtract T ?h 0 ?x = (level leaves ?h ! 0, ?x\<lparr>nBitsUsed := nBitsUsed ?x + length B, nHashUsed := nHashUsed ?x + length H,
      matches := matches ?x @ map ((!) leaves) (matched vm ?h 0), indices := indices ?x @ matched vm ?h 0\<rparr>)"
    using c T(1-3) at_pos_0 [of B post] at_pos_0 [of H "[]"] unfolding tree_code_def by simp
  then have e: "TraverseAndExtract T (tree_height (nTransactions T) 0) 0 ?x = (level leaves ?h ! 0,
      \<lparr>nBitsUsed = length B, nHashUsed = length H, matches = map ((!) leaves) (filter ((!) vm) [0..<length leaves]),
       indices = idx @ filter ((!) vm) [0..<length leaves], bad = False\<rparr>)"
    using T(4) by (simp add: h mt)
  have nz: "nTransactions T \<noteq> 0" using n l(2) by auto
  have hl: "length H \<le> length leaves" "length H \<le> length B" using c by (simp_all add: tree_code_def)
  have T': "T\<lparr>fBad := False\<rparr> = T" using T(4) by simp
  show ?thesis
    unfolding ExtractMatches_def e Let_def prod.case using nz n m T hl T'
    by (simp add: WITNESS_SCALE_FACTOR_def MIN_TRANSACTION_WEIGHT_def)
qed

subsection \<open>Packed flags\<close>

lemma pack_prefix:
  assumes "k \<le> length flags"
  shows "length (fold (\<lambda>p bs. bs[p div 8 := (bs ! (p div 8)) OR push_bit (p mod 8) (of_bool (flags ! p))]) [0..<k]
      (replicate ((length flags + 7) div 8) (0 :: u8))) = (length flags + 7) div 8 \<and>
    (\<forall>j < (length flags + 7) div 8. \<forall>i < 8.
      bit (fold (\<lambda>p bs. bs[p div 8 := (bs ! (p div 8)) OR push_bit (p mod 8) (of_bool (flags ! p))]) [0..<k]
        (replicate ((length flags + 7) div 8) (0 :: u8)) ! j) i \<longleftrightarrow> 8 * j + i < k \<and> flags ! (8 * j + i))"
    (is "length (?F k) = ?n \<and> _")
  using assms
proof (induction k)
  case (Suc k)
  have kn: "k div 8 < ?n" using Suc.prems by (simp add: less_eq_div_iff_mult_less_eq Suc_le_eq [symmetric])
  have F: "?F (Suc k) = (?F k)[k div 8 := (?F k ! (k div 8)) OR push_bit (k mod 8) (of_bool (flags ! k))]" by simp
  have IH: "length (?F k) = ?n" "\<And>j i. j < ?n \<Longrightarrow> i < 8 \<Longrightarrow> bit (?F k ! j) i \<longleftrightarrow> 8 * j + i < k \<and> flags ! (8 * j + i)"
    using Suc by simp_all
  have "bit (?F (Suc k) ! j) i \<longleftrightarrow> 8 * j + i < Suc k \<and> flags ! (8 * j + i)" if "j < ?n" "i < 8" for j i
  proof (cases "j = k div 8")
    case True
    have p: "bit (push_bit (k mod 8) (of_bool (flags ! k) :: u8)) i \<longleftrightarrow> i = k mod 8 \<and> flags ! k"
      using that(2) by (auto simp: bit_push_bit_iff bit_of_bool_iff)
    have k: "k = 8 * (k div 8) + k mod 8" by simp
    show ?thesis
      unfolding F using True IH kn that by (simp add: bit_or_iff p) (metis k add_left_cancel less_SucE less_SucI lessI)
  next
    case False
    then have "8 * j + i \<noteq> k" using that(2) by auto
    then show ?thesis unfolding F using False IH(2) that by (simp add: less_Suc_eq)
  qed
  then show ?case using IH(1) by (simp only: F length_list_update) blast
qed simp

lemma length_pack_bits [simp]: "length (pack_bits flags) = (length flags + 7) div 8"
  using pack_prefix [of "length flags" flags] by (simp add: pack_bits_def)

lemma bit_pack_bits:
  "j < (length flags + 7) div 8 \<Longrightarrow> i < 8 \<Longrightarrow> bit (pack_bits flags ! j) i \<longleftrightarrow> 8 * j + i < length flags \<and> flags ! (8 * j + i)"
  using pack_prefix [of "length flags" flags] by (simp add: pack_bits_def)

lemma unpack_pack:
  "\<exists>post. unpack_bits (pack_bits flags) = flags @ post \<and> length (flags @ post) = 8 * ((length flags + 7) div 8)"
proof -
  let ?n = "(length flags + 7) div 8"
  have l: "length flags \<le> 8 * ?n" by simp
  have "take (length flags) (unpack_bits (pack_bits flags)) = flags"
  proof (rule nth_equalityI)
    fix p assume "p < length (take (length flags) (unpack_bits (pack_bits flags)))"
    then have p: "p < length flags" by simp
    then have "p div 8 < ?n" using l by (simp add: less_mult_imp_div_less mult.commute)
    then have "bit (pack_bits flags ! (p div 8)) (p mod 8) \<longleftrightarrow> flags ! p" using p by (simp add: bit_pack_bits)
    then show "take (length flags) (unpack_bits (pack_bits flags)) ! p = flags ! p"
      using p l by (simp add: unpack_bits_def and_exp_eq_0_iff_not_bit)
  qed (simp add: unpack_bits_def)
  then have "unpack_bits (pack_bits flags) = flags @ drop (length flags) (unpack_bits (pack_bits flags))"
    by (metis append_take_drop_id)
  moreover have "length (unpack_bits (pack_bits flags)) = 8 * ?n" by (simp add: unpack_bits_def)
  ultimately show ?thesis by metis
qed

lemma wf_level: "\<forall>h \<in> set leaves. length h = 32 \<Longrightarrow> v \<in> set (level leaves i) \<Longrightarrow> length v = 32"
  using wf_next_level by (cases i) (auto simp: level_Suc)

lemma Unserialize_pmt_Serialize:
  assumes "list_all wf_uint256 (vHash t)" "fits_MAX_SIZE (vHash t)" "length (vBits t) \<le> 0x80000000"
  shows "Unserialize_pmt (Serialize_pmt t @ rest) =
    Inr (\<lparr>nTransactions = nTransactions t, vBits = unpack_bits (pack_bits (vBits t)), vHash = vHash t, fBad = False\<rparr>, rest)"
proof -
  have "fits_MAX_SIZE (pack_bits (vBits t))" using assms(3) by (simp add: fits_MAX_SIZE_def)
  then show ?thesis using assms(1,2)
    by (simp add: Unserialize_pmt_def Serialize_pmt_def u32.decode h256.vector_decode blob.decode)
qed

lemma height_pow_pred: "k > 1 \<Longrightarrow> 2 ^ height_of k \<le> 2 * (k - 1)"
proof (induction k rule: less_induct)
  case (less k)
  show ?case
  proof (cases "(k + 1) div 2 > 1")
    case True
    then have "2 ^ height_of ((k + 1) div 2) \<le> 2 * ((k + 1) div 2 - 1)" using less by simp
    moreover have "2 * ((k + 1) div 2 - 1) \<le> k - 1" by simp
    ultimately show ?thesis using less(2) by (simp add: height_of_step)
  next
    case False
    then have "k = 2" using less(2) by simp
    then show ?thesis by (simp add: height_of.simps)
  qed
qed

lemma height_pow: "k > 0 \<Longrightarrow> 2 ^ height_of k \<le> 2 * k"
  using height_pow_pred [of k] by (cases "k = 1") auto

text \<open>
  C22: Property: a partial Merkle tree proves exactly the transactions it was built for.  For a block
  whose mutation flag is not set, the constructor succeeds, and from the tree, also after a trip over
  the network, \<open>ExtractMatches\<close> returns the Merkle root of the block, the ids marked in \<open>vMatch\<close> in
  their order, and their positions.
\<close>

theorem partial_merkle_tree_round_trip:
  assumes "\<forall>h \<in> set leaves. length h = 32" "leaves \<noteq> []" "length vMatch = length leaves"
    "ComputeMerkleRoot True leaves = (root, False)" "length leaves \<le> unat (maxsize * 4 :: u32) div 240"
  shows "\<exists>t t'. CPartialMerkleTree_new leaves vMatch = Some t \<and> Unserialize_pmt (Serialize_pmt t @ rest) = Inr (t', rest) \<and>
    (let idx = filter ((!) vMatch) [0..<length leaves]
     in ExtractMatches maxsize [] t = (root, map ((!) leaves) idx, idx, t) \<and>
        ExtractMatches maxsize [] t' = (root, map ((!) leaves) idx, idx, t'))"
proof -
  let ?h = "height_of (length leaves)" and ?t0 = "\<lparr>nTransactions = of_nat (length leaves), vBits = [], vHash = [], fBad = False\<rparr>"
  have "unat (maxsize * 4) < 4294967296" using unsigned_less [of "maxsize * 4", where 'a = nat] by simp
  then have s: "length leaves \<le> 17895697" using assms(5) by linarith
  then have l: "length leaves \<le> 2147483648" by simp
  have root: "root = level leaves ?h ! 0" and m: "\<forall>i < ?h. \<not> merkle_mutation (level leaves i)"
    using assms(4) ComputeMerkleRoot_levels [OF assms(1,2), of True] by simp_all
  have h31: "?h \<le> 31" using height_of_le [of "length leaves" 31] l by simp
  obtain B H where b: "TraverseAndBuild ?h 0 leaves vMatch ?t0 = Some (?t0\<lparr>vBits := B, vHash := H\<rparr>)"
    and c: "tree_code leaves vMatch ?h 0 B H"
    using build_tree_code [OF l assms(3) h31, of 0 ?t0] m assms(2) by auto
  let ?t = "?t0\<lparr>vBits := B, vHash := H\<rparr>"
  have new: "CPartialMerkleTree_new leaves vMatch = Some ?t"
    using b tree_height_level [OF l, of 0] by (simp add: CPartialMerkleTree_new_def Let_def)
  obtain post where post: "unpack_bits (pack_bits B) = B @ post" "length (B @ post) = 8 * ((length B + 7) div 8)"
    using unpack_pack by blast
  have "length B < 2 ^ Suc ?h" "length H \<le> length leaves" "\<forall>v \<in> set H. length v = 32"
    using c wf_level [OF assms(1)] by (auto simp: tree_code_def)
  moreover have "2 ^ Suc ?h \<le> 4 * length leaves" using height_pow [of "length leaves"] assms(2) by simp
  ultimately have u: "Unserialize_pmt (Serialize_pmt ?t @ rest) = Inr (?t\<lparr>vBits := B @ post\<rparr>, rest)"
    using s post(1) by (subst Unserialize_pmt_Serialize) (auto simp: list_all_iff wf_uint256_def fits_MAX_SIZE_def)
  have "ExtractMatches maxsize [] T = (root, map ((!) leaves) (filter ((!) vMatch) [0..<length leaves]), filter ((!) vMatch) [0..<length leaves], T)"
    if "T = ?t\<lparr>vBits := B @ q\<rparr>" "q = [] \<or> q = post" for T q
    using ExtractMatches_tree_code [OF l assms(2,3) c _ _ _ _ _ assms(5), of T q "[]"] that post(2) root by auto
  from this [of ?t "[]"] this [of "?t\<lparr>vBits := B @ post\<rparr>" post] show ?thesis using new u by (simp add: Let_def)
qed

theorem partial_merkle_tree_round_trip_witness:
  "\<exists>root t t'. CPartialMerkleTree_new [replicate 32 1, replicate 32 2] [False, True] = Some t \<and>
    Unserialize_pmt (Serialize_pmt t @ [9]) = Inr (t', [9]) \<and>
    ExtractMatches 2000000 [] t = (root, [replicate 32 2], [1], t) \<and>
    ExtractMatches 2000000 [] t' = (root, [replicate 32 2], [1], t')"
proof -
  let ?xs = "[replicate 32 1, replicate 32 (2 :: u8)]" and ?r = "Hash_pair (replicate 32 1) (replicate 32 2)"
  have "replicate 32 1 \<noteq> replicate 32 (2 :: u8)" by simp
  then have "ComputeMerkleRoot True ?xs = (?r, False)"
    by (subst ComputeMerkleRoot_levels) (auto simp: height_of.simps level_def)
  then have "\<exists>t t'. CPartialMerkleTree_new ?xs [False, True] = Some t \<and> Unserialize_pmt (Serialize_pmt t @ [9]) = Inr (t', [9]) \<and>
    (let idx = filter ((!) [False, True]) [0..<length ?xs]
     in ExtractMatches 2000000 [] t = (?r, map ((!) ?xs) idx, idx, t) \<and> ExtractMatches 2000000 [] t' = (?r, map ((!) ?xs) idx, idx, t'))"
    by (intro partial_merkle_tree_round_trip) simp_all
  then show ?thesis by (auto simp: upt_rec Let_def)
qed

end
