(* ===== verification/TxVerify.thy ===== *)
theory TxVerify
  imports Standard UtxoUpdate BlockIndex Merkle
begin

text \<open>
  The checks of transactions: \<open>consensus/tx_check.cpp\<close>, which needs no context, and \<open>consensus/tx_verify.cpp\<close>, which needs the coins
  spent and the block index.  A rejection carries the reason that the code reports.  The addresses
  of the governance contracts, which the code reads from the state of the virtual machine for the height of a
  coin, are arguments, as is the maximal block weight, a variable that governance can change.
\<close>

unbundle bit_operations_syntax

datatype tx_stop =
    Invalid string
  | Assert_failed
  | Overflow
  | Throws amount_error
  | Contract_scan script_fault

abbreviation (input) MAX_TRANSACTION_BASE_SIZE :: nat where "MAX_TRANSACTION_BASE_SIZE \<equiv> 1000000"
abbreviation (input) COINBASE_MATURITY :: int where "COINBASE_MATURITY \<equiv> 960"
abbreviation (input) LOCKTIME_VERIFY_SEQUENCE :: u32 where "LOCKTIME_VERIFY_SEQUENCE \<equiv> 1"

section \<open>Checks without context\<close>

primrec check_outputs :: "bool \<Rightarrow> CTxOut list \<Rightarrow> CAmount \<Rightarrow> tx_stop + unit" where
  "check_outputs reward [] nValueOut = Inr ()"
| "check_outputs reward (txout # outs) nValueOut =
     (if CTxOut_IsEmpty txout \<and> \<not> reward then Inl (Invalid ''bad-txns-vout-empty'')
      else if nValue txout < 0 then Inl (Invalid ''bad-txns-vout-negative'')
      else if nValue txout > MAX_MONEY then Inl (Invalid ''bad-txns-vout-toolarge'')
      else if \<not> fits_int64 (nValueOut + nValue txout) then Inl Overflow
      else if \<not> MoneyRange (nValueOut + nValue txout) then Inl (Invalid ''bad-txns-txouttotal-toolarge'')
      else if (HasOpCall (scriptPubKey txout) \<or> HasOpCreate (scriptPubKey txout) \<or> HasOpSender (scriptPubKey txout)) \<and>
              fst (Solver (scriptPubKey txout) True False) = TX_NONSTANDARD then Inl (Invalid ''bad-txns-contract-nonstandard'')
      else check_outputs reward outs (nValueOut + nValue txout))"

primrec check_duplicates :: "CTxIn list \<Rightarrow> COutPoint list \<Rightarrow> tx_stop + unit" where
  "check_duplicates [] seen = Inr ()"
| "check_duplicates (txin # ins) seen =
     (if prevout txin \<in> set seen then Inl (Invalid ''bad-txns-inputs-duplicate'') else check_duplicates ins (prevout txin # seen))"

definition CheckTransaction :: "u32 \<Rightarrow> CTransaction \<Rightarrow> bool \<Rightarrow> tx_stop + unit" where
  "CheckTransaction dgpMaxBlockWeight tx fCheckDuplicateInputs =
     (let size = length (SerializeTransaction False tx) in
      if vin tx = [] then Inl (Invalid ''bad-txns-vin-empty'')
      else if vout tx = [] then Inl (Invalid ''bad-txns-vout-empty'')
      else if size > MAX_TRANSACTION_BASE_SIZE \<or> int size * WITNESS_SCALE_FACTOR > uint dgpMaxBlockWeight then Inl (Invalid ''bad-txns-oversize'')
      else
        ebind (check_outputs (IsCoinBase tx \<or> IsCoinStake tx) (vout tx) 0) (\<lambda>_.
        ebind (if fCheckDuplicateInputs then check_duplicates (vin tx) [] else Inr ()) (\<lambda>_.
        if IsCoinBase tx then
          (if length (scriptSig (vin tx ! 0)) < 2 \<or> length (scriptSig (vin tx ! 0)) > 100 then Inl (Invalid ''bad-cb-length'') else Inr ())
        else if list_ex (\<lambda>txin. COutPoint_IsNull (prevout txin)) (vin tx) then Inl (Invalid ''bad-txns-prevout-null'')
        else Inr ())))"

section \<open>Lock times\<close>

definition IsFinalTx :: "CTransaction \<Rightarrow> int \<Rightarrow> int \<Rightarrow> bool" where
  "IsFinalTx tx nBlockHeight nBlockTime =
     (if nLockTime tx = 0 then True
      else if uint (nLockTime tx) < (if uint (nLockTime tx) < uint LOCKTIME_THRESHOLD then nBlockHeight else nBlockTime) then True
      else list_all (\<lambda>txin. nSequence txin = SEQUENCE_FINAL) (vin tx))"

text \<open>
  The loop over the inputs and the heights of the coins they spend.  The block is a pointer into the heap of block index
  entries; \<open>None\<close> stands for a null pointer that is followed or an overflow.
\<close>

fun lock_loop :: "index_heap \<Rightarrow> ptr \<Rightarrow> CTxIn list \<Rightarrow> int list \<Rightarrow> int \<Rightarrow> int \<Rightarrow> (int list \<times> int \<times> int) option" where
  "lock_loop H block (txin # ins) (nCoinHeight # heights) nMinHeight nMinTime =
     (if nSequence txin AND SEQUENCE_LOCKTIME_DISABLE_FLAG \<noteq> 0 then
        map_option (\<lambda>(hs, r). (0 # hs, r)) (lock_loop H block ins heights nMinHeight nMinTime)
      else if nSequence txin AND SEQUENCE_LOCKTIME_TYPE_FLAG \<noteq> 0 then
        (case GetAncestor H block (max (nCoinHeight - 1) 0) of
           Some (Some q) \<Rightarrow>
             (case GetMedianTimePast H q of None \<Rightarrow> None
              | Some nCoinTime \<Rightarrow>
                  map_option (\<lambda>(hs, r). (nCoinHeight # hs, r))
                    (lock_loop H block ins heights nMinHeight
                       (max nMinTime (nCoinTime + uint (push_bit SEQUENCE_LOCKTIME_GRANULARITY (nSequence txin AND SEQUENCE_LOCKTIME_MASK)) - 1))))
         | _ \<Rightarrow> None)
      else if \<not> fits_int32 (nCoinHeight + uint (nSequence txin AND SEQUENCE_LOCKTIME_MASK)) then None
      else
        map_option (\<lambda>(hs, r). (nCoinHeight # hs, r))
          (lock_loop H block ins heights (max nMinHeight (nCoinHeight + uint (nSequence txin AND SEQUENCE_LOCKTIME_MASK) - 1)) nMinTime))"
| "lock_loop H block ins heights nMinHeight nMinTime = Some (heights, nMinHeight, nMinTime)"

definition CalculateSequenceLocks :: "index_heap \<Rightarrow> CTransaction \<Rightarrow> u32 \<Rightarrow> int list \<Rightarrow> ptr \<Rightarrow> (int list \<times> int \<times> int) option" where
  "CalculateSequenceLocks H tx flags prevHeights block =
     (if length prevHeights \<noteq> length (vin tx) then None
      else let fEnforceBIP68 = ((of_int (nVersion tx) :: u32) \<ge> 2 \<and> flags AND LOCKTIME_VERIFY_SEQUENCE \<noteq> 0) in
        if \<not> fEnforceBIP68 then Some (prevHeights, - 1, - 1)
        else lock_loop H block (vin tx) prevHeights (- 1) (- 1))"

definition EvaluateSequenceLocks :: "index_heap \<Rightarrow> ptr \<Rightarrow> int \<times> int \<Rightarrow> bool option" where
  "EvaluateSequenceLocks H block lockPair =
     (case H block of None \<Rightarrow> None
      | Some e \<Rightarrow>
          (case pprev e of None \<Rightarrow> None
           | Some q \<Rightarrow> map_option (\<lambda>nBlockTime. \<not> (fst lockPair \<ge> nHeight e \<or> snd lockPair \<ge> nBlockTime)) (GetMedianTimePast H q)))"

definition SequenceLocks :: "index_heap \<Rightarrow> CTransaction \<Rightarrow> u32 \<Rightarrow> int list \<Rightarrow> ptr \<Rightarrow> (bool \<times> int list) option" where
  "SequenceLocks H tx flags prevHeights block =
     (case CalculateSequenceLocks H tx flags prevHeights block of None \<Rightarrow> None
      | Some (prevHeights, lockPair) \<Rightarrow> map_option (\<lambda>r. (r, prevHeights)) (EvaluateSequenceLocks H block lockPair))"

section \<open>Counting signature operations\<close>

definition GetLegacySigOpCount :: "CTransaction \<Rightarrow> u32" where
  "GetLegacySigOpCount tx =
     fold (\<lambda>txout nSigOps. nSigOps + GetSigOpCount (scriptPubKey txout) False) (vout tx)
       (fold (\<lambda>txin nSigOps. nSigOps + GetSigOpCount (scriptSig txin) False) (vin tx) 0)"

primrec p2sh_sigops :: "mem_usage \<Rightarrow> coins_view \<Rightarrow> CTxIn list \<Rightarrow> u32 \<Rightarrow> CCoinsViewCache \<Rightarrow> (u32 \<times> CCoinsViewCache) option" where
  "p2sh_sigops mem base [] nSigOps c = Some (nSigOps, c)"
| "p2sh_sigops mem base (txin # ins) nSigOps c =
     (case AccessCoin mem base (prevout txin) c of (cn, c) \<Rightarrow>
        if IsSpent cn then None
        else p2sh_sigops mem base ins
          (if IsPayToScriptHash (scriptPubKey (out cn)) then nSigOps + GetSigOpCount_p2sh (scriptPubKey (out cn)) (scriptSig txin) else nSigOps) c)"

definition GetP2SHSigOpCount :: "mem_usage \<Rightarrow> coins_view \<Rightarrow> CTransaction \<Rightarrow> CCoinsViewCache \<Rightarrow> (u32 \<times> CCoinsViewCache) option" where
  "GetP2SHSigOpCount mem base tx c = (if IsCoinBase tx then Some (0, c) else p2sh_sigops mem base (vin tx) 0 c)"

primrec witness_sigops :: "mem_usage \<Rightarrow> coins_view \<Rightarrow> u32 \<Rightarrow> CTxIn list \<Rightarrow> int \<Rightarrow> CCoinsViewCache \<Rightarrow> (int \<times> CCoinsViewCache) option" where
  "witness_sigops mem base flags [] nSigOps c = Some (nSigOps, c)"
| "witness_sigops mem base flags (txin # ins) nSigOps c =
     (case AccessCoin mem base (prevout txin) c of (cn, c) \<Rightarrow>
        if IsSpent cn then None
        else (case CountWitnessSigOps (scriptSig txin) (scriptPubKey (out cn)) (scriptWitness txin) flags of None \<Rightarrow> None
          | Some n \<Rightarrow> witness_sigops mem base flags ins (nSigOps + uint n) c))"

definition GetTransactionSigOpCost :: "mem_usage \<Rightarrow> coins_view \<Rightarrow> CTransaction \<Rightarrow> u32 \<Rightarrow> CCoinsViewCache \<Rightarrow> (int \<times> CCoinsViewCache) option" where
  "GetTransactionSigOpCost mem base tx flags c =
     (let nSigOps = uint (GetLegacySigOpCount tx * of_int WITNESS_SCALE_FACTOR) in
      if IsCoinBase tx then Some (nSigOps, c)
      else (case (if on flags SCRIPT_VERIFY_P2SH then
                    map_option (\<lambda>(n, c). (nSigOps + uint (n * of_int WITNESS_SCALE_FACTOR), c)) (GetP2SHSigOpCount mem base tx c)
                  else Some (nSigOps, c)) of None \<Rightarrow> None
        | Some (nSigOps, c) \<Rightarrow> witness_sigops mem base flags (vin tx) nSigOps c))"

section \<open>The values of the inputs\<close>

text \<open>An immature reward may be spent by the calls that pay the governors and the budget.\<close>

definition reward_call :: "(int \<Rightarrow> bytes) \<Rightarrow> (int \<Rightarrow> bytes) \<Rightarrow> Coin \<Rightarrow> script_fault + bool" where
  "reward_call getGovernanceDGP getBudgetDGP cn =
     ebind (IsDGPContractCall (scriptPubKey (out cn)) (getGovernanceDGP (uint (coinHeight cn))) [0x1c, 0x03, 0x18, 0xcd]) (\<lambda>governance.
     if governance then Inr True
     else IsDGPContractCall (scriptPubKey (out cn)) (getBudgetDGP (uint (coinHeight cn))) [0x10, 0x4a, 0xd8, 0x6f])"

primrec input_values :: "mem_usage \<Rightarrow> coins_view \<Rightarrow> (int \<Rightarrow> bytes) \<Rightarrow> (int \<Rightarrow> bytes) \<Rightarrow> int \<Rightarrow> CTxIn list \<Rightarrow> CAmount \<Rightarrow> CCoinsViewCache \<Rightarrow>
    (tx_stop + CAmount) \<times> CCoinsViewCache" where
  "input_values mem base getGovernanceDGP getBudgetDGP nSpendHeight [] nValueIn c = (Inr nValueIn, c)"
| "input_values mem base getGovernanceDGP getBudgetDGP nSpendHeight (txin # ins) nValueIn c =
     (case AccessCoin mem base (prevout txin) c of (cn, c) \<Rightarrow>
        if IsSpent cn then (Inl Assert_failed, c)
        else (case (if (fCoinBase cn \<or> fCoinStake cn) \<and> nSpendHeight - uint (coinHeight cn) < COINBASE_MATURITY
                    then reward_call getGovernanceDGP getBudgetDGP cn else Inr True) of
            Inl e \<Rightarrow> (Inl (Contract_scan e), c)
          | Inr mature \<Rightarrow>
              if \<not> mature then (Inl (Invalid ''bad-txns-premature-spend-of-coinbase''), c)
              else if \<not> fits_int64 (nValueIn + nValue (out cn)) then (Inl Overflow, c)
              else if \<not> MoneyRange (nValue (out cn)) \<or> \<not> MoneyRange (nValueIn + nValue (out cn))
                then (Inl (Invalid ''bad-txns-inputvalues-outofrange''), c)
              else input_values mem base getGovernanceDGP getBudgetDGP nSpendHeight ins (nValueIn + nValue (out cn)) c))"

text \<open>A coinstake leaves the fee as it is.\<close>

definition CheckTxInputs :: "mem_usage \<Rightarrow> coins_view \<Rightarrow> (int \<Rightarrow> bytes) \<Rightarrow> (int \<Rightarrow> bytes) \<Rightarrow> CTransaction \<Rightarrow> int \<Rightarrow> CAmount \<Rightarrow> CCoinsViewCache \<Rightarrow>
    (tx_stop + CAmount) \<times> CCoinsViewCache" where
  "CheckTxInputs mem base getGovernanceDGP getBudgetDGP tx nSpendHeight txfee c =
     (case HaveInputs mem base tx c of (have, c) \<Rightarrow>
        if \<not> have then (Inl (Invalid ''bad-txns-inputs-missingorspent''), c)
        else (case input_values mem base getGovernanceDGP getBudgetDGP nSpendHeight (vin tx) 0 c of
            (Inl e, c) \<Rightarrow> (Inl e, c)
          | (Inr nValueIn, c) \<Rightarrow>
              (if IsCoinStake tx then Inr txfee
               else case GetValueOut tx of Inl e \<Rightarrow> Inl (Throws e)
                 | Inr value_out \<Rightarrow>
                     if nValueIn < value_out then Inl (Invalid ''bad-txns-in-belowout'')
                     else if \<not> MoneyRange (nValueIn - value_out) then Inl (Invalid ''bad-txns-fee-outofrange'')
                     else Inr (nValueIn - value_out), c)))"

section \<open>Outputs and inputs that pass\<close>

definition output_ok :: "bool \<Rightarrow> CTxOut \<Rightarrow> bool" where
  "output_ok reward txout \<longleftrightarrow> (CTxOut_IsEmpty txout \<longrightarrow> reward) \<and> MoneyRange (nValue txout) \<and>
     (HasOpCall (scriptPubKey txout) \<or> HasOpCreate (scriptPubKey txout) \<or> HasOpSender (scriptPubKey txout) \<longrightarrow>
      fst (Solver (scriptPubKey txout) True False) \<noteq> TX_NONSTANDARD)"

lemma MoneyRange_add: "MoneyRange a \<Longrightarrow> MoneyRange b \<Longrightarrow> fits_int64 (a + b)"
  by (simp add: MoneyRange_def MAX_MONEY_def COIN_def fits_int64_def INT64_MIN_def INT64_MAX_def)

lemma sum_values_nonneg: "list_all (\<lambda>out. MoneyRange (nValue out)) outs \<Longrightarrow> 0 \<le> sum_list (map nValue outs)"
  by (auto simp: list_all_iff MoneyRange_def intro!: sum_list_nonneg)

lemma output_ok_values: "list_all (output_ok reward) outs \<Longrightarrow> list_all (\<lambda>out. MoneyRange (nValue out)) outs"
  by (auto simp: list_all_iff output_ok_def)

lemma check_outputs_Cons:
  assumes "MoneyRange acc"
  shows "check_outputs reward (txout # outs) acc = Inr () \<longleftrightarrow>
    output_ok reward txout \<and> MoneyRange (acc + nValue txout) \<and> check_outputs reward outs (acc + nValue txout) = Inr ()"
proof (cases "MoneyRange (nValue txout)")
  case True
  with MoneyRange_add [OF assms True] show ?thesis by (auto simp: output_ok_def MoneyRange_def)
qed (auto simp: output_ok_def MoneyRange_def)

lemma check_outputs_iff:
  "MoneyRange acc \<Longrightarrow>
   check_outputs reward outs acc = Inr () \<longleftrightarrow> list_all (output_ok reward) outs \<and> MoneyRange (acc + sum_list (map nValue outs))"
proof (induction outs arbitrary: acc)
  case (Cons txout outs)
  have "MoneyRange (acc + nValue txout)"
    if "output_ok reward txout" "list_all (output_ok reward) outs" "MoneyRange (acc + (nValue txout + sum_list (map nValue outs)))"
  proof -
    have "0 \<le> nValue txout" using that(1) by (simp add: output_ok_def MoneyRange_def)
    with that(3) sum_values_nonneg [OF output_ok_values [OF that(2)]] Cons.prems show ?thesis by (auto simp: MoneyRange_def)
  qed
  with Cons.IH [of "acc + nValue txout"] check_outputs_Cons [OF Cons.prems, of reward txout outs] show ?case
    by (auto simp: add.assoc simp del: check_outputs.simps)
qed simp

lemma check_duplicates_iff:
  "check_duplicates ins seen = Inr () \<longleftrightarrow> distinct (map prevout ins) \<and> set (map prevout ins) \<inter> set seen = {}"
  by (induction ins arbitrary: seen) auto

lemma MoneyRange_0: "MoneyRange 0"
  by (simp add: MoneyRange_def MAX_MONEY_def COIN_def)

lemma CheckTransaction_Inr:
  assumes "CheckTransaction w tx True = Inr ()"
  shows "vin tx \<noteq> []" "vout tx \<noteq> []" "list_all (output_ok (IsCoinBase tx \<or> IsCoinStake tx)) (vout tx)"
    "MoneyRange (sum_list (map nValue (vout tx)))" "distinct (map prevout (vin tx))"
  using assms check_outputs_iff [OF MoneyRange_0, of "IsCoinBase tx \<or> IsCoinStake tx" "vout tx"] check_duplicates_iff [of "vin tx" "[]"]
  by (auto simp: CheckTransaction_def Let_def ebind_eq_Inr split: if_splits)

lemma value_sum_le:
  "list_all (\<lambda>out. MoneyRange (nValue out)) outs \<Longrightarrow> 0 \<le> value_sum outs \<and> value_sum outs \<le> sum_list (map nValue outs)"
  by (induction outs) (auto simp: value_sum_def unburnt_def MoneyRange_def)

text \<open>Outputs that pass never make \<open>GetValueOut\<close> throw.\<close>

lemma GetValueOut_checked:
  assumes "CheckTransaction w tx True = Inr ()"
  shows "GetValueOut tx = Inr (value_sum (vout tx))"
proof -
  have v: "list_all (\<lambda>out. MoneyRange (nValue out)) (vout tx)" using output_ok_values [OF CheckTransaction_Inr(3) [OF assms]] .
  then have "list_all (\<lambda>out. MoneyRange (nValue out)) (unburnt (vout tx))" by (auto simp: unburnt_def list_all_iff)
  moreover have "MoneyRange (value_sum (vout tx))"
    using value_sum_le [OF v] CheckTransaction_Inr(4) [OF assms] by (simp add: MoneyRange_def)
  ultimately show ?thesis using value_out_loop_eq [OF MoneyRange_0, of "vout tx"] by (simp add: GetValueOut_def)
qed

section \<open>The values of the coins spent\<close>

definition coin_value :: "coins_view \<Rightarrow> COutPoint \<Rightarrow> CAmount" where
  "coin_value v p = (case v p of None \<Rightarrow> 0 | Some cn \<Rightarrow> nValue (out cn))"

definition spendable :: "(int \<Rightarrow> bytes) \<Rightarrow> (int \<Rightarrow> bytes) \<Rightarrow> int \<Rightarrow> Coin \<Rightarrow> bool" where
  "spendable gov budget h cn \<longleftrightarrow>
     ((fCoinBase cn \<or> fCoinStake cn) \<and> h - uint (coinHeight cn) < COINBASE_MATURITY \<longrightarrow> reward_call gov budget cn = Inr True)"

lemma input_values_refines:
  assumes "unspent_view b" "\<forall>p cn. view b c0 p = Some cn \<longrightarrow> MoneyRange (nValue (out cn))"
  shows "cache_ok mem b c \<Longrightarrow> view b c = view b c0 \<Longrightarrow> MoneyRange acc \<Longrightarrow> list_all (\<lambda>i. view b c0 (prevout i) \<noteq> None) ins \<Longrightarrow>
    input_values mem b gov budget h ins acc c = (r, c') \<Longrightarrow>
    view b c' = view b c0 \<and> cache_ok mem b c' \<and>
    ((\<exists>reason. r = Inl (Invalid reason)) \<or> (\<exists>f. r = Inl (Contract_scan f)) \<or>
     r = Inr (acc + sum_list (map (\<lambda>i. coin_value (view b c0) (prevout i)) ins)) \<and>
     (\<forall>i \<in> set ins. \<exists>cn. view b c0 (prevout i) = Some cn \<and> spendable gov budget h cn))"
proof (induction ins arbitrary: c acc)
  case (Cons i ins)
  obtain cn c1 where a: "AccessCoin mem b (prevout i) c = (cn, c1)" by force
  note A = AccessCoin_refines [OF Cons.prems(1) assms(1) a]
  have cn: "view b c0 (prevout i) = Some cn" "\<not> IsSpent cn" using A Cons.prems(2,4) by (auto split: if_splits)
  with assms(2) have m: "MoneyRange (nValue (out cn))" by blast
  note fits = MoneyRange_add [OF Cons.prems(3) m]
  let ?im = "(fCoinBase cn \<or> fCoinStake cn) \<and> h - uint (coinHeight cn) < COINBASE_MATURITY"
  show ?case
  proof (cases "if ?im then reward_call gov budget cn else Inr True")
    case (Inl e)
    then show ?thesis using Cons.prems(2,5) a cn A by (auto split: if_splits)
  next
    case (Inr mature)
    show ?thesis
    proof (cases "mature \<and> MoneyRange (acc + nValue (out cn))")
      case False
      then show ?thesis using Cons.prems(2,5) a cn A Inr fits m by (auto split: if_splits)
    next
      case True
      then have "input_values mem b gov budget h ins (acc + nValue (out cn)) c1 = (r, c')"
        using Cons.prems(5) a cn(2) Inr fits m by (auto split: if_splits)
      note IH = Cons.IH [OF _ _ _ _ this]
      have sp: "spendable gov budget h cn" using Inr True by (auto simp: spendable_def split: if_splits)
      show ?thesis using IH A Cons.prems(2,4) True cn(1) sp by (auto simp: coin_value_def add.assoc)
    qed
  qed
qed auto

section \<open>Relative lock times, input by input\<close>

definition fEnforceBIP68 :: "CTransaction \<Rightarrow> u32 \<Rightarrow> bool" where
  "fEnforceBIP68 tx flags \<longleftrightarrow> (of_int (nVersion tx) :: u32) \<ge> 2 \<and> flags AND LOCKTIME_VERIFY_SEQUENCE \<noteq> 0"

definition coin_time :: "index_heap \<Rightarrow> ptr \<Rightarrow> int \<Rightarrow> int" where
  "coin_time H block h = the (GetMedianTimePast H (the (the (GetAncestor H block (max (h - 1) 0)))))"

text \<open>An input is unlocked at a height and a median time: its sequence number has no meaning as a lock, or the blocks, or the
  units of 512 seconds, that it asks for have passed.\<close>

definition input_unlocked :: "index_heap \<Rightarrow> ptr \<Rightarrow> int \<Rightarrow> int \<Rightarrow> CTxIn \<Rightarrow> int \<Rightarrow> bool" where
  "input_unlocked H block height time txin h \<longleftrightarrow>
     nSequence txin AND SEQUENCE_LOCKTIME_DISABLE_FLAG \<noteq> 0 \<or>
     (if nSequence txin AND SEQUENCE_LOCKTIME_TYPE_FLAG \<noteq> 0
      then coin_time H block h + 512 * uint (nSequence txin AND SEQUENCE_LOCKTIME_MASK) \<le> time
      else h + uint (nSequence txin AND SEQUENCE_LOCKTIME_MASK) \<le> height)"

lemma lock_value_bound: "0 \<le> uint ((w :: u32) AND SEQUENCE_LOCKTIME_MASK)" "uint (w AND SEQUENCE_LOCKTIME_MASK) \<le> 0xffff"
  by (simp_all add: unsigned_and_eq AND_upper2)

lemma lock_value: "uint (push_bit SEQUENCE_LOCKTIME_GRANULARITY (w AND SEQUENCE_LOCKTIME_MASK)) = 512 * uint (w AND SEQUENCE_LOCKTIME_MASK)"
proof -
  have "uint (push_bit n x) = take_bit 32 (push_bit n (uint x))" for n and x :: u32
    by (simp add: unsigned_push_bit_eq)
  then have "uint (push_bit SEQUENCE_LOCKTIME_GRANULARITY (w AND SEQUENCE_LOCKTIME_MASK)) =
      take_bit 32 (push_bit 9 (uint (w AND SEQUENCE_LOCKTIME_MASK)))" .
  also have "\<dots> = push_bit 9 (uint (w AND SEQUENCE_LOCKTIME_MASK))"
    using lock_value_bound [of w] by (intro take_bit_int_eq_self) (simp_all add: push_bit_eq_mult)
  finally show ?thesis by (simp add: push_bit_eq_mult)
qed

lemma coin_time_Some:
  assumes "index_ok H" "H block = Some e" "0 \<le> h" "h \<le> nHeight e"
  shows "\<exists>q. GetAncestor H block (max (h - 1) 0) = Some (Some q) \<and> GetMedianTimePast H q = Some (coin_time H block h)"
proof -
  have r: "0 \<le> max (h - 1) 0" "max (h - 1) 0 \<le> nHeight e" using assms(3,4) index_okD(1) [OF assms(1,2)] by auto
  obtain q d where q: "up H (nat (nHeight e - max (h - 1) 0)) block = Some q" "H q = Some d"
    using up_ex [OF assms(1,2), of "nat (nHeight e - max (h - 1) 0)"] r by auto
  moreover obtain m where "GetMedianTimePast H q = Some m" using GetMedianTimePast_Some [OF assms(1) q(2)] by blast
  ultimately show ?thesis using GetAncestor_up [OF assms(1,2), of "max (h - 1) 0"] r by (simp add: coin_time_def)
qed

lemma lock_loop_ok:
  assumes "index_ok H" "H block = Some e" "nHeight e < 2 ^ 30"
  shows "length heights = length ins \<Longrightarrow> \<forall>h \<in> set heights. 0 \<le> h \<and> h \<le> nHeight e \<Longrightarrow>
    \<exists>hs mh mt. lock_loop H block ins heights a t = Some (hs, mh, mt) \<and>
      (mh < nHeight e \<and> mt < time \<longleftrightarrow> a < nHeight e \<and> t < time \<and> list_all2 (input_unlocked H block (nHeight e) time) ins heights)"
proof (induction ins arbitrary: heights a t)
  case (Cons txin ins)
  then obtain h hs where h: "heights = h # hs" "0 \<le> h" "h \<le> nHeight e" by (cases heights) auto
  with Cons.prems have prems: "length hs = length ins" "\<forall>h \<in> set hs. 0 \<le> h \<and> h \<le> nHeight e" by auto
  let ?v = "uint (nSequence txin AND SEQUENCE_LOCKTIME_MASK)"
  obtain q where q: "GetAncestor H block (max (h - 1) 0) = Some (Some q)" "GetMedianTimePast H q = Some (coin_time H block h)"
    using coin_time_Some [OF assms(1,2) h(2,3)] by blast
  have "fits_int32 (h + y)" if "0 \<le> y" "y \<le> 0xffff" for y using that h(2,3) assms(3) by (simp add: fits_int32_def)
  then have fits: "fits_int32 (h + ?v)" using lock_value_bound by blast
  consider "nSequence txin AND SEQUENCE_LOCKTIME_DISABLE_FLAG \<noteq> 0"
    | "nSequence txin AND SEQUENCE_LOCKTIME_DISABLE_FLAG = 0" "nSequence txin AND SEQUENCE_LOCKTIME_TYPE_FLAG \<noteq> 0"
    | "nSequence txin AND SEQUENCE_LOCKTIME_DISABLE_FLAG = 0" "nSequence txin AND SEQUENCE_LOCKTIME_TYPE_FLAG = 0" by blast
  then show ?case
  proof cases
    case 1
    then have "input_unlocked H block (nHeight e) time txin h" by (simp add: input_unlocked_def)
    with 1 show ?thesis using Cons.IH [OF prems, of a t] h(1) by auto
  next
    case 2
    then have "input_unlocked H block (nHeight e) time txin h \<longleftrightarrow> coin_time H block h + 512 * ?v \<le> time" by (simp add: input_unlocked_def)
    with 2 show ?thesis using Cons.IH [OF prems, of a "max t (coin_time H block h + 512 * ?v - 1)"] h(1) q by (auto simp: lock_value [simplified])
  next
    case 3
    then have "input_unlocked H block (nHeight e) time txin h \<longleftrightarrow> h + ?v \<le> nHeight e" by (simp add: input_unlocked_def)
    with 3 show ?thesis using Cons.IH [OF prems, of "max a (h + ?v - 1)" t] h(1) fits by auto
  qed
qed simp

lemma GetMedianTimePast_nonneg:
  assumes "GetMedianTimePast H p = Some m" "H p \<noteq> None"
  shows "0 \<le> m"
proof -
  have nn: "recent_times H n q = Some ts \<Longrightarrow> \<forall>t \<in> set ts. 0 \<le> t" for n q ts
    by (induction n arbitrary: q ts) (auto simp: bi_GetBlockTime_def split: option.splits)
  obtain ts where ts: "recent_times H nMedianTimeSpan (Some p) = Some ts" "m = sort ts ! (length ts div 2)"
    using assms(1) by (auto simp: GetMedianTimePast_def)
  moreover have "ts \<noteq> []" using ts(1) assms(2) by (auto simp: nMedianTimeSpan_def eval_nat_numeral split: option.splits)
  ultimately have "m \<in> set ts" by (metis nth_mem set_sort length_sort length_greater_0_conv div_less_dividend one_less_numeral_iff semiring_norm(76))
  with nn [OF ts(1)] show ?thesis by blast
qed

section \<open>Properties\<close>


definition demo_reward :: Coin where
  "demo_reward = \<lparr>out = \<lparr>nValue = 100, scriptPubKey = [OP_1]\<rparr>, fCoinBase = True, fCoinStake = False, coinHeight = 7\<rparr>"

definition demo_coins :: coins_view where
  "demo_coins = [\<lparr>outHash = replicate 32 5, outN = 2\<rparr> \<mapsto> demo_reward]"

definition demo_payment :: CTransaction where
  "demo_payment = \<lparr>vin = [\<lparr>prevout = \<lparr>outHash = replicate 32 5, outN = 2\<rparr>, scriptSig = [], nSequence = 1, scriptWitness = []\<rparr>],
     vout = [\<lparr>nValue = 50, scriptPubKey = [OP_1]\<rparr>, \<lparr>nValue = 30, scriptPubKey = p2pkh (replicate 20 0)\<rparr>], nVersion = 2, nLockTime = 0\<rparr>"


text \<open>
  C15: Property: relative lock times are enforced exactly.  In a well-formed block index the computation of a transaction's combined
  lock and its comparison with a block succeed, and the answer is that every single input is unlocked: by its height
  for locks by height, by the median time past of the block before its coin's for locks by time.
\<close>

theorem relative_lock_times_exact:
  assumes "index_ok H" "H block = Some e" "pprev e = Some q" "GetMedianTimePast H q = Some time" "nHeight e < 2 ^ 30"
    and "length heights = length (vin tx)" "\<forall>h \<in> set heights. 0 \<le> h \<and> h \<le> nHeight e"
  shows "\<exists>hs. SequenceLocks H tx flags heights block =
    Some (fEnforceBIP68 tx flags \<longrightarrow> list_all2 (input_unlocked H block (nHeight e) time) (vin tx) heights, hs)"
proof -
  have t: "- 1 < time" "- 1 < nHeight e"
    using GetMedianTimePast_nonneg [OF assms(4)] index_okD(3) [OF assms(1,2,3)] index_okD(1) [OF assms(1,2)] by auto
  show ?thesis
  proof (cases "fEnforceBIP68 tx flags")
    case True
    with lock_loop_ok [OF assms(1,2,5,6,7), of "- 1" "- 1" time] t assms show ?thesis
      by (auto simp: SequenceLocks_def CalculateSequenceLocks_def EvaluateSequenceLocks_def fEnforceBIP68_def Let_def not_le)
  next
    case False
    with t assms show ?thesis
      by (auto simp: SequenceLocks_def CalculateSequenceLocks_def EvaluateSequenceLocks_def fEnforceBIP68_def Let_def)
  qed
qed

theorem relative_lock_times_exact_witness:
  "\<exists>hs. SequenceLocks demo_index demo_payment 1 [0] 1 = Some (True, hs)"
proof -
  have H: "demo_index 1 = Some (demo_entry (Some 0) 1)" "pprev (demo_entry (Some 0) 1) = Some 0" "nHeight (demo_entry (Some 0) 1) = 1"
    by (simp_all add: demo_index_def demo_entry_def)
  have m: "GetMedianTimePast demo_index 0 = Some 0" by code_simp
  have "list_all2 (input_unlocked demo_index 1 1 0) (vin demo_payment) [0]" by code_simp
  moreover have len: "length [0 :: int] = length (vin demo_payment)" by (simp add: demo_payment_def)
  ultimately show ?thesis
    using relative_lock_times_exact [OF demo_index_ok H(1,2) m _ len, of 1] H(3) by simp
qed

end
