(* ===== verification/Spec2Isabelle.thy ===== *)
theory Spec2Isabelle
  imports TxVerify
begin

text \<open>
  A verification development of Metrix.
\<close>

end
